(* ===== verification/Laghu_Prelude.thy ===== *)
theory Laghu_Prelude
  imports Main "HOL-Library.Word" "HOL-Library.Monad_Syntax"
begin

text \<open>
  Shared vocabulary of the development: the machine types the sources use, the result
  type that stands for \<open>std::expected\<close>, the copy loop that several components run over a
  fixed array, and the word and list lemmas that every component needs.
\<close>

section \<open>Types\<close>

text \<open>
  \<open>std::size_t\<close> and \<open>std::uint64_t\<close> are 64-bit words: every supported target is a 64-bit
  POSIX system. Addresses are natural numbers; address 0 is the null pointer.
\<close>

type_synonym byte = "8 word"
type_synonym u8 = "8 word"
type_synonym u16 = "16 word"
type_synonym u32 = "32 word"
type_synonym u64 = "64 word"
type_synonym size_t = "64 word"
type_synonym addr = nat
type_synonym memory = "addr \<Rightarrow> byte"

abbreviation (input) nullptr :: addr where
  "nullptr \<equiv> 0"

text \<open>\<open>std::numeric_limits<T>::max()\<close> of an unsigned type.\<close>

abbreviation umax :: "'a::len word" where
  "umax \<equiv> - 1"

section \<open>Fact collections\<close>

named_theorems word_bounds \<open>word inequalities read as inequalities on natural numbers\<close>

section \<open>Sequential writes into an array\<close>

text \<open>
  The loop \<open>for (i = 0; i < n; ++i) out[k + i] = in[i]\<close> over an array of fixed length.
\<close>

primrec write_at :: "'a list \<Rightarrow> nat \<Rightarrow> 'a list \<Rightarrow> 'a list" where
  "write_at arr k [] = arr"
| "write_at arr k (x # xs) = write_at (arr[k := x]) (Suc k) xs"

lemma length_write_at [simp]: "length (write_at arr k xs) = length arr"
  by (induction xs arbitrary: arr k) auto

lemma write_at_eq:
  "k + length xs \<le> length arr \<Longrightarrow>
   write_at arr k xs = take k arr @ xs @ drop (k + length xs) arr"
proof (induction xs arbitrary: arr k)
  case Nil
  then show ?case by simp
next
  case (Cons x xs)
  then have "write_at (arr[k := x]) (Suc k) xs
      = take (Suc k) (arr[k := x]) @ xs @ drop (Suc k + length xs) (arr[k := x])"
    by (intro Cons.IH) simp
  with Cons.prems show ?case
    by (simp add: take_Suc_conv_app_nth)
qed

lemma write_at_0: "length xs \<le> length arr \<Longrightarrow> write_at arr 0 xs = xs @ drop (length xs) arr"
  by (simp add: write_at_eq)

section \<open>Arrays of fixed size\<close>

lemma length_2_iff: "length xs = 2 \<longleftrightarrow> (\<exists>a b. xs = [a, b])"
  by (auto simp: length_Suc_conv eval_nat_numeral)

lemma length_4_iff: "length xs = 4 \<longleftrightarrow> (\<exists>a b c d. xs = [a, b, c, d])"
  by (auto simp: length_Suc_conv eval_nat_numeral)

lemma sum_list_map_update:
  "i < length xs \<Longrightarrow> sum_list (map g (xs[i := y])) + g (xs ! i) = sum_list (map g xs) + g y"
  for g :: "'a \<Rightarrow> 'b::comm_monoid_add"
proof (induction xs arbitrary: i)
  case Nil
  then show ?case by simp
next
  case (Cons x xs)
  show ?case
  proof (cases i)
    case 0
    then show ?thesis by (simp add: ac_simps)
  next
    case (Suc j)
    then show ?thesis using Cons.IH [of j] Cons.prems by (simp add: add.assoc)
  qed
qed

section \<open>Words\<close>

lemma le_pred_iff_less: "0 < n \<Longrightarrow> m \<le> n - 1 \<longleftrightarrow> m < n" for m n :: nat
  by arith

lemma unat_bound: "unat w < 2 ^ LENGTH('a)" for w :: "'a::len word"
  by simp

lemma unat_of_nat_small: "k < 2 ^ LENGTH('a) \<Longrightarrow> unat (of_nat k :: 'a::len word) = k"
  by (simp add: unsigned_of_nat take_bit_nat_eq_self)

lemma eq_of_nat_unat: "unat w = n \<Longrightarrow> w = of_nat n" for w :: "'a::len word"
  by fastforce

lemma umax_unat: "unat (umax :: 'a::len word) = 2 ^ LENGTH('a) - 1"
proof -
  have "unat (umax :: 'a word) = nat (take_bit LENGTH('a) (- 1))"
    by transfer simp
  then show ?thesis
    by (simp add: take_bit_minus_one_eq_mask mask_eq_exp_minus_1 nat_diff_distrib nat_power_eq)
qed

lemma unat_umax_minus: "unat (umax - a :: 'a::len word) = 2 ^ LENGTH('a) - 1 - unat a"
  by (simp add: unat_sub umax_unat)

lemma unat_incr:
  fixes w :: "'a::len word"
  assumes "w \<noteq> umax"
  shows "unat (w + 1) = unat w + 1"
proof -
  have "1 + w \<noteq> 0"
    using assms by (metis add.commute eq_neg_iff_add_eq_0)
  then show ?thesis
    using unatSuc [of w] by (simp add: add.commute)
qed

lemma unat_Suc:
  "unat w + 1 < 2 ^ LENGTH('a) \<Longrightarrow> unat (w + 1) = Suc (unat w)" for w :: "'a::len word"
  using umax_unat [where 'a = 'a] by (subst unat_incr) auto

lemma le_umax_minus [word_bounds]:
  "b \<le> umax - a \<longleftrightarrow> unat a + unat b < 2 ^ LENGTH('a)" for a b :: "'a::len word"
proof -
  have "unat a < 2 ^ LENGTH('a)" by simp
  then show ?thesis
    unfolding word_le_nat_alt unat_umax_minus by linarith
qed

lemma le_minus_iff_unat [word_bounds]:
  "a \<le> c \<Longrightarrow> b \<le> c - a \<longleftrightarrow> unat a + unat b \<le> unat c" for a b c :: "'a::len word"
  by (auto simp: word_le_nat_alt unat_sub)

lemma unat_add_no_wrap:
  "unat a + unat b < 2 ^ LENGTH('a) \<Longrightarrow> unat (a + b) = unat a + unat b" for a b :: "'a::len word"
  by (simp add: unat_word_ariths)

lemma word_add_le_no_wrap:
  "a \<le> c \<Longrightarrow> b \<le> c - a \<Longrightarrow> unat (a + b) = unat a + unat b" for a b c :: "'a::len word"
proof -
  assume "a \<le> c" "b \<le> c - a"
  then have "unat a + unat b \<le> unat c" by (simp add: word_bounds)
  also have "unat c < 2 ^ LENGTH('a)" by simp
  finally show ?thesis by (rule unat_add_no_wrap)
qed

text \<open>Rounding to a multiple.\<close>

definition align_down :: "nat \<Rightarrow> nat \<Rightarrow> nat" where
  "align_down p x = x - x mod p"

definition align_up :: "nat \<Rightarrow> nat \<Rightarrow> nat" where
  "align_up p x = (x + p - 1) div p * p"

lemma align_up_eq:
  assumes "0 < p"
  shows "align_up p x = (if x mod p = 0 then x else x + (p - x mod p))"
proof -
  have x: "x = x div p * p + x mod p" by simp
  show ?thesis
  proof (cases "x mod p = 0")
    case True
    then obtain k where "x = k * p" using x by (metis add.right_neutral)
    moreover have "(k * p + p - 1) div p = k" using assms div_mult_self3 [of p k "p - 1"] by (simp add: add.commute)
    ultimately show ?thesis by (simp add: align_up_def)
  next
    case False
    have "x + p - 1 = (x mod p - 1) + (x div p + 1) * p"
      using False x by (simp only: add_mult_distrib)
    then have "(x + p - 1) div p = (x mod p - 1) div p + (x div p + 1)"
      using assms div_mult_self3 [of p "x div p + 1" "x mod p - 1"] by (simp add: add.commute)
    moreover have "(x mod p - 1) div p = 0" using assms by (simp add: less_imp_diff_less)
    ultimately have "align_up p x = x div p * p + p" by (simp add: align_up_def)
    moreover have "x div p * p + p = x + (p - x mod p)"
      using x mod_less_divisor [OF assms, of x] by linarith
    ultimately show ?thesis using False by simp
  qed
qed

lemma align_up_mono: "x \<le> y \<Longrightarrow> align_up p x \<le> align_up p y"
  by (simp add: align_up_def div_le_mono)

lemma align_up_ge: "0 < p \<Longrightarrow> x \<le> align_up p x"
  by (simp only: align_up_eq le_add1 order_refl split: if_split) simp

section \<open>Decimal numbers\<close>

text \<open>The value of a text of digits, read from the left, after a number already read.\<close>

definition decimal_value :: "('a \<Rightarrow> nat) \<Rightarrow> 'a list \<Rightarrow> nat \<Rightarrow> nat" where
  "decimal_value code ds n = foldl (\<lambda>n d. n * 10 + (code d - 48)) n ds"

lemma decimal_value_simps [simp]:
  "decimal_value code [] n = n"
  "decimal_value code (d # ds) n = decimal_value code ds (n * 10 + (code d - 48))"
  by (simp_all add: decimal_value_def)

lemma decimal_value_append: "decimal_value code (ds @ es) n = decimal_value code es (decimal_value code ds n)"
  by (simp add: decimal_value_def)

lemma decimal_value_ge: "n \<le> decimal_value code ds n"
proof (induction ds arbitrary: n)
  case (Cons d ds)
  have "n \<le> n * 10 + (code d - 48)" by simp
  also have "\<dots> \<le> decimal_value code ds (n * 10 + (code d - 48))" by (rule Cons.IH)
  finally show ?case by simp
qed simp

end
