(* ===== verification/Error_Contract.thy ===== *)
theory Error_Contract
  imports Laghu_Prelude
begin

text \<open>
  The error contract of \<open>src/core/contract/laghu/core/contract.hpp\<close>: the enumerations, the
  \<open>Error\<close> value with its derived classification and its bounded diagnostic, the three
  factories, and \<open>Result\<close>. Where the code inspects an enumeration for a value that is not
  one of its enumerators (the underlying type is \<open>std::uint8_t\<close>), the datatype has one more
  constructor that carries such a raw value.
\<close>

section \<open>Enumerations\<close>

datatype ErrorDomain = Dom_core | Dom_posix | Dom_dependency | Dom_crypto

datatype ErrorCode =
    EC_invalid_input
  | EC_invalid_range
  | EC_overflow
  | EC_exhaustion
  | EC_unavailable_capability
  | EC_invalid_state
  | EC_cancellation
  | EC_deadline
  | EC_io
  | EC_corrupt_data
  | EC_unsupported_version
  | EC_checksum
  | EC_dependency
  | EC_crypto
  | EC_unlisted u8

datatype Retryability = never | may_retry

datatype SecurityRelevance = ordinary | security_relevant

datatype DependencyStatus =
    DS_invalid_input
  | DS_invalid_range
  | DS_unavailable
  | DS_exhaustion
  | DS_unsupported_version
  | DS_corrupt_data
  | DS_checksum
  | DS_crypto
  | DS_io
  | DS_unknown
  | DS_unlisted u8

datatype DependencyId =
    DI_none | DI_openssl | DI_libressl | DI_yyjson | DI_nghttp2 | DI_ngtcp2 | DI_nghttp3
  | DI_c_ares | DI_pcre2_8bit | DI_zlib_ng | DI_brotli | DI_zstd | DI_libmaxminddb
  | DI_libidn2 | DI_libxcrypt | DI_protobuf_c
  | DI_unlisted u8

definition is_known_dependency_id :: "DependencyId \<Rightarrow> bool" where
  "is_known_dependency_id dep =
     (case dep of
        DI_none \<Rightarrow> True | DI_openssl \<Rightarrow> True | DI_libressl \<Rightarrow> True | DI_yyjson \<Rightarrow> True
      | DI_nghttp2 \<Rightarrow> True | DI_ngtcp2 \<Rightarrow> True | DI_nghttp3 \<Rightarrow> True | DI_c_ares \<Rightarrow> True
      | DI_pcre2_8bit \<Rightarrow> True | DI_zlib_ng \<Rightarrow> True | DI_brotli \<Rightarrow> True | DI_zstd \<Rightarrow> True
      | DI_libmaxminddb \<Rightarrow> True | DI_libidn2 \<Rightarrow> True | DI_libxcrypt \<Rightarrow> True
      | DI_protobuf_c \<Rightarrow> True
      | DI_unlisted _ \<Rightarrow> False)"

datatype DependencyOperation =
    OP_none | OP_sha256 | OP_hmac_sha256 | OP_ed25519_private_key | OP_ed25519_sign
  | OP_ed25519_verify | OP_spki_decode | OP_idna_lookup | OP_password_verify
  | OP_json_parse | OP_http2_session | OP_http2_receive | OP_http2_send | OP_http2_submit
  | OP_quic_session | OP_quic_receive | OP_quic_send | OP_quic_stream | OP_quic_expiry
  | OP_http3_session | OP_http3_receive | OP_http3_send | OP_http3_submit
  | OP_dns_session | OP_dns_query | OP_regex_compile | OP_regex_match
  | OP_codec_initialize | OP_codec_process | OP_geoip_open | OP_geoip_lookup
  | OP_unlisted u8

section \<open>The error value\<close>

record Error =
  err_domain :: ErrorDomain
  err_code :: ErrorCode
  err_native_code :: "32 word"
  err_retryability :: Retryability
  err_security_relevance :: SecurityRelevance
  err_dependency_id :: DependencyId
  err_dependency_operation :: DependencyOperation
  err_dependency_status :: DependencyStatus
  err_diagnostic_bytes :: "char list"
  err_diagnostic_context_length :: u8
  err_diagnostic_truncated :: bool

type_synonym 'a Result = "Error + 'a"

definition diagnostic_context_capacity :: nat where
  "diagnostic_context_capacity = 96"

text \<open>The \<open>errno\<close> constants of \<open><cerrno>\<close>, with the values of the Linux targets.\<close>

definition EINVAL :: int where "EINVAL = 22"
definition ERANGE :: int where "ERANGE = 34"
definition EOVERFLOW :: int where "EOVERFLOW = 75"
definition ENOMEM :: int where "ENOMEM = 12"
definition ECANCELED :: int where "ECANCELED = 125"
definition ETIMEDOUT :: int where "ETIMEDOUT = 110"
definition EILSEQ :: int where "EILSEQ = 84"
definition EBADMSG :: int where "EBADMSG = 74"
definition ENOSYS :: int where "ENOSYS = 38"
definition ENOTSUP :: int where "ENOTSUP = 95"
definition EOPNOTSUPP :: int where "EOPNOTSUPP = 95"

lemmas errno_defs = EINVAL_def ERANGE_def EOVERFLOW_def ENOMEM_def ECANCELED_def ETIMEDOUT_def
  EILSEQ_def EBADMSG_def ENOSYS_def ENOTSUP_def EOPNOTSUPP_def

definition normalize_errno :: "int \<Rightarrow> ErrorCode" where
  "normalize_errno native_code =
     (if native_code = EINVAL then EC_invalid_input
      else if native_code = ERANGE then EC_invalid_range
      else if native_code = EOVERFLOW then EC_overflow
      else if native_code = ENOMEM then EC_exhaustion
      else if native_code = ECANCELED then EC_cancellation
      else if native_code = ETIMEDOUT then EC_deadline
      else if native_code = EILSEQ \<or> native_code = EBADMSG then EC_corrupt_data
      else if native_code = ENOSYS \<or> native_code = ENOTSUP \<or> native_code = EOPNOTSUPP
        then EC_unavailable_capability
      else EC_io)"

definition normalize_dependency :: "DependencyStatus \<Rightarrow> ErrorCode" where
  "normalize_dependency status =
     (case status of
        DS_invalid_input \<Rightarrow> EC_invalid_input
      | DS_invalid_range \<Rightarrow> EC_invalid_range
      | DS_unavailable \<Rightarrow> EC_unavailable_capability
      | DS_exhaustion \<Rightarrow> EC_exhaustion
      | DS_unsupported_version \<Rightarrow> EC_unsupported_version
      | DS_corrupt_data \<Rightarrow> EC_corrupt_data
      | DS_checksum \<Rightarrow> EC_checksum
      | DS_crypto \<Rightarrow> EC_crypto
      | DS_io \<Rightarrow> EC_io
      | DS_unknown \<Rightarrow> EC_dependency
      | DS_unlisted _ \<Rightarrow> EC_dependency)"

definition retryability_for :: "ErrorCode \<Rightarrow> Retryability" where
  "retryability_for code =
     (case code of
        EC_exhaustion \<Rightarrow> may_retry | EC_deadline \<Rightarrow> may_retry | EC_io \<Rightarrow> may_retry
      | EC_dependency \<Rightarrow> may_retry
      | EC_invalid_input \<Rightarrow> never | EC_invalid_range \<Rightarrow> never | EC_overflow \<Rightarrow> never
      | EC_unavailable_capability \<Rightarrow> never | EC_invalid_state \<Rightarrow> never | EC_cancellation \<Rightarrow> never
      | EC_corrupt_data \<Rightarrow> never | EC_unsupported_version \<Rightarrow> never | EC_checksum \<Rightarrow> never
      | EC_crypto \<Rightarrow> never
      | EC_unlisted _ \<Rightarrow> never)"

definition security_relevance_for :: "ErrorCode \<Rightarrow> SecurityRelevance" where
  "security_relevance_for code =
     (case code of
        EC_corrupt_data \<Rightarrow> security_relevant | EC_checksum \<Rightarrow> security_relevant
      | EC_crypto \<Rightarrow> security_relevant
      | EC_invalid_input \<Rightarrow> ordinary | EC_invalid_range \<Rightarrow> ordinary | EC_overflow \<Rightarrow> ordinary
      | EC_exhaustion \<Rightarrow> ordinary | EC_unavailable_capability \<Rightarrow> ordinary | EC_invalid_state \<Rightarrow> ordinary
      | EC_cancellation \<Rightarrow> ordinary | EC_deadline \<Rightarrow> ordinary | EC_io \<Rightarrow> ordinary
      | EC_unsupported_version \<Rightarrow> ordinary | EC_dependency \<Rightarrow> ordinary
      | EC_unlisted _ \<Rightarrow> ordinary)"

text \<open>
  The array is cleared, then the first \<open>copied\<close> characters are stored one by one.
\<close>

definition set_diagnostic_context :: "string \<Rightarrow> Error \<Rightarrow> Error" where
  "set_diagnostic_context diagnostic e =
     (let cleared = replicate diagnostic_context_capacity (CHR 0x00);
          copied = (if length diagnostic < diagnostic_context_capacity then length diagnostic
                    else diagnostic_context_capacity)
      in e\<lparr>err_diagnostic_bytes := write_at cleared 0 (take copied diagnostic),
           err_diagnostic_context_length := of_nat copied,
           err_diagnostic_truncated := length diagnostic > diagnostic_context_capacity\<rparr>)"

definition make_error :: "ErrorDomain \<Rightarrow> ErrorCode \<Rightarrow> 32 word \<Rightarrow> string \<Rightarrow> Error" where
  "make_error domain code native_code diagnostic =
     set_diagnostic_context diagnostic
       \<lparr>err_domain = domain, err_code = code, err_native_code = native_code,
        err_retryability = retryability_for code,
        err_security_relevance = security_relevance_for code,
        err_dependency_id = DI_none, err_dependency_operation = OP_none,
        err_dependency_status = DS_unknown,
        err_diagnostic_bytes = replicate diagnostic_context_capacity (CHR 0x00),
        err_diagnostic_context_length = 0, err_diagnostic_truncated = False\<rparr>"

definition from_errno :: "int \<Rightarrow> string \<Rightarrow> Error" where
  "from_errno native_code diagnostic =
     make_error Dom_posix (normalize_errno native_code) (word_of_int native_code) diagnostic"

definition from_dependency_operation ::
    "DependencyId \<Rightarrow> DependencyOperation \<Rightarrow> DependencyStatus \<Rightarrow> 32 word \<Rightarrow> string \<Rightarrow> Error" where
  "from_dependency_operation dependency_id dependency_operation status native_code diagnostic =
     (make_error Dom_dependency (normalize_dependency status) native_code diagnostic)
       \<lparr>err_dependency_id := dependency_id,
        err_dependency_operation := dependency_operation,
        err_dependency_status := status\<rparr>"

definition from_dependency :: "DependencyStatus \<Rightarrow> 32 word \<Rightarrow> string \<Rightarrow> Error" where
  "from_dependency status native_code diagnostic =
     from_dependency_operation DI_none OP_none status native_code diagnostic"

text \<open>The accessor \<open>diagnostic_context()\<close>: the stored prefix as a string view.\<close>

definition diagnostic_context :: "Error \<Rightarrow> string" where
  "diagnostic_context e = take (unat (err_diagnostic_context_length e)) (err_diagnostic_bytes e)"

text \<open>The shape almost every error of the core has: domain \<open>core\<close>, no native code.\<close>

definition core_error :: "ErrorCode \<Rightarrow> string \<Rightarrow> Error" where
  "core_error code diagnostic = make_error Dom_core code 0 diagnostic"

definition has_value :: "'a Result \<Rightarrow> bool" where
  "has_value r = (case r of Inl _ \<Rightarrow> False | Inr _ \<Rightarrow> True)"

section \<open>Well-formed errors\<close>

text \<open>
  What every \<open>Error\<close> the code can build satisfies: the two classifications agree with the
  code, the diagnostic buffer has its fixed size, its length field is within it and every
  byte past the length is zero; only a full buffer is marked truncated.
\<close>

definition error_wf :: "Error \<Rightarrow> bool" where
  "error_wf e \<longleftrightarrow>
     err_retryability e = retryability_for (err_code e) \<and>
     err_security_relevance e = security_relevance_for (err_code e) \<and>
     length (err_diagnostic_bytes e) = diagnostic_context_capacity \<and>
     unat (err_diagnostic_context_length e) \<le> diagnostic_context_capacity \<and>
     drop (unat (err_diagnostic_context_length e)) (err_diagnostic_bytes e)
       = replicate (diagnostic_context_capacity - unat (err_diagnostic_context_length e)) (CHR 0x00) \<and>
     (err_diagnostic_truncated e \<longrightarrow>
        unat (err_diagnostic_context_length e) = diagnostic_context_capacity)"

lemma has_value_simps [simp]:
  "has_value (Inl e) = False"
  "has_value (Inr v) = True"
  by (simp_all add: has_value_def)

lemma set_diagnostic_context_fields:
  fixes d :: string and e :: Error
  defines "n \<equiv> min (length d) diagnostic_context_capacity"
  shows "err_diagnostic_bytes (set_diagnostic_context d e)
           = take n d @ replicate (diagnostic_context_capacity - n) (CHR 0x00)"
    and "unat (err_diagnostic_context_length (set_diagnostic_context d e)) = n"
    and "err_diagnostic_truncated (set_diagnostic_context d e)
           \<longleftrightarrow> length d > diagnostic_context_capacity"
proof -
  have n: "(if length d < diagnostic_context_capacity then length d
            else diagnostic_context_capacity) = n"
    by (simp add: n_def)
  have "n \<le> 96" by (simp add: n_def diagnostic_context_capacity_def)
  then have u: "unat (of_nat n :: u8) = n"
    by (simp add: unat_of_nat)
  have w: "write_at (replicate diagnostic_context_capacity (CHR 0x00)) 0 (take n d)
      = take n d @ replicate (diagnostic_context_capacity - n) (CHR 0x00)"
    by (subst write_at_0) (simp_all add: n_def)
  show "err_diagnostic_bytes (set_diagnostic_context d e)
          = take n d @ replicate (diagnostic_context_capacity - n) (CHR 0x00)"
    by (simp only: set_diagnostic_context_def n Let_def w) simp
  show "unat (err_diagnostic_context_length (set_diagnostic_context d e)) = n"
    by (simp only: set_diagnostic_context_def n Let_def) (simp add: u)
  show "err_diagnostic_truncated (set_diagnostic_context d e) \<longleftrightarrow> length d > diagnostic_context_capacity"
    by (simp add: set_diagnostic_context_def Let_def)
qed

lemma set_diagnostic_context_frame [simp]:
  "err_domain (set_diagnostic_context d e) = err_domain e"
  "err_code (set_diagnostic_context d e) = err_code e"
  "err_native_code (set_diagnostic_context d e) = err_native_code e"
  "err_retryability (set_diagnostic_context d e) = err_retryability e"
  "err_security_relevance (set_diagnostic_context d e) = err_security_relevance e"
  "err_dependency_id (set_diagnostic_context d e) = err_dependency_id e"
  "err_dependency_operation (set_diagnostic_context d e) = err_dependency_operation e"
  "err_dependency_status (set_diagnostic_context d e) = err_dependency_status e"
  by (simp_all add: set_diagnostic_context_def Let_def)

lemma make_error_fields [simp]:
  "err_domain (make_error dm c n d) = dm"
  "err_code (make_error dm c n d) = c"
  "err_native_code (make_error dm c n d) = n"
  "err_dependency_id (make_error dm c n d) = DI_none"
  "err_dependency_operation (make_error dm c n d) = OP_none"
  "err_dependency_status (make_error dm c n d) = DS_unknown"
  by (simp_all add: make_error_def)

lemma core_error_fields [simp]:
  "err_domain (core_error c d) = Dom_core"
  "err_code (core_error c d) = c"
  "err_native_code (core_error c d) = 0"
  by (simp_all add: core_error_def)

lemma error_wf_make_error: "error_wf (make_error dm c n d)"
  by (auto simp: error_wf_def make_error_def set_diagnostic_context_fields)

lemma error_wf_from_dependency_operation:
  "error_wf (from_dependency_operation i oper s n d)"
  using error_wf_make_error [of Dom_dependency "normalize_dependency s" n d]
  by (simp add: error_wf_def from_dependency_operation_def)

lemma diagnostic_context_make_error:
  "diagnostic_context (make_error dm c n d) = take diagnostic_context_capacity d"
  by (simp add: diagnostic_context_def make_error_def set_diagnostic_context_fields min_def)

lemma core_error_inject:
  assumes "length d \<le> diagnostic_context_capacity" "length d' \<le> diagnostic_context_capacity"
  shows "core_error c d = core_error c' d' \<longleftrightarrow> c = c' \<and> d = d'"
proof
  assume eq: "core_error c d = core_error c' d'"
  have "err_code (core_error c d) = err_code (core_error c' d')"
    and "diagnostic_context (core_error c d) = diagnostic_context (core_error c' d')"
    using eq by simp_all
  with assms show "c = c' \<and> d = d'"
    by (simp add: core_error_def diagnostic_context_make_error)
qed simp

end
