(* ===== verification/Checked_Arithmetic.thy ===== *)
theory Checked_Arithmetic
  imports Error_Contract
begin

text \<open>
  \<open>src/core/contract/laghu/core/checked_arithmetic.hpp\<close>. Each template is one definition for
  the unsigned instances and one for the signed instances, the two branches of its
  \<open>if constexpr\<close>. An unsigned \<open>T\<close> is an \<open>'a word\<close> compared by its unsigned value. A signed
  \<open>T\<close> is an \<open>'a word\<close> read by \<open>sint\<close>; the guards are evaluated on the mathematical integers,
  and the lemmas of the last section show that every intermediate value fits, so the C++
  expressions have no undefined behaviour.
\<close>

section \<open>Limits and errors\<close>

definition smax :: "'a::len itself \<Rightarrow> int" where
  "smax _ = 2 ^ (LENGTH('a) - 1) - 1"

definition smin :: "'a::len itself \<Rightarrow> int" where
  "smin _ = - (2 ^ (LENGTH('a) - 1))"

definition arithmetic_overflow_error :: Error where
  "arithmetic_overflow_error = core_error EC_overflow ''checked arithmetic overflow''"

definition invalid_range_error :: Error where
  "invalid_range_error = core_error EC_invalid_range ''checked range is invalid''"

text \<open>C++ integer division truncates towards zero.\<close>

definition cdiv :: "int \<Rightarrow> int \<Rightarrow> int" where
  "cdiv a b = sgn a * sgn b * (\<bar>a\<bar> div \<bar>b\<bar>)"

definition cmod :: "int \<Rightarrow> int \<Rightarrow> int" where
  "cmod a b = a - cdiv a b * b"

section \<open>Addition, subtraction, multiplication\<close>

definition checked_add :: "'a::len word \<Rightarrow> 'a word \<Rightarrow> 'a word Result" where
  "checked_add left right =
     (if left > umax - right then Inl arithmetic_overflow_error else Inr (left + right))"

definition checked_add_signed :: "'a::len word \<Rightarrow> 'a word \<Rightarrow> 'a word Result" where
  "checked_add_signed left right =
     (let l = sint left; r = sint right in
      if (r > 0 \<and> l > smax TYPE('a) - r) \<or> (r < 0 \<and> l < smin TYPE('a) - r)
      then Inl arithmetic_overflow_error
      else Inr (word_of_int (l + r)))"

definition checked_subtract :: "'a::len word \<Rightarrow> 'a word \<Rightarrow> 'a word Result" where
  "checked_subtract left right =
     (if left < right then Inl arithmetic_overflow_error else Inr (left - right))"

definition checked_subtract_signed :: "'a::len word \<Rightarrow> 'a word \<Rightarrow> 'a word Result" where
  "checked_subtract_signed left right =
     (let l = sint left; r = sint right in
      if (r > 0 \<and> l < smin TYPE('a) + r) \<or> (r < 0 \<and> l > smax TYPE('a) + r)
      then Inl arithmetic_overflow_error
      else Inr (word_of_int (l - r)))"

definition checked_multiply :: "'a::len word \<Rightarrow> 'a word \<Rightarrow> 'a word Result" where
  "checked_multiply left right =
     (if left = 0 \<or> right = 0 then Inr 0
      else if left > umax div right then Inl arithmetic_overflow_error
      else Inr (left * right))"

definition checked_multiply_signed :: "'a::len word \<Rightarrow> 'a word \<Rightarrow> 'a word Result" where
  "checked_multiply_signed left right =
     (let l = sint left; r = sint right; mx = smax TYPE('a); mn = smin TYPE('a) in
      if l = 0 \<or> r = 0 then Inr 0
      else if (l = -1 \<and> r = mn) \<or> (r = -1 \<and> l = mn) then Inl arithmetic_overflow_error
      else if (l > 0 \<and> r > 0 \<and> l > cdiv mx r) \<or>
              (l > 0 \<and> r < 0 \<and> r < cdiv mn l) \<or>
              (l < 0 \<and> r > 0 \<and> l < cdiv mn r) \<or>
              (l < 0 \<and> r < 0 \<and> l < cdiv mx r)
      then Inl arithmetic_overflow_error
      else Inr (word_of_int (l * r)))"

section \<open>Narrowing and ranges\<close>

text \<open>
  \<open>std::in_range<To>\<close> compares mathematical values, so the source value is an \<open>int\<close>: \<open>uint v\<close>
  of an unsigned or \<open>sint v\<close> of a signed argument.
\<close>

definition checked_narrow :: "int \<Rightarrow> 'to::len word Result" where
  "checked_narrow v =
     (if \<not> (0 \<le> v \<and> v \<le> 2 ^ LENGTH('to) - 1) then Inl arithmetic_overflow_error
      else Inr (word_of_int v))"

definition checked_narrow_signed :: "int \<Rightarrow> 'to::len word Result" where
  "checked_narrow_signed v =
     (if \<not> (smin TYPE('to) \<le> v \<and> v \<le> smax TYPE('to)) then Inl arithmetic_overflow_error
      else Inr (word_of_int v))"

definition checked_range :: "'a::len word \<Rightarrow> 'a word \<Rightarrow> 'a word \<Rightarrow> unit Result" where
  "checked_range offset len limit =
     (if offset > limit then Inl invalid_range_error
      else if len > umax - offset then Inl arithmetic_overflow_error
      else if len > limit - offset then Inl invalid_range_error
      else Inr ())"

definition checked_range_signed :: "'a::len word \<Rightarrow> 'a word \<Rightarrow> 'a word \<Rightarrow> unit Result" where
  "checked_range_signed offset len limit =
     (let o' = sint offset; n = sint len; m = sint limit in
      if o' < 0 \<or> n < 0 \<or> m < 0 then Inl invalid_range_error
      else if o' > m then Inl invalid_range_error
      else if n > smax TYPE('a) - o' then Inl arithmetic_overflow_error
      else if n > m - o' then Inl invalid_range_error
      else Inr ())"

definition is_valid_range :: "'a::len word \<Rightarrow> 'a word \<Rightarrow> 'a word \<Rightarrow> bool" where
  "is_valid_range offset len limit = has_value (checked_range offset len limit)"

section \<open>Unsigned arithmetic is exact or refused\<close>

lemma checked_add_eq:
  "checked_add a b =
     (if unat a + unat b < 2 ^ LENGTH('a) then Inr (a + b) else Inl arithmetic_overflow_error)"
  for a b :: "'a::len word"
  using le_umax_minus [of a b] by (auto simp: checked_add_def linorder_not_le [symmetric] add.commute)

lemma checked_add_Inr [simp]:
  "checked_add a b = Inr c \<longleftrightarrow> unat c = unat a + unat b"
  for a b c :: "'a::len word"
proof
  assume "checked_add a b = Inr c"
  then show "unat c = unat a + unat b"
    by (auto simp: checked_add_eq unat_add_no_wrap split: if_splits)
next
  assume c: "unat c = unat a + unat b"
  have "unat c < 2 ^ LENGTH('a)" by simp
  with c have "checked_add a b = Inr (a + b)" by (simp add: checked_add_eq)
  moreover have "unat (a + b) = unat c"
    using c \<open>unat c < _\<close> by (simp add: unat_add_no_wrap)
  ultimately show "checked_add a b = Inr c"
    by (simp add: word_unat_eq_iff)
qed

lemma checked_add_Inl:
  "checked_add a b = Inl e \<longleftrightarrow>
     2 ^ LENGTH('a) \<le> unat a + unat b \<and> e = arithmetic_overflow_error"
  for a b :: "'a::len word"
  by (auto simp: checked_add_eq)

text \<open>Rounding up to a multiple, as the code does it.\<close>

lemma checked_align_up:
  fixes v align :: "'a::len word"
  assumes "0 < unat align"
  shows "checked_add v (if v mod align = 0 then 0 else align - v mod align) =
    (if align_up (unat align) (unat v) < 2 ^ LENGTH('a) then Inr (of_nat (align_up (unat align) (unat v)))
     else Inl arithmetic_overflow_error)"
proof -
  have r: "unat (v mod align) = unat v mod unat align" by (simp add: unat_mod)
  have "v mod align \<le> align" using r assms by (simp add: word_le_nat_alt less_imp_le)
  then have d: "unat (align - v mod align) = unat align - unat v mod unat align" by (simp add: unat_sub r)
  have z: "v mod align = 0 \<longleftrightarrow> unat v mod unat align = 0" unfolding r [symmetric] by (simp add: unat_eq_0)
  have "align_up (unat align) (unat v) = unat v + unat (if v mod align = 0 then 0 else align - v mod align)"
    using assms z by (simp only: align_up_eq d split: if_split) simp
  then show ?thesis by (simp add: checked_add_eq)
qed

lemma checked_subtract_Inr [simp]:
  "checked_subtract a b = Inr c \<longleftrightarrow> unat b + unat c = unat a"
  for a b c :: "'a::len word"
proof
  assume "checked_subtract a b = Inr c"
  then show "unat b + unat c = unat a"
    by (auto simp: checked_subtract_def not_less unat_sub word_le_nat_alt split: if_splits)
next
  assume eq: "unat b + unat c = unat a"
  then have "b \<le> a" by (simp add: word_le_nat_alt)
  with eq show "checked_subtract a b = Inr c"
    by (simp add: checked_subtract_def not_less word_unat_eq_iff unat_sub)
qed

lemma checked_multiply_guard:
  fixes a b :: "'a::len word"
  assumes "b \<noteq> 0"
  shows "a \<le> umax div b \<longleftrightarrow> unat a * unat b < 2 ^ LENGTH('a)"
proof -
  have b: "0 < unat b" using assms by (simp add: unat_gt_0)
  have "a \<le> umax div b \<longleftrightarrow> unat a \<le> (2 ^ LENGTH('a) - 1) div unat b"
    by (simp add: word_le_nat_alt unat_div umax_unat)
  also have "\<dots> \<longleftrightarrow> unat a * unat b \<le> 2 ^ LENGTH('a) - 1"
    by (rule less_eq_div_iff_mult_less_eq [OF b])
  also have "\<dots> \<longleftrightarrow> unat a * unat b < 2 ^ LENGTH('a)"
    by (rule le_pred_iff_less) simp
  finally show ?thesis .
qed

lemma checked_multiply_eq:
  "checked_multiply a b =
     (if unat a * unat b < 2 ^ LENGTH('a) then Inr (a * b) else Inl arithmetic_overflow_error)"
  for a b :: "'a::len word"
proof (cases "a = 0 \<or> b = 0")
  case True
  then show ?thesis by (auto simp: checked_multiply_def)
next
  case False
  then show ?thesis
    using checked_multiply_guard [of b a]
    by (simp add: checked_multiply_def linorder_not_le [symmetric])
qed

lemma checked_range_Inr [simp]:
  "checked_range a n l = Inr u \<longleftrightarrow> unat a + unat n \<le> unat l" for a n l :: "'a::len word"
proof (cases "a \<le> l")
  case True
  have "unat l < 2 ^ LENGTH('a)" by simp
  with True show ?thesis
    using le_umax_minus [of n a] le_minus_iff_unat [OF True, of n]
    by (auto simp: checked_range_def linorder_not_le [symmetric])
next
  case False
  then have "l < a" and "\<not> unat a \<le> unat l"
    by (simp_all add: word_le_nat_alt word_less_nat_alt)
  then show ?thesis by (simp add: checked_range_def)
qed

lemma is_valid_range_iff: "is_valid_range a n l \<longleftrightarrow> unat a + unat n \<le> unat l"
proof -
  have "has_value r \<longleftrightarrow> r = Inr ()" for r :: "unit Result"
    by (cases r) auto
  then show ?thesis by (simp add: is_valid_range_def)
qed

section \<open>Signed arithmetic is exact or refused\<close>

lemma sint_bounds:
  "smin TYPE('a) \<le> sint w" "sint w \<le> smax TYPE('a)" for w :: "'a::len word"
  using sint_ge [of w] sint_lt [of w] by (simp_all add: smin_def smax_def)

lemma sint_word_of_int_in_range:
  "smin TYPE('a) \<le> i \<Longrightarrow> i \<le> smax TYPE('a) \<Longrightarrow> sint (word_of_int i :: 'a::len word) = i"
  by (simp add: sint_sbintrunc' signed_take_bit_int_eq_self smin_def smax_def del: sint_uint)

definition fits_signed :: "'a::len itself \<Rightarrow> int \<Rightarrow> bool" where
  "fits_signed t i \<longleftrightarrow> smin t \<le> i \<and> i \<le> smax t"

lemma checked_add_signed_eq:
  "checked_add_signed a b =
     (if fits_signed TYPE('a) (sint a + sint b) then Inr (word_of_int (sint a + sint b))
      else Inl arithmetic_overflow_error)" for a b :: "'a::len word"
  using sint_bounds [of a] sint_bounds [of b]
  by (auto simp: checked_add_signed_def fits_signed_def Let_def)

lemma checked_subtract_signed_eq:
  "checked_subtract_signed a b =
     (if fits_signed TYPE('a) (sint a - sint b) then Inr (word_of_int (sint a - sint b))
      else Inl arithmetic_overflow_error)" for a b :: "'a::len word"
  using sint_bounds [of a] sint_bounds [of b]
  by (auto simp: checked_subtract_signed_def fits_signed_def Let_def)

lemma cdiv_pos_pos: "0 \<le> a \<Longrightarrow> 0 < b \<Longrightarrow> cdiv a b = a div b"
  by (cases "a = 0") (simp_all add: cdiv_def)

lemma cdiv_neg_pos: "a < 0 \<Longrightarrow> 0 < b \<Longrightarrow> cdiv a b = - ((- a) div b)"
  by (simp add: cdiv_def)

lemma cdiv_pos_neg: "0 \<le> a \<Longrightarrow> b < 0 \<Longrightarrow> cdiv a b = - (a div (- b))"
  by (cases "a = 0") (simp_all add: cdiv_def)

lemma le_div_iff_mult_le: 
  fixes a b c :: int
  assumes c: "0 < c"
  shows "a \<le> b div c \<longleftrightarrow> a * c \<le> b"
proof
  assume "a \<le> b div c"
  then have "a * c \<le> (b div c) * c" using c by simp
  also have "\<dots> \<le> b" using c by (simp add: minus_mod_eq_div_mult [symmetric])
  finally show "a * c \<le> b" .
next
  assume le: "a * c \<le> b"
  have "b = b div c * c + b mod c" by (rule div_mult_mod_eq [symmetric])
  also have "\<dots> < b div c * c + c" by (rule add_strict_left_mono) (rule pos_mod_bound [OF c])
  also have "\<dots> = (b div c + 1) * c" by (simp add: distrib_right)
  finally have "b < (b div c + 1) * c" .
  with le have "a * c < (b div c + 1) * c" by linarith
  then show "a \<le> b div c" using c by simp
qed

lemma checked_multiply_signed_guard:
  fixes l r mx mn :: int
  assumes mn: "mn = - mx - 1" and mx: "0 \<le> mx" and nz: "l \<noteq> 0" "r \<noteq> 0"
  shows "((l = -1 \<and> r = mn) \<or> (r = -1 \<and> l = mn)) \<or>
         ((l > 0 \<and> r > 0 \<and> l > cdiv mx r) \<or>
          (l > 0 \<and> r < 0 \<and> r < cdiv mn l) \<or>
          (l < 0 \<and> r > 0 \<and> l < cdiv mn r) \<or>
          (l < 0 \<and> r < 0 \<and> l < cdiv mx r)) \<longleftrightarrow> \<not> (mn \<le> l * r \<and> l * r \<le> mx)"
proof -
  have neg: "mn < 0" using mn mx by simp
  consider (pp) "l > 0" "r > 0" | (pn) "l > 0" "r < 0" | (np) "l < 0" "r > 0" | (nn) "l < 0" "r < 0"
    using nz by linarith
  then show ?thesis
  proof cases
    case pp
    then have "mn \<le> l * r" using mult_pos_pos [OF pp] neg by linarith
    moreover have "l > cdiv mx r \<longleftrightarrow> \<not> l * r \<le> mx"
      using pp mx le_div_iff_mult_le [of r l mx] by (simp add: cdiv_pos_pos) linarith
    ultimately show ?thesis using pp neg by auto
  next
    case pn
    then have "l * r < 0" by (simp add: mult_pos_neg)
    moreover have "r < cdiv mn l \<longleftrightarrow> \<not> mn \<le> l * r"
      using pn neg le_div_iff_mult_le [of l "- r" "- mn"] by (simp add: cdiv_neg_pos mult.commute) linarith
    ultimately show ?thesis using pn neg mx by auto
  next
    case np
    then have "l * r < 0" by (simp add: mult_neg_pos)
    moreover have "l < cdiv mn r \<longleftrightarrow> \<not> mn \<le> l * r"
      using np neg le_div_iff_mult_le [of r "- l" "- mn"] by (simp add: cdiv_neg_pos) linarith
    ultimately show ?thesis using np neg mx by auto
  next
    case nn
    then have "mn \<le> l * r" using mult_neg_neg [OF nn] neg by linarith
    moreover have "l < cdiv mx r \<longleftrightarrow> \<not> l * r \<le> mx"
      using nn mx le_div_iff_mult_le [of "- r" "- l" mx] by (simp add: cdiv_pos_neg) linarith
    moreover have "(l = -1 \<and> r = mn) \<or> (r = -1 \<and> l = mn) \<Longrightarrow> \<not> l * r \<le> mx"
      using mn by auto
    ultimately show ?thesis using nn neg by auto
  qed
qed

lemma checked_multiply_signed_eq:
  "checked_multiply_signed a b =
     (if fits_signed TYPE('a) (sint a * sint b) then Inr (word_of_int (sint a * sint b))
      else Inl arithmetic_overflow_error)" for a b :: "'a::len word"
proof (cases "sint a = 0 \<or> sint b = 0")
  case True
  then have "checked_multiply_signed a b = Inr 0" and p: "sint a * sint b = 0"
    by (auto simp: checked_multiply_signed_def)
  then show ?thesis
    unfolding p by (simp add: fits_signed_def smin_def smax_def)
next
  case False
  have "smin TYPE('a) = - smax TYPE('a) - 1" "0 \<le> smax TYPE('a)"
    by (simp_all add: smin_def smax_def)
  note guard = checked_multiply_signed_guard [OF this, of "sint a" "sint b"]
  have two_tests: "(if p then x else if q then x else y) = (if p \<or> q then x else y)"
    for p q and x y :: "'a word Result"
    by simp
  from False guard show ?thesis
    unfolding checked_multiply_signed_def Let_def fits_signed_def two_tests by simp
qed

lemma checked_range_signed_Inr [simp]:
  "checked_range_signed a n l = Inr u \<longleftrightarrow>
     0 \<le> sint a \<and> 0 \<le> sint n \<and> sint a + sint n \<le> sint l" for a n l :: "'a::len word"
  using sint_bounds [of l] by (auto simp: checked_range_signed_def Let_def)

lemma checked_narrow_Inr:
  "checked_narrow v = Inr (w :: 'to::len word) \<longleftrightarrow> uint w = v"
proof -
  have "checked_narrow v = Inr w \<longleftrightarrow> 0 \<le> v \<and> v < 2 ^ LENGTH('to) \<and> word_of_int v = w"
    by (auto simp: checked_narrow_def)
  also have "\<dots> \<longleftrightarrow> uint w = v"
    using uint_bounded [of w] by (auto simp: word_of_int_inverse)
  finally show ?thesis .
qed

lemma checked_narrow_signed_Inr:
  "checked_narrow_signed v = Inr (w :: 'to::len word) \<longleftrightarrow> sint w = v"
  using sint_bounds [of w] by (auto simp: checked_narrow_signed_def sint_word_of_int_in_range)

lemma checked_multiply_Inr [simp]:
  "checked_multiply a b = Inr c \<longleftrightarrow> unat c = unat a * unat b" for a b c :: "'a::len word"
proof (cases "unat a * unat b < 2 ^ LENGTH('a)")
  case True
  then have "unat (a * b) = unat a * unat b"
    by (simp add: unat_word_ariths)
  with True show ?thesis
    by (auto simp: checked_multiply_eq word_unat_eq_iff)
next
  case False
  with unat_bound [of c] have "unat c \<noteq> unat a * unat b" by linarith
  with False show ?thesis by (simp add: checked_multiply_eq)
qed

lemma fits_signed_result:
  "(if fits_signed TYPE('a) i then Inr (word_of_int i) else Inl e) = (Inr c :: 'a::len word Result)
     \<longleftrightarrow> sint c = i"
  using sint_bounds [of c] by (auto simp: fits_signed_def sint_word_of_int_in_range)

section \<open>Properties\<close>

text \<open>
  the unsigned operations return a value exactly when the mathematical result fits the
  type, and then that value is the mathematical result; a range is accepted exactly when it
  lies within its limit.
\<close>

theorem checked_unsigned_exact:
  fixes a b c n l :: "'a::len word"
  shows "(checked_add a b = Inr c \<longleftrightarrow> unat c = unat a + unat b) \<and>
         (checked_subtract a b = Inr c \<longleftrightarrow> unat b + unat c = unat a) \<and>
         (checked_multiply a b = Inr c \<longleftrightarrow> unat c = unat a * unat b) \<and>
         (checked_range a n l = Inr u \<longleftrightarrow> unat a + unat n \<le> unat l) \<and>
         (checked_narrow v = Inr c \<longleftrightarrow> uint c = v)"
  by (simp add: checked_narrow_Inr)

text \<open>
  the same for the signed operations, two's complement minimum included: each returns
  a value exactly when the mathematical result is representable, and then that result.
\<close>

theorem checked_signed_exact:
  fixes a b c n l :: "'a::len word"
  shows "(checked_add_signed a b = Inr c \<longleftrightarrow> sint c = sint a + sint b) \<and>
         (checked_subtract_signed a b = Inr c \<longleftrightarrow> sint c = sint a - sint b) \<and>
         (checked_multiply_signed a b = Inr c \<longleftrightarrow> sint c = sint a * sint b) \<and>
         (checked_range_signed a n l = Inr u \<longleftrightarrow>
            0 \<le> sint a \<and> 0 \<le> sint n \<and> sint a + sint n \<le> sint l) \<and>
         (checked_narrow_signed v = Inr c \<longleftrightarrow> sint c = v)"
  by (simp only: checked_add_signed_eq checked_subtract_signed_eq checked_multiply_signed_eq
      fits_signed_result checked_range_signed_Inr checked_narrow_signed_Inr)

end
