(* ===== verification/State_Transitions.thy ===== *)
theory State_Transitions
  imports Checked_Arithmetic
begin

text \<open>
  \<open>src/core/contract/laghu/core/state_transitions.hpp\<close>: the rule table with its duplicate
  check, the bounded trace and the two state machines (\<open>TraceEnabled\<close> false and true).
  \<open>State\<close> and \<open>Reason\<close> are type parameters, as in the templates. The span of rules and the
  caller's record storage are lists; the storage keeps its length.
\<close>

section \<open>Rules and the table\<close>

record ('s, 'r) TransitionRule =
  rule_current :: 's
  rule_next :: 's
  rule_reason :: 'r

record ('s, 'r) TransitionRecord =
  rec_sequence :: u64
  rec_current :: 's
  rec_next :: 's
  rec_reason :: 'r

type_synonym ('s, 'r) TransitionTable = "('s, 'r) TransitionRule list"

text \<open>The inner loop of \<open>create\<close>: does a later rule repeat this one?\<close>

primrec duplicate_of :: "('s, 'r) TransitionRule \<Rightarrow> ('s, 'r) TransitionRule list \<Rightarrow> bool" where
  "duplicate_of left [] = False"
| "duplicate_of left (right # rest) =
     (if rule_current left \<noteq> rule_current right then duplicate_of left rest
      else if rule_next left = rule_next right \<and> rule_reason left = rule_reason right then True
      else duplicate_of left rest)"

text \<open>The outer loop.\<close>

primrec has_duplicate_rule :: "('s, 'r) TransitionRule list \<Rightarrow> bool" where
  "has_duplicate_rule [] = False"
| "has_duplicate_rule (left # rest) = (if duplicate_of left rest then True else has_duplicate_rule rest)"

definition table_create :: "('s, 'r) TransitionRule list \<Rightarrow> ('s, 'r) TransitionTable Result" where
  "table_create rules =
     (if rules = [] then Inl (core_error EC_invalid_input ''state transition table must not be empty'')
      else if has_duplicate_rule rules
        then Inl (core_error EC_invalid_input ''state transition table has a duplicate rule'')
      else Inr rules)"

primrec permits :: "('s, 'r) TransitionTable \<Rightarrow> 's \<Rightarrow> 's \<Rightarrow> 'r \<Rightarrow> bool" where
  "permits [] current next reason = False"
| "permits (rule # rules) current next reason =
     (if rule_current rule = current \<and> rule_next rule = next \<and> rule_reason rule = reason then True
      else permits rules current next reason)"

definition table_size :: "('s, 'r) TransitionTable \<Rightarrow> nat" where
  "table_size rules = length rules"

section \<open>The trace\<close>

record ('s, 'r) TransitionTrace =
  tr_records :: "('s, 'r) TransitionRecord list"
  tr_size :: nat
  tr_sequence :: u64

definition trace_init :: "('s, 'r) TransitionRecord list \<Rightarrow> u64 \<Rightarrow> ('s, 'r) TransitionTrace" where
  "trace_init records sequence = \<lparr>tr_records = records, tr_size = 0, tr_sequence = sequence\<rparr>"

definition trace_records :: "('s, 'r) TransitionTrace \<Rightarrow> ('s, 'r) TransitionRecord list" where
  "trace_records t = take (tr_size t) (tr_records t)"

definition trace_append ::
    "('s, 'r) TransitionTrace \<Rightarrow> 's \<Rightarrow> 's \<Rightarrow> 'r \<Rightarrow> unit Result \<times> ('s, 'r) TransitionTrace" where
  "trace_append t current next reason =
     (if tr_size t = length (tr_records t)
        then (Inl (core_error EC_exhaustion ''state transition trace capacity is exhausted''), t)
      else if tr_sequence t = umax
        then (Inl (core_error EC_overflow ''state transition trace sequence overflow''), t)
      else (Inr (),
            t\<lparr>tr_records := (tr_records t)[tr_size t :=
                 \<lparr>rec_sequence = tr_sequence t + 1, rec_current = current, rec_next = next,
                  rec_reason = reason\<rparr>],
              tr_size := tr_size t + 1,
              tr_sequence := tr_sequence t + 1\<rparr>))"

section \<open>The state machines\<close>

definition invalid_transition_error :: Error where
  "invalid_transition_error = core_error EC_invalid_state ''state transition is not permitted''"

text \<open>\<open>StateMachine<State, Reason, false>\<close>: the state is the current value.\<close>

definition transition ::
    "('s, 'r) TransitionTable \<Rightarrow> 's \<Rightarrow> 's \<Rightarrow> 'r \<Rightarrow> unit Result \<times> 's" where
  "transition transitions current next reason =
     (if \<not> permits transitions current next reason then (Inl invalid_transition_error, current)
      else (Inr (), next))"

text \<open>\<open>StateMachine<State, Reason, true>\<close>: the current value and the trace it refers to.\<close>

record ('s, 'r) TracedMachine =
  tm_current :: 's
  tm_trace :: "('s, 'r) TransitionTrace"

definition traced_transition ::
    "('s, 'r) TransitionTable \<Rightarrow> ('s, 'r) TracedMachine \<Rightarrow> 's \<Rightarrow> 'r
       \<Rightarrow> unit Result \<times> ('s, 'r) TracedMachine" where
  "traced_transition transitions m next reason =
     (if \<not> permits transitions (tm_current m) next reason
        then (Inl invalid_transition_error, m)
      else (case trace_append (tm_trace m) (tm_current m) next reason of
              (Inl e, t) \<Rightarrow> (Inl e, m\<lparr>tm_trace := t\<rparr>)
            | (Inr _, t) \<Rightarrow> (Inr (), m\<lparr>tm_trace := t, tm_current := next\<rparr>)))"

text \<open>A client's sequence of requests; failed ones are reported and the machine goes on.\<close>

primrec run_transitions ::
    "('s, 'r) TransitionTable \<Rightarrow> ('s, 'r) TracedMachine \<Rightarrow> ('s \<times> 'r) list \<Rightarrow> ('s, 'r) TracedMachine"
where
  "run_transitions tbl m [] = m"
| "run_transitions tbl m (req # reqs) =
     run_transitions tbl (snd (traced_transition tbl m (fst req) (snd req))) reqs"

section \<open>The table\<close>

lemma duplicate_of_iff: "duplicate_of r rs \<longleftrightarrow> r \<in> set rs" for r :: "('s, 'r) TransitionRule"
  by (induction rs) auto

lemma has_duplicate_rule_iff: "has_duplicate_rule rs \<longleftrightarrow> \<not> distinct rs"
  for rs :: "('s, 'r) TransitionRule list"
  by (induction rs) (auto simp: duplicate_of_iff)

lemma permits_iff:
  "permits rules c n r \<longleftrightarrow> \<lparr>rule_current = c, rule_next = n, rule_reason = r\<rparr> \<in> set rules"
  for rules :: "('s, 'r) TransitionTable"
  by (induction rules) auto

section \<open>The trace records a path\<close>

text \<open>
  The records form a path of the table from \<open>s\<close>, numbered consecutively after \<open>q\<close>.
\<close>

fun trace_path ::
    "('s, 'r) TransitionTable \<Rightarrow> u64 \<Rightarrow> 's \<Rightarrow> ('s, 'r) TransitionRecord list \<Rightarrow> 's \<Rightarrow> bool" where
  "trace_path tbl q s [] e \<longleftrightarrow> s = e"
| "trace_path tbl q s (r # rs) e \<longleftrightarrow>
     rec_sequence r = q + 1 \<and> rec_current r = s \<and> permits tbl s (rec_next r) (rec_reason r) \<and>
     trace_path tbl (q + 1) (rec_next r) rs e"

definition trace_inv ::
    "('s, 'r) TransitionTable \<Rightarrow> u64 \<Rightarrow> 's \<Rightarrow> ('s, 'r) TracedMachine \<Rightarrow> bool" where
  "trace_inv tbl q s m \<longleftrightarrow>
     tr_size (tm_trace m) \<le> length (tr_records (tm_trace m)) \<and>
     unat (tr_sequence (tm_trace m)) = unat q + tr_size (tm_trace m) \<and>
     trace_path tbl q s (trace_records (tm_trace m)) (tm_current m)"

lemma trace_path_snoc:
  "trace_path tbl q s (rs @ [r]) e \<longleftrightarrow>
     (\<exists>m. trace_path tbl q s rs m \<and> rec_sequence r = q + of_nat (length rs) + 1 \<and>
          rec_current r = m \<and> permits tbl m (rec_next r) (rec_reason r) \<and> rec_next r = e)"
  by (induction rs arbitrary: q s) (auto simp: algebra_simps)

lemma trace_inv_init: "trace_inv tbl q s \<lparr>tm_current = s, tm_trace = trace_init storage q\<rparr>"
  by (simp add: trace_inv_def trace_init_def trace_records_def)

lemma trace_append_frame [simp]:
  "length (tr_records (snd (trace_append t c n r))) = length (tr_records t)"
  by (simp add: trace_append_def)

lemma trace_inv_step:
  assumes inv: "trace_inv tbl q s m"
  shows "trace_inv tbl q s (snd (traced_transition tbl m n r))"
proof (cases "permits tbl (tm_current m) n r \<and> tr_size (tm_trace m) \<noteq> length (tr_records (tm_trace m))
    \<and> tr_sequence (tm_trace m) \<noteq> umax")
  case False
  then have "snd (traced_transition tbl m n r) = m"
    by (auto simp: traced_transition_def trace_append_def)
  with inv show ?thesis by simp
next
  case True
  let ?t = "tm_trace m"
  let ?rec = "\<lparr>rec_sequence = tr_sequence ?t + 1, rec_current = tm_current m, rec_next = n,
               rec_reason = r\<rparr>"
  from True inv have less: "tr_size ?t < length (tr_records ?t)"
    by (simp add: trace_inv_def)
  have seq: "tr_sequence ?t = q + of_nat (tr_size ?t)"
  proof -
    have "tr_sequence ?t = of_nat (unat q + tr_size ?t)"
      using inv by (intro eq_of_nat_unat) (simp add: trace_inv_def)
    then show ?thesis by simp
  qed
  have recs: "take (tr_size ?t + 1) ((tr_records ?t)[tr_size ?t := ?rec]) = trace_records ?t @ [?rec]"
    using less by (simp add: trace_records_def take_Suc_conv_app_nth)
  have "unat (tr_sequence ?t + 1) = unat (tr_sequence ?t) + 1"
    using True by (simp add: unat_incr)
  with True inv less recs seq show ?thesis
    by (simp add: traced_transition_def trace_append_def trace_inv_def trace_path_snoc
        trace_records_def)
qed

lemma trace_inv_run:
  "trace_inv tbl q s m \<Longrightarrow> trace_inv tbl q s (run_transitions tbl m reqs)"
  by (induction reqs arbitrary: m) (auto intro: trace_inv_step)

lemma length_records_step:
  "length (tr_records (tm_trace (snd (traced_transition tbl m n r)))) = length (tr_records (tm_trace m))"
  by (auto simp: traced_transition_def trace_append_def)

lemma length_records_run:
  "length (tr_records (tm_trace (run_transitions tbl m reqs))) = length (tr_records (tm_trace m))"
  by (induction reqs arbitrary: m) (simp_all add: length_records_step)

section \<open>Tracing does not change the machine\<close>

text \<open>The untraced machine on the same requests.\<close>

primrec run_untraced :: "('s, 'r) TransitionTable \<Rightarrow> 's \<Rightarrow> ('s \<times> 'r) list \<Rightarrow> 's" where
  "run_untraced tbl s [] = s"
| "run_untraced tbl s (req # reqs) = run_untraced tbl (snd (transition tbl s (fst req) (snd req))) reqs"

definition trace_room :: "nat \<Rightarrow> ('s, 'r) TransitionTrace \<Rightarrow> bool" where
  "trace_room k t \<longleftrightarrow>
     tr_size t + k \<le> length (tr_records t) \<and> unat (tr_sequence t) + k < 2 ^ 64"

lemma traced_step_simulates:
  assumes "trace_room (Suc k) (tm_trace m)"
  shows "tm_current (snd (traced_transition tbl m n r)) = snd (transition tbl (tm_current m) n r)"
    and "fst (traced_transition tbl m n r) = fst (transition tbl (tm_current m) n r)"
    and "trace_room k (tm_trace (snd (traced_transition tbl m n r)))"
proof -
  have room: "tr_size (tm_trace m) \<noteq> length (tr_records (tm_trace m))"
    using assms by (simp add: trace_room_def)
  have seq: "tr_sequence (tm_trace m) \<noteq> umax"
    using assms umax_unat [where 'a = 64] by (auto simp: trace_room_def)
  have "unat (tr_sequence (tm_trace m) + 1) = unat (tr_sequence (tm_trace m)) + 1"
    using seq by (simp add: unat_incr)
  with assms room seq
  show "tm_current (snd (traced_transition tbl m n r)) = snd (transition tbl (tm_current m) n r)"
    and "fst (traced_transition tbl m n r) = fst (transition tbl (tm_current m) n r)"
    and "trace_room k (tm_trace (snd (traced_transition tbl m n r)))"
    by (auto simp: traced_transition_def transition_def trace_append_def trace_room_def)
qed

lemma traced_run_simulates:
  "trace_room (length reqs) (tm_trace m) \<Longrightarrow>
   tm_current (run_transitions tbl m reqs) = run_untraced tbl (tm_current m) reqs"
  by (induction reqs arbitrary: m) (auto simp: traced_step_simulates)

section \<open>Properties\<close>

text \<open>
  a rule table is accepted exactly when it is non-empty and holds no rule twice, and it
  permits a transition exactly when that triple is one of its rules.
\<close>

theorem table_create_permits:
  "(table_create rules = Inr tbl \<longleftrightarrow> rules \<noteq> [] \<and> distinct rules \<and> tbl = rules) \<and>
   (permits rules c n r \<longleftrightarrow> \<lparr>rule_current = c, rule_next = n, rule_reason = r\<rparr> \<in> set rules)"
  for rules :: "('s, 'r) TransitionTable"
  by (auto simp: table_create_def has_duplicate_rule_iff permits_iff)

text \<open>
  C39: whatever a client requests of a traced machine, its trace is a path of permitted
  transitions from the initial to the current state, numbered consecutively from the start
  sequence without wrap-around, and it never outgrows the storage it was given.
\<close>

theorem traced_machine_trace_is_path:
  "let m = run_transitions tbl \<lparr>tm_current = s, tm_trace = trace_init storage q\<rparr> reqs in
     trace_path tbl q s (trace_records (tm_trace m)) (tm_current m) \<and>
     length (trace_records (tm_trace m)) \<le> length storage \<and>
     unat (tr_sequence (tm_trace m)) = unat q + length (trace_records (tm_trace m))"
  for tbl :: "('s, 'r) TransitionTable"
proof -
  define m where "m = run_transitions tbl \<lparr>tm_current = s, tm_trace = trace_init storage q\<rparr> reqs"
  have "trace_inv tbl q s m"
    unfolding m_def by (rule trace_inv_run [OF trace_inv_init])
  moreover have "length (tr_records (tm_trace m)) = length storage"
    by (simp add: m_def length_records_run trace_init_def)
  ultimately show ?thesis
    unfolding m_def [symmetric] by (simp add: trace_inv_def trace_records_def min_def)
qed

text \<open>
  a refused request leaves the traced machine and its trace exactly as they were; an
  accepted one was permitted by the table, moves to the requested state and records one
  entry.
\<close>

theorem traced_transition_atomic:
  fixes tbl :: "('s, 'r) TransitionTable"
  shows "case traced_transition tbl m n r of
           (Inl e, m') \<Rightarrow> m' = m
         | (Inr _, m') \<Rightarrow> permits tbl (tm_current m) n r \<and> tm_current m' = n \<and>
             tr_size (tm_trace m') = tr_size (tm_trace m) + 1"
  by (simp add: traced_transition_def trace_append_def)

text \<open>
  with room in the trace for every request, the traced machine and the untraced machine
  end in the same state on every sequence of requests.
\<close>

theorem traced_refines_untraced:
  assumes "length reqs \<le> length storage" and "unat q + length reqs < 2 ^ 64"
  shows "tm_current (run_transitions tbl \<lparr>tm_current = s, tm_trace = trace_init storage q\<rparr> reqs)
           = run_untraced tbl s reqs"
  by (subst traced_run_simulates) (use assms in \<open>simp_all add: trace_room_def trace_init_def\<close>)

theorem traced_refines_untraced_witness:
  "let tbl = [\<lparr>rule_current = 0, rule_next = 1, rule_reason = True\<rparr>];
       slot = \<lparr>rec_sequence = 0, rec_current = 0, rec_next = 0, rec_reason = False\<rparr>;
       reqs = [(1, True), (0, True)] in
     tm_current (run_transitions tbl \<lparr>tm_current = 0, tm_trace = trace_init [slot, slot] 7\<rparr> reqs)
       = run_untraced tbl 0 reqs \<and> run_untraced tbl 0 reqs = (1 :: nat)"
  unfolding Let_def
  by (subst traced_refines_untraced) (simp_all add: transition_def)

end
