(* ===== verification/Views.thy ===== *)
theory Views
  imports Checked_Arithmetic
begin

text \<open>
  \<open>src/core/contract/laghu/core/views.hpp\<close>: the borrowed views \<open>ByteView\<close>, \<open>MutableByteView\<close>
  and \<open>TextView\<close>, and the owned \<open>StaticCString\<close>. A view is a pointer and a size; what it
  shows is read from an explicit memory. The four slicing operations of the core share one
  contract, the locale \<open>slicing\<close>, which also carries what follows for chains of slices.
\<close>

section \<open>Spans and views\<close>

text \<open>\<open>std::span\<close> and \<open>std::string_view\<close>: an address and a number of elements of one byte.\<close>

record span =
  sp_data :: addr
  sp_size :: size_t

type_synonym ByteView = span
type_synonym MutableByteView = span
type_synonym TextView = span

definition empty_span :: span where
  "empty_span = \<lparr>sp_data = nullptr, sp_size = 0\<rparr>"

definition subspan :: "span \<Rightarrow> size_t \<Rightarrow> size_t \<Rightarrow> span" where
  "subspan s offset len = \<lparr>sp_data = sp_data s + unat offset, sp_size = len\<rparr>"

text \<open>\<open>string_view::substr\<close> cuts the length at the end of the text.\<close>

definition substr :: "span \<Rightarrow> size_t \<Rightarrow> size_t \<Rightarrow> span" where
  "substr s pos n = \<lparr>sp_data = sp_data s + unat pos, sp_size = min n (sp_size s - pos)\<rparr>"

definition span_bytes :: "memory \<Rightarrow> span \<Rightarrow> byte list" where
  "span_bytes m s = map m [sp_data s ..< sp_data s + unat (sp_size s)]"

definition byte_view_from :: "span \<Rightarrow> ByteView Result" where
  "byte_view_from bytes =
     (if sp_data bytes = nullptr \<and> sp_size bytes \<noteq> 0
        then Inl (core_error EC_invalid_input ''byte view requires non-null data'')
      else Inr bytes)"

definition byte_view_slice :: "ByteView \<Rightarrow> size_t \<Rightarrow> size_t \<Rightarrow> ByteView Result" where
  "byte_view_slice v offset len =
     (case checked_range offset len (sp_size v) of
        Inl e \<Rightarrow> Inl e
      | Inr _ \<Rightarrow> Inr (subspan v offset len))"

definition mutable_byte_view_from :: "span \<Rightarrow> MutableByteView Result" where
  "mutable_byte_view_from bytes =
     (if sp_data bytes = nullptr \<and> sp_size bytes \<noteq> 0
        then Inl (core_error EC_invalid_input ''mutable byte view requires non-null data'')
      else Inr bytes)"

definition as_const :: "MutableByteView \<Rightarrow> ByteView" where
  "as_const v = v"

definition mutable_byte_view_slice ::
    "MutableByteView \<Rightarrow> size_t \<Rightarrow> size_t \<Rightarrow> MutableByteView Result" where
  "mutable_byte_view_slice v offset len =
     (case checked_range offset len (sp_size v) of
        Inl e \<Rightarrow> Inl e
      | Inr _ \<Rightarrow> Inr (subspan v offset len))"

section \<open>Static C strings\<close>

record StaticCString =
  cs_storage :: "byte list"
  cs_size :: size_t

definition static_c_string :: "nat \<Rightarrow> StaticCString" where
  "static_c_string capacity = \<lparr>cs_storage = replicate capacity 0, cs_size = 0\<rparr>"

definition c_string_capacity :: "nat \<Rightarrow> nat" where
  "c_string_capacity capacity = capacity - 1"

definition c_string_view :: "StaticCString \<Rightarrow> byte list" where
  "c_string_view s = take (unat (cs_size s)) (cs_storage s)"

text \<open>What a C function sees through \<open>c_str()\<close>: the bytes before the first NUL.\<close>

definition c_str :: "StaticCString \<Rightarrow> byte list" where
  "c_str s = takeWhile (\<lambda>b. b \<noteq> 0) (cs_storage s)"

definition cleanse :: "StaticCString \<Rightarrow> StaticCString" where
  "cleanse s =
     s\<lparr>cs_storage := write_at (cs_storage s) 0 (replicate (length (cs_storage s)) 0),
       cs_size := 0\<rparr>"

section \<open>Text views\<close>

definition text_view_from :: "addr \<Rightarrow> size_t \<Rightarrow> TextView Result" where
  "text_view_from data n =
     (if data = nullptr \<and> n \<noteq> 0
        then Inl (core_error EC_invalid_input ''text view requires non-null data'')
      else if n = 0 then Inr empty_span
      else Inr \<lparr>sp_data = data, sp_size = n\<rparr>)"

definition text_view_slice :: "TextView \<Rightarrow> size_t \<Rightarrow> size_t \<Rightarrow> TextView Result" where
  "text_view_slice v offset len =
     (case checked_range offset len (sp_size v) of
        Inl e \<Rightarrow> Inl e
      | Inr _ \<Rightarrow> Inr (substr v offset len))"

primrec contains_nul_in :: "byte list \<Rightarrow> bool" where
  "contains_nul_in [] = False"
| "contains_nul_in (character # rest) = (if character = 0 then True else contains_nul_in rest)"

definition contains_nul :: "memory \<Rightarrow> TextView \<Rightarrow> bool" where
  "contains_nul m v = contains_nul_in (span_bytes m v)"

definition to_c_string :: "nat \<Rightarrow> memory \<Rightarrow> TextView \<Rightarrow> StaticCString Result" where
  "to_c_string capacity m v =
     (if contains_nul m v then Inl (core_error EC_invalid_input ''text contains an embedded NUL'')
      else if unat (sp_size v) \<ge> capacity
        then Inl (core_error EC_invalid_range ''text does not fit including terminator'')
      else Inr ((static_c_string capacity)
                  \<lparr>cs_storage := write_at (cs_storage (static_c_string capacity)) 0 (span_bytes m v),
                   cs_size := sp_size v\<rparr>))"

section \<open>The slicing contract\<close>

text \<open>
  A client of any view relies on three laws: a slice exists exactly when it lies within the
  view, it starts where asked, and it has the size asked for.
\<close>

locale slicing =
  fixes start :: "'v \<Rightarrow> addr"
    and extent :: "'v \<Rightarrow> size_t"
    and vslice :: "'v \<Rightarrow> size_t \<Rightarrow> size_t \<Rightarrow> 'v Result"
  assumes slice_ok: "unat off + unat n \<le> unat (extent v) \<Longrightarrow> \<exists>s. vslice v off n = Inr s"
    and slice_within: "vslice v off n = Inr s \<Longrightarrow> unat off + unat n \<le> unat (extent v)"
    and slice_start: "vslice v off n = Inr s \<Longrightarrow> start s = start v + unat off"
    and slice_extent: "vslice v off n = Inr s \<Longrightarrow> extent s = n"
begin

lemma slice_iff: "(\<exists>s. vslice v off n = Inr s) \<longleftrightarrow> unat off + unat n \<le> unat (extent v)"
  using slice_ok slice_within by blast

lemma slice_region:
  assumes "vslice v off n = Inr s"
  shows "{start s ..< start s + unat (extent s)} \<subseteq> {start v ..< start v + unat (extent v)}"
  using slice_within [OF assms] slice_start [OF assms] slice_extent [OF assms] by auto

lemma slice_bytes:
  assumes "vslice v off n = Inr s"
  shows "map m [start s ..< start s + unat (extent s)]
           = take (unat n) (drop (unat off) (map m [start v ..< start v + unat (extent v)]))"
  using slice_within [OF assms] slice_start [OF assms] slice_extent [OF assms]
  by (simp add: take_map drop_map add.commute add.left_commute)

lemma slice_slice:
  assumes s: "vslice v off n = Inr s" and t: "vslice s off' n' = Inr t"
  shows "\<exists>u. vslice v (off + off') n' = Inr u \<and> start u = start t \<and> extent u = extent t"
proof -
  have "unat off + unat n \<le> unat (extent v)" "unat off' + unat n' \<le> unat n"
    using slice_within [OF s] slice_within [OF t] slice_extent [OF s] by simp_all
  moreover have "unat (extent v) < 2 ^ 64" using unat_bound [of "extent v"] by simp
  ultimately have sum: "unat (off + off') = unat off + unat off'"
    by (intro unat_add_no_wrap) simp
  with \<open>unat off + _ \<le> _\<close> \<open>unat off' + _ \<le> _\<close>
  obtain u where u: "vslice v (off + off') n' = Inr u"
    using slice_ok [of "off + off'" n' v] by auto
  show ?thesis
    using u slice_start [OF u] slice_extent [OF u] slice_start [OF s] slice_start [OF t]
      slice_extent [OF t] sum by simp
qed

end

text \<open>Any chain of slices stays within the first view.\<close>

fun slice_chain :: "('v \<Rightarrow> size_t \<Rightarrow> size_t \<Rightarrow> 'v Result) \<Rightarrow> 'v \<Rightarrow> (size_t \<times> size_t) list \<Rightarrow> 'v Result" where
  "slice_chain vslice v [] = Inr v"
| "slice_chain vslice v ((off, n) # rest) =
     (case vslice v off n of Inl e \<Rightarrow> Inl e | Inr s \<Rightarrow> slice_chain vslice s rest)"

context slicing
begin

lemma slice_chain_region:
  "slice_chain vslice v offs = Inr s \<Longrightarrow>
   {start s ..< start s + unat (extent s)} \<subseteq> {start v ..< start v + unat (extent v)}"
proof (induction offs arbitrary: v)
  case Nil
  then show ?case by simp
next
  case (Cons p offs)
  obtain off n where p: "p = (off, n)" by (cases p)
  with Cons.prems obtain u where u: "vslice v off n = Inr u" and "slice_chain vslice u offs = Inr s"
    by (auto split: sum.splits)
  then show ?case
    using Cons.IH slice_region [OF u] by blast
qed

end

section \<open>The views satisfy the contract\<close>

lemma range_slice_Inr:
  "(case checked_range off n l of Inl e \<Rightarrow> Inl e | Inr _ \<Rightarrow> Inr x) = (Inr s :: 'v Result)
     \<longleftrightarrow> unat off + unat n \<le> unat l \<and> s = x" for off n l :: "'a::len word"
proof (cases "checked_range off n l")
  case (Inl e)
  then have "\<not> unat off + unat n \<le> unat l"
    using checked_range_Inr [of off n l "()"] by auto
  with Inl show ?thesis by simp
next
  case (Inr u)
  then have "unat off + unat n \<le> unat l" by simp
  then show ?thesis unfolding Inr by auto
qed

interpretation bv: slicing sp_data sp_size byte_view_slice
  by unfold_locales (auto simp: byte_view_slice_def range_slice_Inr subspan_def)

interpretation mbv: slicing sp_data sp_size mutable_byte_view_slice
  by unfold_locales (auto simp: mutable_byte_view_slice_def range_slice_Inr subspan_def)

lemma substr_in_range:
  assumes "unat off + unat n \<le> unat (sp_size v)"
  shows "substr v off n = subspan v off n"
proof -
  have "off \<le> sp_size v" using assms by (simp add: word_le_nat_alt)
  then have "n \<le> sp_size v - off" using assms by (simp add: word_bounds)
  then show ?thesis by (simp add: substr_def subspan_def min_def)
qed

interpretation tv: slicing sp_data sp_size text_view_slice
  by unfold_locales
    (auto simp: text_view_slice_def range_slice_Inr substr_in_range, auto simp: subspan_def)

section \<open>Text and C strings\<close>

lemma length_span_bytes [simp]: "length (span_bytes m s) = unat (sp_size s)"
  by (simp add: span_bytes_def)

lemma contains_nul_in_iff: "contains_nul_in bs \<longleftrightarrow> 0 \<in> set bs"
  by (induction bs) auto

definition c_string_wf :: "nat \<Rightarrow> StaticCString \<Rightarrow> bool" where
  "c_string_wf capacity s \<longleftrightarrow>
     length (cs_storage s) = capacity \<and> unat (cs_size s) < capacity \<and>
     0 \<notin> set (take (unat (cs_size s)) (cs_storage s)) \<and>
     drop (unat (cs_size s)) (cs_storage s) = replicate (capacity - unat (cs_size s)) 0"

lemma c_str_wf:
  assumes wf: "c_string_wf capacity s"
  shows "c_str s = c_string_view s"
proof -
  let ?n = "unat (cs_size s)"
  have split: "cs_storage s = take ?n (cs_storage s) @ replicate (capacity - ?n) 0"
    using wf by (metis append_take_drop_id c_string_wf_def)
  have "0 < capacity - ?n" using wf by (simp add: c_string_wf_def)
  then have "takeWhile (\<lambda>b. b \<noteq> 0) (replicate (capacity - ?n) (0 :: byte)) = []"
    by (cases "capacity - ?n") simp_all
  moreover have "takeWhile (\<lambda>b. b \<noteq> 0) (take ?n (cs_storage s) @ xs)
      = take ?n (cs_storage s) @ takeWhile (\<lambda>b. b \<noteq> 0) xs" for xs
    using wf by (intro takeWhile_append2) (auto simp: c_string_wf_def)
  ultimately have "takeWhile (\<lambda>b. b \<noteq> 0) (cs_storage s) = take ?n (cs_storage s)"
    by (subst split) simp
  then show ?thesis by (simp add: c_str_def c_string_view_def)
qed

lemma to_c_string_Inr:
  assumes "to_c_string capacity m v = Inr s"
  shows "c_string_wf capacity s" and "c_string_view s = span_bytes m v"
proof -
  from assms have nul: "0 \<notin> set (span_bytes m v)" and size: "unat (sp_size v) < capacity"
    and s: "s = \<lparr>cs_storage = write_at (replicate capacity 0) 0 (span_bytes m v), cs_size = sp_size v\<rparr>"
    by (auto simp: to_c_string_def contains_nul_def contains_nul_in_iff static_c_string_def
        split: if_splits)
  have "write_at (replicate capacity 0) 0 (span_bytes m v)
      = span_bytes m v @ replicate (capacity - unat (sp_size v)) 0"
    using size by (subst write_at_0) simp_all
  then show "c_string_wf capacity s" and "c_string_view s = span_bytes m v"
    using nul size by (simp_all add: s c_string_wf_def c_string_view_def)
qed

section \<open>Properties\<close>

text \<open>
  slicing a byte view succeeds exactly when the slice lies within the view, shows exactly
  those bytes, and no chain of slices ever reaches memory outside the first view.
\<close>

theorem byte_view_slice_contained:
  "((\<exists>s. byte_view_slice v off n = Inr s) \<longleftrightarrow> unat off + unat n \<le> unat (sp_size v)) \<and>
   (\<forall>s. byte_view_slice v off n = Inr s \<longrightarrow>
      span_bytes m s = take (unat n) (drop (unat off) (span_bytes m v))) \<and>
   (\<forall>offs s. slice_chain byte_view_slice v offs = Inr s \<longrightarrow>
      {sp_data s ..< sp_data s + unat (sp_size s)} \<subseteq> {sp_data v ..< sp_data v + unat (sp_size v)})"
  unfolding span_bytes_def
  using bv.slice_iff [of v off n] bv.slice_bytes [of v off n _ m] bv.slice_chain_region [of v]
  by auto

theorem byte_view_slice_contained_witness:
  "let v = \<lparr>sp_data = 100, sp_size = 10\<rparr>; s = \<lparr>sp_data = 103, sp_size = 4\<rparr> in
     byte_view_slice v 3 4 = Inr s \<and>
     span_bytes (\<lambda>a. of_nat a) s = take 4 (drop 3 (span_bytes (\<lambda>a. of_nat a) v)) \<and>
     slice_chain byte_view_slice v [(1, 9), (2, 4)] = Inr s \<and>
     {103 ..< 107} \<subseteq> {100 ..< 110 :: nat}"
proof -
  define v where "v = \<lparr>sp_data = 100, sp_size = 10 :: size_t\<rparr>"
  define s where "s = \<lparr>sp_data = 103, sp_size = 4 :: size_t\<rparr>"
  have 1: "byte_view_slice v 3 4 = Inr s" and 2: "slice_chain byte_view_slice v [(1, 9), (2, 4)] = Inr s"
    by (simp_all add: v_def s_def byte_view_slice_def checked_range_def subspan_def)
  have "span_bytes (\<lambda>a. of_nat a) s = take 4 (drop 3 (span_bytes (\<lambda>a. of_nat a) v))"
    using byte_view_slice_contained [of v 3 4 "\<lambda>a. of_nat a"] 1 by simp
  moreover have "{103 ..< 107} \<subseteq> {100 ..< 110 :: nat}"
    using byte_view_slice_contained [of v 3 4] 2 by (force simp: v_def s_def)
  ultimately show ?thesis
    using 1 2 by (simp add: v_def s_def)
qed

text \<open>
  converting a text to a C string succeeds exactly when the text has no NUL and leaves
  room for the terminator; the C function then reads back exactly the text, and cleansing
  leaves only zero bytes.
\<close>

theorem to_c_string_roundtrip:
  "((\<exists>s. to_c_string capacity m v = Inr s) \<longleftrightarrow>
      0 \<notin> set (span_bytes m v) \<and> unat (sp_size v) < capacity) \<and>
   (\<forall>s. to_c_string capacity m v = Inr s \<longrightarrow>
      c_str s = span_bytes m v \<and>
      cs_storage (cleanse s) = replicate capacity 0 \<and> cs_size (cleanse s) = 0)"
proof -
  have "cs_storage (cleanse s) = replicate capacity 0" if "c_string_wf capacity s" for s
    using that by (simp add: cleanse_def write_at_0 c_string_wf_def)
  then show ?thesis
    using to_c_string_Inr [of capacity m v] c_str_wf [of capacity]
    by (auto simp: to_c_string_def contains_nul_def contains_nul_in_iff cleanse_def)
qed

theorem to_c_string_roundtrip_witness:
  "\<exists>s. to_c_string 4 (\<lambda>a. 65) \<lparr>sp_data = 8, sp_size = 3\<rparr> = Inr s \<and> c_str s = [65, 65, 65]"
proof -
  have bytes: "span_bytes (\<lambda>a. 65) \<lparr>sp_data = 8, sp_size = 3\<rparr> = [65, 65, 65]"
    by (simp add: span_bytes_def)
  show ?thesis
    using to_c_string_roundtrip [of 4 "\<lambda>a. 65" "\<lparr>sp_data = 8, sp_size = 3\<rparr>"] bytes by auto
qed

end
