(* ===== verification/Shared_Offsets.thy ===== *)
theory Shared_Offsets
  imports Views
begin

unbundle bit_operations_syntax

text \<open>
  \<open>src/core/contract/laghu/core/shared_offsets.hpp\<close>: the big-endian codec for fixed-width
  unsigned integers and the typed offsets into a mapping. \<open>T\<close> is an \<open>'a word\<close> whose width is
  a multiple of eight; a byte view is given by the bytes it shows. The locale \<open>fixed_codec\<close>
  states what clients of a fixed-width codec rely on.
\<close>

section \<open>The big-endian codec\<close>

definition size_of :: "'a::len itself \<Rightarrow> nat" where
  "size_of _ = LENGTH('a) div 8"

definition encode_big_endian :: "'a::len word \<Rightarrow> byte list" where
  "encode_big_endian v =
     (let n = size_of TYPE('a)
      in map (\<lambda>index. ucast (drop_bit ((n - 1 - index) * 8) v)) [0..<n])"

definition decode_step :: "'a::len word \<Rightarrow> byte \<Rightarrow> 'a word" where
  "decode_step v b = push_bit 8 v OR ucast b"

definition decode_big_endian :: "byte list \<Rightarrow> 'a::len word Result" where
  "decode_big_endian encoded =
     (if length encoded \<noteq> size_of TYPE('a)
        then Inl (core_error EC_invalid_range ''big-endian value has an invalid encoded size'')
      else Inr (foldl decode_step 0 encoded))"

section \<open>Shared offsets\<close>

record SharedOffset =
  so_value :: u64

definition from_raw :: "u64 \<Rightarrow> SharedOffset" where
  "from_raw v = \<lparr>so_value = v\<rparr>"

definition is_null :: "SharedOffset \<Rightarrow> bool" where
  "is_null o' \<longleftrightarrow> so_value o' = 0"

text \<open>
  \<open>resolve<T>\<close> for an object of \<open>sz\<close> bytes with alignment \<open>al\<close>; the result is a pointer.
  The read-only and the mutable overload have the same body.
\<close>

definition resolve :: "size_t \<Rightarrow> nat \<Rightarrow> SharedOffset \<Rightarrow> ByteView \<Rightarrow> addr Result" where
  "resolve sz al o' mapping =
     (if is_null o' then Inr nullptr
      else (case checked_narrow (uint (so_value o')) of
              Inl e \<Rightarrow> Inl e
            | Inr offset \<Rightarrow>
                (case checked_range offset sz (sp_size mapping) of
                   Inl e \<Rightarrow> Inl e
                 | Inr _ \<Rightarrow>
                     let resolved = sp_data (subspan mapping offset sz) in
                     if resolved mod al \<noteq> 0
                       then Inl (core_error EC_invalid_range
                                   ''shared offset does not meet mapped object alignment'')
                     else Inr resolved)))"

section \<open>What a client of a fixed-width codec relies on\<close>

locale fixed_codec =
  fixes enc :: "'a \<Rightarrow> byte list"
    and dec :: "byte list \<Rightarrow> 'a Result"
    and width :: nat
    and valid :: "'a \<Rightarrow> bool"
  assumes length_enc: "length (enc x) = width"
    and dec_enc: "valid x \<Longrightarrow> dec (enc x) = Inr x"
    and dec_valid: "dec bs = Inr x \<Longrightarrow> valid x"
    and enc_dec: "dec bs = Inr x \<Longrightarrow> enc x = bs"
begin

lemma dec_iff: "dec bs = Inr x \<longleftrightarrow> valid x \<and> bs = enc x"
  using dec_enc dec_valid enc_dec by blast

lemma enc_inject: "valid x \<Longrightarrow> valid y \<Longrightarrow> enc x = enc y \<longleftrightarrow> x = y"
  by (metis dec_enc sum.inject(2))

lemma dec_inject: "dec bs = Inr x \<Longrightarrow> dec bs' = Inr x \<Longrightarrow> bs = bs'"
  using enc_dec by blast

lemma dec_length: "dec bs = Inr x \<Longrightarrow> length bs = width"
  using enc_dec length_enc by blast

lemma dec_prefix: "valid x \<Longrightarrow> dec (take width (enc x @ rest)) = Inr x"
  by (simp add: length_enc dec_enc)

end

section \<open>Big-endian digits\<close>

text \<open>The value of a byte sequence read as a base-256 numeral, first byte most significant.\<close>

definition be_value :: "byte list \<Rightarrow> nat" where
  "be_value bs = foldl (\<lambda>v b. v * 256 + unat b) 0 bs"

definition be_digits :: "nat \<Rightarrow> nat \<Rightarrow> nat list" where
  "be_digits k v = map (\<lambda>i. v div 256 ^ (k - 1 - i) mod 256) [0..<k]"

lemma be_value_snoc [simp]: "be_value (bs @ [b]) = be_value bs * 256 + unat b"
  by (simp add: be_value_def)

lemma be_value_Nil [simp]: "be_value [] = 0"
  by (simp add: be_value_def)

lemma be_value_bound: "be_value bs < 256 ^ length bs"
proof (induction bs rule: rev_induct)
  case Nil
  then show ?case by simp
next
  case (snoc b bs)
  have "unat b < 256" using unat_bound [of b] by simp
  with snoc show ?case by simp
qed

lemma be_digits_Suc: "be_digits (Suc k) v = be_digits k (v div 256) @ [v mod 256]"
proof -
  have "v div 256 ^ (Suc k - 1 - i) = v div 256 div 256 ^ (k - 1 - i)" if "i < k" for i
  proof -
    from that have "Suc k - 1 - i = Suc (k - 1 - i)" by simp
    then show ?thesis by (simp add: div_mult2_eq)
  qed
  then show ?thesis by (auto simp: be_digits_def)
qed

lemma be_digits_be_value: "be_digits (length bs) (be_value bs) = map unat bs"
proof (induction bs rule: rev_induct)
  case Nil
  then show ?case by (simp add: be_digits_def)
next
  case (snoc b bs)
  have "unat b < 256" using unat_bound [of b] by simp
  with snoc show ?case by (simp add: be_digits_Suc)
qed

lemma be_value_be_digits: "v < 256 ^ k \<Longrightarrow> be_value (map of_nat (be_digits k v)) = v"
proof (induction k arbitrary: v)
  case 0
  then show ?case by (simp add: be_digits_def)
next
  case (Suc k)
  then have "v div 256 < 256 ^ k" by (simp add: less_mult_imp_div_less mult.commute)
  then have "be_value (map of_nat (be_digits k (v div 256))) = v div 256" by (rule Suc.IH)
  moreover have "unat (of_nat (v mod 256) :: byte) = v mod 256"
    by (simp add: unat_of_nat)
  ultimately show ?case by (simp add: be_digits_Suc)
qed

section \<open>The codec computes them\<close>

lemma exp_bytes: "8 dvd LENGTH('a) \<Longrightarrow> (2::nat) ^ LENGTH('a::len) = 256 ^ size_of TYPE('a)"
proof -
  assume "8 dvd LENGTH('a)"
  then have "LENGTH('a) = 8 * size_of TYPE('a)" by (simp add: size_of_def)
  then have "(2::nat) ^ LENGTH('a) = (2 ^ 8) ^ size_of TYPE('a)"
    by (metis power_mult)
  then show ?thesis by simp
qed

lemma encode_big_endian_eq:
  "encode_big_endian v = map of_nat (be_digits (size_of TYPE('a)) (unat v))" for v :: "'a::len word"
proof -
  have "ucast (drop_bit (k * 8) v) = (of_nat (unat v div 256 ^ k mod 256) :: byte)" for k
  proof -
    have "(2::nat) ^ (k * 8) = 256 ^ k"
      using power_mult [of "2::nat" 8 k] by (simp add: mult.commute)
    then have "unat (drop_bit (k * 8) v) = unat v div 256 ^ k"
      unfolding unat_drop_bit_eq by (simp only: drop_bit_eq_div)
    then have "unat (ucast (drop_bit (k * 8) v) :: byte) = unat v div 256 ^ k mod 256"
      by (simp add: unsigned_ucast_eq take_bit_eq_mod)
    then show ?thesis by (rule eq_of_nat_unat)
  qed
  then show ?thesis
    by (simp add: encode_big_endian_def be_digits_def Let_def)
qed

lemma length_encode_big_endian [simp]:
  "length (encode_big_endian v) = size_of TYPE('a)" for v :: "'a::len word"
  by (simp add: encode_big_endian_def Let_def)

lemma decode_step_unat:
  fixes v :: "'a::len word"
  assumes fits: "unat v * 256 + unat b < 2 ^ LENGTH('a)"
  shows "unat (decode_step v b) = unat v * 256 + unat b"
proof -
  have "push_bit 8 v AND ucast b = 0"
    by (rule bit_eqI) (auto simp: bit_simps dest!: bit_imp_le_length)
  then have "decode_step v b = push_bit 8 v + ucast b"
    by (simp add: decode_step_def disjunctive_add_eq_or)
  moreover have "unat (push_bit 8 v) = unat v * 256"
    using fits unfolding unsigned_push_bit_eq by (simp add: take_bit_eq_mod push_bit_eq_mult)
  moreover have "unat (ucast b :: 'a word) = unat b"
    using fits by (simp add: unsigned_ucast_eq take_bit_nat_eq_self)
  ultimately show ?thesis
    using fits by (simp add: unat_add_no_wrap)
qed

lemma decode_foldl_unat:
  assumes "8 dvd LENGTH('a)" and "length bs \<le> size_of TYPE('a)"
  shows "unat (foldl decode_step 0 bs :: 'a::len word) = be_value bs"
  using assms(2)
proof (induction bs rule: rev_induct)
  case Nil
  then show ?case by simp
next
  case (snoc b bs)
  then have IH: "unat (foldl decode_step 0 bs :: 'a word) = be_value bs" by simp
  have "be_value (bs @ [b]) < 256 ^ length (bs @ [b])" by (rule be_value_bound)
  also have "\<dots> \<le> 256 ^ size_of TYPE('a)"
    using snoc.prems by (intro power_increasing) simp_all
  also have "\<dots> = 2 ^ LENGTH('a)" using assms(1) by (simp add: exp_bytes)
  finally have "be_value bs * 256 + unat b < 2 ^ LENGTH('a)" by simp
  then show ?case by (simp add: decode_step_unat IH)
qed

lemma decode_encode_big_endian:
  assumes "8 dvd LENGTH('a)"
  shows "decode_big_endian (encode_big_endian v) = Inr (v :: 'a::len word)"
proof -
  have "unat v < 256 ^ size_of TYPE('a)"
    using unat_bound [of v] assms by (simp add: exp_bytes)
  then have "unat (foldl decode_step 0 (encode_big_endian v) :: 'a word) = unat v"
    using assms by (simp add: decode_foldl_unat) (simp add: encode_big_endian_eq be_value_be_digits)
  then show ?thesis by (simp add: decode_big_endian_def word_unat_eq_iff)
qed

lemma encode_decode_big_endian:
  assumes "8 dvd LENGTH('a)" and "decode_big_endian bs = Inr (v :: 'a::len word)"
  shows "encode_big_endian v = bs"
proof -
  from assms(2) have len: "length bs = size_of TYPE('a)" and v: "v = foldl decode_step 0 bs"
    by (auto simp: decode_big_endian_def split: if_splits)
  have "unat v = be_value bs" using assms(1) len by (simp add: v decode_foldl_unat)
  then have "encode_big_endian v = map of_nat (map unat bs)"
    using be_digits_be_value [of bs] by (simp add: encode_big_endian_eq len)
  then show ?thesis by (simp add: o_def)
qed

lemma fixed_codec_big_endian:
  assumes "8 dvd LENGTH('a)"
  shows "fixed_codec (encode_big_endian :: 'a::len word \<Rightarrow> byte list) decode_big_endian
           (size_of TYPE('a)) (\<lambda>_. True)"
  by unfold_locales
    (simp_all add: decode_encode_big_endian [OF assms] encode_decode_big_endian [OF assms])

interpretation be16: fixed_codec "encode_big_endian :: u16 \<Rightarrow> byte list" decode_big_endian
    "size_of TYPE(16)" "\<lambda>_. True"
  by (rule fixed_codec_big_endian) simp

interpretation be32: fixed_codec "encode_big_endian :: u32 \<Rightarrow> byte list" decode_big_endian
    "size_of TYPE(32)" "\<lambda>_. True"
  by (rule fixed_codec_big_endian) simp

interpretation be64: fixed_codec "encode_big_endian :: u64 \<Rightarrow> byte list" decode_big_endian
    "size_of TYPE(64)" "\<lambda>_. True"
  by (rule fixed_codec_big_endian) simp

lemma size_of_simps [simp]:
  "size_of TYPE(16) = 2" "size_of TYPE(32) = 4" "size_of TYPE(64) = 8"
  by (simp_all add: size_of_def)

section \<open>Properties\<close>

text \<open>
  the big-endian codec of every admitted width is a bijection between values and byte
  sequences of that width: decoding an encoding gives the value back, and a sequence decodes
  to a value exactly when it is that value's encoding (so any other size is refused). The
  first byte is the most significant.
\<close>

theorem big_endian_bijective:
  fixes v :: u16 and w :: u32 and x :: u64
  shows "(decode_big_endian bs = Inr v \<longleftrightarrow> bs = encode_big_endian v) \<and>
         (decode_big_endian bs = Inr w \<longleftrightarrow> bs = encode_big_endian w) \<and>
         (decode_big_endian bs = Inr x \<longleftrightarrow> bs = encode_big_endian x) \<and>
         encode_big_endian v = map of_nat [unat v div 256, unat v mod 256] \<and>
         length (encode_big_endian w) = 4 \<and> length (encode_big_endian x) = 8"
proof -
  have "unat v div 256 mod 256 = unat v div 256"
    using unat_bound [of v] by simp
  moreover have "[0..<2] = [0, Suc 0]" by (simp add: upt_rec)
  ultimately have "encode_big_endian v = map of_nat [unat v div 256, unat v mod 256]"
    by (simp add: encode_big_endian_eq be_digits_def)
  then show ?thesis
    using be16.dec_iff [of bs v] be32.dec_iff [of bs w] be64.dec_iff [of bs x] by simp
qed

text \<open>
  a resolved shared offset is either null, and then the offset was zero, or points to an
  aligned object that lies entirely within the mapping at exactly the stored offset; every
  other offset is refused.
\<close>

theorem resolve_in_mapping:
  "resolve sz al o' mapping = Inr p \<longleftrightarrow>
     (if so_value o' = 0 then p = nullptr
      else unat (so_value o') + unat sz \<le> unat (sp_size mapping) \<and>
           p = sp_data mapping + unat (so_value o') \<and> p mod al = 0)"
proof -
  have narrow: "checked_narrow (uint w) = Inr w" for w :: u64
    by (simp add: checked_narrow_Inr)
  show ?thesis
  proof (cases "checked_range (so_value o') sz (sp_size mapping)")
    case (Inl e)
    then have "\<not> unat (so_value o') + unat sz \<le> unat (sp_size mapping)"
      using checked_range_Inr [of "so_value o'" sz "sp_size mapping" "()"] by auto
    then show ?thesis
      by (auto simp: resolve_def is_null_def narrow Inl)
  next
    case (Inr u)
    then have "unat (so_value o') + unat sz \<le> unat (sp_size mapping)" by simp
    then show ?thesis
      unfolding resolve_def is_null_def narrow sum.case Inr Let_def by (auto simp: subspan_def)
  qed
qed

end
