(* ===== verification/Crc32c.thy ===== *)
theory Crc32c
  imports Views
begin

unbundle bit_operations_syntax

text \<open>
  The CRC-32C of \<open>src/core/contract/laghu/core/binary_envelope.hpp\<close>: the byte and bit loops
  with the branch-free mask, over one or two byte views. The lemmas show that the masked bit
  step is the shift register of the Castagnoli polynomial, that the register is linear and
  injective, and that every change confined to four consecutive bytes changes the checksum.
\<close>

section \<open>Definitions\<close>

definition crc_bit :: "u32 \<Rightarrow> u32" where
  "crc_bit state =
     (let mask = 0 - (state AND 1)
      in drop_bit 1 state XOR (0x82F63B78 AND mask))"

text \<open>The inner loop: eight bit steps.\<close>

definition crc_byte :: "u32 \<Rightarrow> byte \<Rightarrow> u32" where
  "crc_byte state b = (crc_bit ^^ 8) (state XOR ucast b)"

definition crc32c_extend :: "u32 \<Rightarrow> byte list \<Rightarrow> u32" where
  "crc32c_extend state bytes = foldl crc_byte state bytes"

definition crc32c_castagnoli :: "byte list \<Rightarrow> u32" where
  "crc32c_castagnoli bytes = crc32c_extend umax bytes XOR umax"

definition crc32c_castagnoli2 :: "byte list \<Rightarrow> byte list \<Rightarrow> u32" where
  "crc32c_castagnoli2 first second = crc32c_extend (crc32c_extend umax first) second XOR umax"

text \<open>Reference: the shift register with a branch.\<close>

definition crc_bit_ref :: "u32 \<Rightarrow> u32" where
  "crc_bit_ref state =
     (if bit state 0 then drop_bit 1 state XOR 0x82F63B78 else drop_bit 1 state)"

section \<open>The shift register\<close>

lemma crc_bit_eq_ref: "crc_bit state = crc_bit_ref state"
proof -
  have "state AND 1 = (if bit state 0 then 1 else 0)"
    by (simp add: and_one_eq mod2_eq_if bit_0)
  then show ?thesis
    by (simp add: crc_bit_def crc_bit_ref_def)
qed

lemma crc_bit_linear: "crc_bit (x XOR y) = crc_bit x XOR crc_bit y"
  by (auto simp: crc_bit_eq_ref crc_bit_ref_def bit_xor_iff drop_bit_xor ac_simps)

lemma word_xor_eq_0: "x XOR y = 0 \<longleftrightarrow> x = y" for x y :: "'a::len word"
  by (metis xor.assoc xor.left_neutral xor.right_neutral xor_self_eq)

lemma word_xor_left_cancel: "a XOR x = a XOR y \<longleftrightarrow> x = y" for a x y :: "'a::len word"
proof
  have cancel: "a XOR (a XOR z) = z" for z
    by (simp add: xor.assoc [symmetric])
  assume "a XOR x = a XOR y"
  then have "a XOR (a XOR x) = a XOR (a XOR y)" by simp
  then show "x = y" unfolding cancel .
qed simp

lemma crc_bit_eq_0: "crc_bit x = 0 \<longleftrightarrow> x = 0"
proof
  assume zero: "crc_bit x = 0"
  have odd: "\<not> bit x 0"
  proof
    assume "bit x 0"
    then have "drop_bit 1 x = 0x82F63B78"
      using zero by (simp add: crc_bit_eq_ref crc_bit_ref_def word_xor_eq_0)
    moreover have "\<not> bit (drop_bit 1 x) 31"
      using bit_imp_le_length [of x 32] by (auto simp: bit_simps)
    moreover have "bit (0x82F63B78 :: u32) 31" by simp
    ultimately show False by simp
  qed
  then have "drop_bit 1 x = 0"
    using zero by (simp add: crc_bit_eq_ref crc_bit_ref_def)
  then have high: "\<not> bit (drop_bit 1 x) n" for n by simp
  show "x = 0"
  proof (rule bit_word_eqI)
    fix i
    show "bit x i \<longleftrightarrow> bit 0 i"
      using odd high [of "i - 1"] by (cases i) (simp_all add: bit_simps)
  qed
next
  assume "x = 0"
  then show "crc_bit x = 0" by (simp add: crc_bit_def)
qed

lemma crc_bits_linear: "(crc_bit ^^ n) (x XOR y) = (crc_bit ^^ n) x XOR (crc_bit ^^ n) y"
  by (induction n) (simp_all add: crc_bit_linear)

lemma crc_bits_eq_0: "(crc_bit ^^ n) x = 0 \<longleftrightarrow> x = 0"
  by (induction n) (simp_all add: crc_bit_eq_0)

lemma crc_bits_inject: "(crc_bit ^^ n) x = (crc_bit ^^ n) y \<longleftrightarrow> x = y"
  by (metis crc_bits_eq_0 crc_bits_linear word_xor_eq_0)

text \<open>A register whose low bits are clear only shifts.\<close>

lemma crc_bits_shift:
  "(\<forall>i < n. \<not> bit x i) \<Longrightarrow> (crc_bit ^^ n) x = drop_bit n x"
proof (induction n arbitrary: x)
  case 0
  then show ?case by simp
next
  case (Suc n)
  then have "crc_bit x = drop_bit 1 x"
    by (simp add: crc_bit_eq_ref crc_bit_ref_def)
  moreover have "\<forall>i < n. \<not> bit (drop_bit 1 x) i"
    using Suc.prems by (auto simp: bit_simps)
  ultimately show ?case
    using Suc.IH [of "drop_bit 1 x"] by (simp add: funpow_swap1)
qed

section \<open>Messages\<close>

lemma crc32c_extend_Nil [simp]: "crc32c_extend st [] = st"
  by (simp add: crc32c_extend_def)

lemma crc32c_extend_Cons [simp]: "crc32c_extend st (b # bs) = crc32c_extend (crc_byte st b) bs"
  by (simp add: crc32c_extend_def)

lemma crc32c_extend_append:
  "crc32c_extend st (xs @ ys) = crc32c_extend (crc32c_extend st xs) ys"
  by (simp add: crc32c_extend_def)

lemma crc_byte_inject: "crc_byte s b = crc_byte s' b \<longleftrightarrow> s = s'"
  unfolding crc_byte_def crc_bits_inject xor.commute [of _ "ucast b"] by (rule word_xor_left_cancel)

lemma crc32c_extend_inject: "crc32c_extend s bs = crc32c_extend s' bs \<longleftrightarrow> s = s'"
  by (induction bs arbitrary: s s') (simp_all add: crc_byte_inject)

text \<open>
  Up to four bytes enter the register as one little-endian word, all at once.
\<close>

primrec le_word :: "byte list \<Rightarrow> u32" where
  "le_word [] = 0"
| "le_word (b # bs) = ucast b XOR push_bit 8 (le_word bs)"

lemma le_word_bits: "bit (le_word bs) i \<Longrightarrow> i < 8 * length bs"
proof (induction bs arbitrary: i)
  case Nil
  then show ?case by simp
next
  case (Cons b bs)
  then show ?case
    by (fastforce simp: bit_simps dest: bit_imp_le_length)
qed

lemma crc32c_extend_le_word:
  "length bs \<le> 4 \<Longrightarrow> crc32c_extend st bs = (crc_bit ^^ (8 * length bs)) (st XOR le_word bs)"
proof (induction bs arbitrary: st)
  case Nil
  then show ?case by simp
next
  case (Cons b bs)
  have shift: "(crc_bit ^^ 8) (push_bit 8 (le_word bs)) = le_word bs"
  proof -
    have "(crc_bit ^^ 8) (push_bit 8 (le_word bs)) = drop_bit 8 (push_bit 8 (le_word bs))"
      by (rule crc_bits_shift) (simp add: bit_simps)
    also have "\<dots> = le_word bs"
      using Cons.prems by (intro bit_eqI) (auto simp: bit_simps dest: le_word_bits)
    finally show ?thesis .
  qed
  have "crc32c_extend st (b # bs) = (crc_bit ^^ (8 * length bs)) (crc_byte st b XOR le_word bs)"
    using Cons by simp
  also have "crc_byte st b XOR le_word bs
      = (crc_bit ^^ 8) ((st XOR ucast b) XOR push_bit 8 (le_word bs))"
    unfolding crc_bits_linear [of 8 "st XOR ucast b"] shift crc_byte_def ..
  also have "(crc_bit ^^ (8 * length bs)) \<dots>
      = (crc_bit ^^ (8 * length (b # bs))) (st XOR le_word (b # bs))"
    by (simp add: funpow_add [symmetric, unfolded fun_eq_iff o_def, rule_format] ac_simps)
  finally show ?case .
qed

lemma le_word_inject:
  "length xs = length ys \<Longrightarrow> length xs \<le> 4 \<Longrightarrow> le_word xs = le_word ys \<longleftrightarrow> xs = ys"
proof (induction xs ys rule: list_induct2)
  case Nil
  then show ?case by simp
next
  case (Cons x xs y ys)
  show ?case
  proof
    assume eq: "le_word (x # xs) = le_word (y # ys)"
    have bits: "bit (le_word (x # xs)) i \<longleftrightarrow> bit (le_word (y # ys)) i" for i
      using eq by simp
    have "x = y"
    proof (rule bit_word_eqI)
      fix i assume "i < LENGTH(8)"
      then show "bit x i \<longleftrightarrow> bit y i"
        using bits [of i] by (simp add: bit_simps)
    qed
    moreover have "le_word xs = le_word ys"
    proof (rule bit_word_eqI)
      fix i
      show "bit (le_word xs) i \<longleftrightarrow> bit (le_word ys) i"
        using bits [of "i + 8"] le_word_bits [of xs i] le_word_bits [of ys i] Cons.hyps Cons.prems
        by (cases "i < 24") (auto simp: bit_simps dest: bit_imp_le_length)
    qed
    ultimately show "x # xs = y # ys" using Cons by simp
  qed simp
qed

lemma crc32c_window_differs:
  assumes "length w = length w'" "length w \<le> 4" "w \<noteq> w'"
  shows "crc32c_castagnoli (p @ w @ s) \<noteq> crc32c_castagnoli (p @ w' @ s)"
proof
  assume "crc32c_castagnoli (p @ w @ s) = crc32c_castagnoli (p @ w' @ s)"
  then have "crc32c_extend (crc32c_extend umax p) w = crc32c_extend (crc32c_extend umax p) w'"
    by (simp add: crc32c_castagnoli_def crc32c_extend_append crc32c_extend_inject)
  then have "crc32c_extend umax p XOR le_word w = crc32c_extend umax p XOR le_word w'"
    using assms by (simp add: crc32c_extend_le_word crc_bits_inject)
  then have "le_word w = le_word w'" by (simp only: word_xor_left_cancel)
  with assms show False by (simp add: le_word_inject)
qed

lemma crc32c_castagnoli2_eq: "crc32c_castagnoli2 xs ys = crc32c_castagnoli (xs @ ys)"
  by (simp add: crc32c_castagnoli2_def crc32c_castagnoli_def crc32c_extend_append)

lemma crc_byte_unfold:
  "crc_byte st b =
     crc_bit (crc_bit (crc_bit (crc_bit (crc_bit (crc_bit (crc_bit (crc_bit (st XOR ucast b))))))))"
  by (simp add: crc_byte_def eval_nat_numeral)

section \<open>Properties\<close>

text \<open>
  C40: the branch-free bit step is the Castagnoli shift register, the two-part checksum is the
  checksum of the concatenation, and the standard check value of CRC-32C comes out.
\<close>

theorem crc32c_reference:
  "crc_bit st = crc_bit_ref st \<and>
   crc32c_castagnoli2 xs ys = crc32c_castagnoli (xs @ ys) \<and>
   crc32c_castagnoli [0x31, 0x32, 0x33, 0x34, 0x35, 0x36, 0x37, 0x38, 0x39] = 0xE3069283"
proof -
  have "crc32c_castagnoli [0x31, 0x32, 0x33, 0x34, 0x35, 0x36, 0x37, 0x38, 0x39] = 0xE3069283"
    by (simp add: crc32c_castagnoli_def crc_byte_unfold crc_bit_eq_ref crc_bit_ref_def)
  then show ?thesis by (simp add: crc_bit_eq_ref crc32c_castagnoli2_eq)
qed

text \<open>
  C38: two messages of the same length that differ only within four consecutive bytes never
  have the same checksum.
\<close>

theorem crc32c_detects_window:
  assumes "length w = length w'" and "length w \<le> 4" and "w \<noteq> w'"
  shows "crc32c_castagnoli (p @ w @ s) \<noteq> crc32c_castagnoli (p @ w' @ s)"
  using assms by (rule crc32c_window_differs)

theorem crc32c_detects_window_witness:
  "crc32c_castagnoli ([1] @ [2, 3] @ [4]) \<noteq> crc32c_castagnoli ([1] @ [2, 7] @ [4])"
  by (rule crc32c_detects_window) simp_all

end
