(* ===== verification/Memory_Model.thy ===== *)
theory Memory_Model
  imports Views
begin

text \<open>
  The loops by which the core writes to memory: storing an array element by element and
  copying one region to another in ascending order. Both are characterised pointwise, the
  copy under the two placements for which an ascending copy is right: the regions do not
  overlap, or the destination starts at or below the source.
\<close>

section \<open>Definitions\<close>

text \<open>\<open>for (i = 0; i < n; ++i) p[i] = xs[i]\<close>\<close>

primrec store :: "addr \<Rightarrow> byte list \<Rightarrow> memory \<Rightarrow> memory" where
  "store p [] m = m"
| "store p (x # xs) m = store (p + 1) xs (m(p := x))"

text \<open>\<open>for (i = 0; i < n; ++i) dst[i] = src[i]\<close>, reading from the memory being written.\<close>

primrec copy_loop :: "addr \<Rightarrow> addr \<Rightarrow> nat \<Rightarrow> memory \<Rightarrow> memory" where
  "copy_loop dst src 0 m = m"
| "copy_loop dst src (Suc n) m =
     (let m' = copy_loop dst src n m in m'(dst + n := m' (src + n)))"

text \<open>The bytes of a region.\<close>

definition load :: "memory \<Rightarrow> addr \<Rightarrow> nat \<Rightarrow> byte list" where
  "load m p n = map m [p ..< p + n]"

section \<open>Pointwise behaviour\<close>

lemma length_load [simp]: "length (load m p n) = n"
  by (simp add: load_def)

lemma nth_load [simp]: "i < n \<Longrightarrow> load m p n ! i = m (p + i)"
  by (simp add: load_def)

lemma load_0 [simp]: "load m p 0 = []"
  by (simp add: load_def)

lemma load_Suc: "load m p (Suc n) = m p # load m (Suc p) n"
  unfolding load_def by (subst upt_conv_Cons) simp_all

lemma load_add: "load m p (k + n) = load m p k @ load m (p + k) n"
  unfolding load_def
  by (metis add.assoc le_add1 map_append upt_add_eq_append)

lemma take_load: "take k (load m p n) = load m p (min k n)"
  by (simp add: list_eq_iff_nth_eq)

lemma drop_load: "drop k (load m p n) = load m (p + k) (n - k)"
  by (simp add: list_eq_iff_nth_eq add.assoc)

lemma load_eq_iff: "load m p n = load m' q n \<longleftrightarrow> (\<forall>i < n. m (p + i) = m' (q + i))"
  by (simp add: list_eq_iff_nth_eq)

lemma subspan_simps [simp]: "sp_data (subspan v off n) = sp_data v + unat off"
  "sp_size (subspan v off n) = n"
  by (simp_all add: subspan_def)

lemma span_bytes_load: "span_bytes m s = load m (sp_data s) (unat (sp_size s))"
  by (simp add: span_bytes_def load_def)

lemma store_apply:
  "store p xs m a = (if p \<le> a \<and> a < p + length xs then xs ! (a - p) else m a)"
proof (induction xs arbitrary: p m)
  case Nil
  then show ?case by auto
next
  case (Cons x xs)
  show ?case
  proof (cases "a = p")
    case True
    then show ?thesis unfolding store.simps Cons.IH by simp
  next
    case False
    then have "p + 1 \<le> a \<Longrightarrow> a - p = Suc (a - (p + 1))" by simp
    with False show ?thesis unfolding store.simps Cons.IH by auto
  qed
qed

lemma copy_loop_apply:
  "dst \<le> src \<or> src + n \<le> dst \<Longrightarrow>
   copy_loop dst src n m a = (if dst \<le> a \<and> a < dst + n then m (src + (a - dst)) else m a)"
proof (induction n arbitrary: a)
  case 0
  then show ?case by auto
next
  case (Suc n)
  then have IH: "copy_loop dst src n m b
      = (if dst \<le> b \<and> b < dst + n then m (src + (b - dst)) else m b)" for b
    by auto
  have "copy_loop dst src n m (src + n) = m (src + n)"
    using Suc.prems by (auto simp: IH)
  then show ?case by (auto simp: Let_def IH)
qed

section \<open>Regions\<close>

lemma byte_view_slice_eq:
  "unat off + unat n \<le> unat (sp_size v) \<Longrightarrow> byte_view_slice v off n = Inr (subspan v off n)"
  by (simp add: byte_view_slice_def range_slice_Inr)

lemma span_bytes_subspan:
  "unat off + unat n \<le> unat (sp_size v) \<Longrightarrow>
   span_bytes m (subspan v off n) = take (unat n) (drop (unat off) (span_bytes m v))"
  by (simp add: span_bytes_load subspan_def drop_load take_load min_absorb1)

lemma load_store_same [simp]: "load (store p xs m) p (length xs) = xs"
  by (simp add: list_eq_iff_nth_eq store_apply)

lemma load_store_disjoint:
  "q + n \<le> p \<or> p + length xs \<le> q \<Longrightarrow> load (store p xs m) q n = load m q n"
  by (auto simp: list_eq_iff_nth_eq store_apply)

lemma load_copy_same:
  "dst \<le> src \<or> src + n \<le> dst \<Longrightarrow> load (copy_loop dst src n m) dst n = load m src n"
  by (simp add: list_eq_iff_nth_eq copy_loop_apply)

lemma load_copy_disjoint:
  "dst \<le> src \<or> src + n \<le> dst \<Longrightarrow> q + k \<le> dst \<or> dst + n \<le> q \<Longrightarrow>
   load (copy_loop dst src n m) q k = load m q k"
  by (auto simp: list_eq_iff_nth_eq copy_loop_apply)

end
