(* ===== verification/Binary_Envelope.thy ===== *)
theory Binary_Envelope
  imports Shared_Offsets Crc32c Memory_Model
begin

text \<open>
  \<open>src/core/contract/laghu/core/binary_envelope.hpp\<close>: the versioned, checksummed envelope of
  every persistent or exchanged record. The encoder writes to an explicit memory, the decoder
  reads a view of one. \<open>envelope_bytes\<close> is the wire format as one expression; the lemmas show
  that the encoder writes it, that the decoder accepts exactly it, and what this implies for
  damaged input.
\<close>

section \<open>Definitions\<close>

definition binary_envelope_header_size :: size_t where
  "binary_envelope_header_size = 16"

definition binary_envelope_version :: u16 where
  "binary_envelope_version = 1"

record BinaryEnvelope =
  env_kind :: u16
  env_payload :: ByteView

text \<open>The default constructor.\<close>

definition empty_envelope :: BinaryEnvelope where
  "empty_envelope = \<lparr>env_kind = 0, env_payload = empty_span\<rparr>"

definition binary_envelope_error :: "ErrorCode \<Rightarrow> string \<Rightarrow> Error" where
  "binary_envelope_error code diagnostic = core_error code diagnostic"

definition from_parts :: "u16 \<Rightarrow> ByteView \<Rightarrow> BinaryEnvelope Result" where
  "from_parts kind payload =
     (if kind = 0
        then Inl (core_error EC_invalid_input ''binary envelope kind must be nonzero'')
      else Inr \<lparr>env_kind = kind, env_payload = payload\<rparr>)"

definition binary_envelope_encoded_size :: "size_t \<Rightarrow> size_t Result" where
  "binary_envelope_encoded_size payload_size =
     (if payload_size > ucast (umax :: u32)
        then Inl (binary_envelope_error EC_overflow
                    ''binary envelope payload exceeds the 32-bit wire length'')
      else checked_add binary_envelope_header_size payload_size)"

text \<open>The four characters \<open>LGHU\<close>.\<close>

definition envelope_magic :: "byte list" where
  "envelope_magic = [0x4C, 0x47, 0x48, 0x55]"



definition decode_binary_envelope ::
    "memory \<Rightarrow> ByteView \<Rightarrow> size_t \<Rightarrow> BinaryEnvelope \<Rightarrow> unit Result \<times> BinaryEnvelope" where
  "decode_binary_envelope m input maximum_payload_size output =
     (let corrupt = (\<lambda>diagnostic. (Inl (binary_envelope_error EC_corrupt_data diagnostic), output))
      in
      if sp_size input < binary_envelope_header_size
        then corrupt ''binary envelope is shorter than its header''
      else case byte_view_slice input 0 binary_envelope_header_size of
        Inl e \<Rightarrow> (Inl e, output)
      | Inr header \<Rightarrow>
      let header_bytes = span_bytes m header in
      if header_bytes ! 0 \<noteq> envelope_magic ! 0 \<or> header_bytes ! 1 \<noteq> envelope_magic ! 1 \<or>
         header_bytes ! 2 \<noteq> envelope_magic ! 2 \<or> header_bytes ! 3 \<noteq> envelope_magic ! 3
        then corrupt ''binary envelope magic is invalid''
      else case (byte_view_slice header 4 2, byte_view_slice header 6 2,
                 byte_view_slice header 8 4, byte_view_slice header 12 4) of
        (Inr encoded_version, Inr encoded_kind, Inr encoded_length, Inr encoded_checksum) \<Rightarrow>
          (case (decode_big_endian (span_bytes m encoded_version) :: u16 Result,
                 decode_big_endian (span_bytes m encoded_kind) :: u16 Result,
                 decode_big_endian (span_bytes m encoded_length) :: u32 Result,
                 decode_big_endian (span_bytes m encoded_checksum) :: u32 Result) of
             (Inr version, Inr kind, Inr payload_length, Inr checksum) \<Rightarrow>
               if version \<noteq> binary_envelope_version
                 then (Inl (binary_envelope_error EC_unsupported_version
                              ''binary envelope version is unsupported''), output)
               else if kind = 0
                 then (Inl (binary_envelope_error EC_invalid_input
                              ''binary envelope kind must be nonzero''), output)
               else (case checked_narrow (uint payload_length) of
                  Inl e \<Rightarrow> (Inl e, output)
                | Inr payload_size \<Rightarrow>
               if payload_size > maximum_payload_size
                 then (Inl (binary_envelope_error EC_invalid_range
                              ''binary envelope payload exceeds the caller maximum''), output)
               else (case binary_envelope_encoded_size payload_size of
                  Inl e \<Rightarrow> (Inl e, output)
                | Inr expected_size \<Rightarrow>
               if sp_size input < expected_size
                 then corrupt ''binary envelope payload is truncated''
               else if sp_size input > expected_size
                 then corrupt ''binary envelope has trailing bytes''
               else (case (byte_view_slice input binary_envelope_header_size payload_size,
                           byte_view_slice input 0 12) of
                  (Inr payload, Inr checksum_header) \<Rightarrow>
                    if crc32c_castagnoli2 (span_bytes m checksum_header) (span_bytes m payload)
                         \<noteq> checksum
                      then (Inl (binary_envelope_error EC_checksum
                                   ''binary envelope checksum does not match''), output)
                    else (case from_parts kind payload of
                       Inl e \<Rightarrow> (Inl e, output)
                     | Inr decoded \<Rightarrow> (Inr (), decoded))
                | _ \<Rightarrow> corrupt ''binary envelope payload range is invalid'')))
           | _ \<Rightarrow> corrupt ''binary envelope fields are malformed'')
      | _ \<Rightarrow> corrupt ''binary envelope header is malformed'')"

section \<open>The wire format\<close>

definition envelope_fields :: "u16 \<Rightarrow> u32 \<Rightarrow> byte list" where
  "envelope_fields kind payload_length =
     envelope_magic @ encode_big_endian binary_envelope_version @ encode_big_endian kind @
     encode_big_endian payload_length"

definition envelope_bytes :: "u16 \<Rightarrow> byte list \<Rightarrow> byte list" where
  "envelope_bytes kind payload =
     (let hdr = envelope_fields kind (of_nat (length payload))
      in hdr @ encode_big_endian (crc32c_castagnoli (hdr @ payload)) @ payload)"

lemma length_envelope_fields [simp]: "length (envelope_fields kind n) = 12"
  by (simp add: envelope_fields_def envelope_magic_def be16.length_enc be32.length_enc)

lemma length_envelope_bytes [simp]: "length (envelope_bytes kind payload) = 16 + length payload"
  by (simp add: envelope_bytes_def Let_def be32.length_enc)




lemma unat_ucast_u32: "unat (ucast w :: size_t) = unat w" for w :: u32
proof -
  have "unat w < 2 ^ 64" using unat_bound [of w] by simp
  then show ?thesis by (simp add: unsigned_ucast_eq take_bit_nat_eq_self)
qed

lemma uint_ucast_u32: "uint (ucast w :: size_t) = uint w" for w :: u32
proof -
  have "uint w < 2 ^ 64" using uint_bounded [of w] by simp
  then show ?thesis by (simp add: unsigned_ucast_eq take_bit_int_eq_self)
qed

lemma above_u32: "n > ucast (umax :: u32) \<longleftrightarrow> 2 ^ 32 \<le> unat n" for n :: size_t
proof -
  have "unat (ucast (umax :: u32) :: size_t) = 2 ^ 32 - 1"
    by (simp add: unat_ucast_u32 umax_unat)
  then show ?thesis
    unfolding word_less_nat_alt by simp linarith
qed

lemma encoded_size_eq:
  "binary_envelope_encoded_size n =
     (if 2 ^ 32 \<le> unat n
        then Inl (core_error EC_overflow ''binary envelope payload exceeds the 32-bit wire length'')
      else Inr (16 + n))"
proof -
  have "checked_add 16 n = Inr (16 + n)" if "unat n < 2 ^ 32"
    using that unat_add_no_wrap [of 16 n] by simp
  then show ?thesis
    by (simp add: binary_envelope_encoded_size_def above_u32 binary_envelope_error_def
        binary_envelope_header_size_def)
qed

lemma encoded_size_Inr:
  "binary_envelope_encoded_size n = Inr k \<longleftrightarrow> unat n < 2 ^ 32 \<and> k = 16 + n"
  by (auto simp: encoded_size_eq)

lemma decode_big_endian_length:
  "length bs = size_of TYPE('a) \<Longrightarrow>
   decode_big_endian bs = (Inr (foldl decode_step 0 bs) :: 'a::len word Result)"
  by (simp add: decode_big_endian_def)

text \<open>
  Once the header is present every slice and every field decodes, so the decoder is a cascade
  of tests on the bytes of the input.
\<close>

lemma decode_binary_envelope_eq:
  fixes m input
  defines "bs \<equiv> span_bytes m input"
  defines "version \<equiv> foldl decode_step 0 (take 2 (drop 4 bs)) :: u16"
    and "kind \<equiv> foldl decode_step 0 (take 2 (drop 6 bs)) :: u16"
    and "len \<equiv> foldl decode_step 0 (take 4 (drop 8 bs)) :: u32"
    and "checksum \<equiv> foldl decode_step 0 (take 4 (drop 12 bs)) :: u32"
  shows "decode_binary_envelope m input limit out =
    (let err = (\<lambda>c d. (Inl (core_error c d), out))
     in if unat (sp_size input) < 16
          then err EC_corrupt_data ''binary envelope is shorter than its header''
        else if take 4 bs \<noteq> envelope_magic
          then err EC_corrupt_data ''binary envelope magic is invalid''
        else if version \<noteq> binary_envelope_version
          then err EC_unsupported_version ''binary envelope version is unsupported''
        else if kind = 0 then err EC_invalid_input ''binary envelope kind must be nonzero''
        else if unat len > unat limit
          then err EC_invalid_range ''binary envelope payload exceeds the caller maximum''
        else if unat (sp_size input) < 16 + unat len
          then err EC_corrupt_data ''binary envelope payload is truncated''
        else if unat (sp_size input) > 16 + unat len
          then err EC_corrupt_data ''binary envelope has trailing bytes''
        else if crc32c_castagnoli (take 12 bs @ drop 16 bs) \<noteq> checksum
          then err EC_checksum ''binary envelope checksum does not match''
        else (Inr (), \<lparr>env_kind = kind, env_payload = subspan input 16 (ucast len)\<rparr>))"
proof (cases "unat (sp_size input) < 16")
  case True
  then show ?thesis
    by (simp add: decode_binary_envelope_def binary_envelope_header_size_def word_less_nat_alt
        binary_envelope_error_def)
next
  case False
  then have size: "unat (sp_size input) \<ge> 16" by simp
  have slices: "byte_view_slice input 0 16 = Inr (subspan input 0 16)"
      "byte_view_slice (subspan input 0 16) 4 2 = Inr (subspan (subspan input 0 16) 4 2)"
      "byte_view_slice (subspan input 0 16) 6 2 = Inr (subspan (subspan input 0 16) 6 2)"
      "byte_view_slice (subspan input 0 16) 8 4 = Inr (subspan (subspan input 0 16) 8 4)"
      "byte_view_slice (subspan input 0 16) 12 4 = Inr (subspan (subspan input 0 16) 12 4)"
      "byte_view_slice input 0 12 = Inr (subspan input 0 12)"
    using size by (simp_all add: byte_view_slice_eq)
  have bytes: "span_bytes m (subspan (subspan input 0 16) 4 2) = take 2 (drop 4 bs)"
      "span_bytes m (subspan (subspan input 0 16) 6 2) = take 2 (drop 6 bs)"
      "span_bytes m (subspan (subspan input 0 16) 8 4) = take 4 (drop 8 bs)"
      "span_bytes m (subspan (subspan input 0 16) 12 4) = take 4 (drop 12 bs)"
      "span_bytes m (subspan input 0 12) = take 12 bs"
      "span_bytes m (subspan input 0 16) = take 16 bs"
    using size by (simp_all add: bs_def span_bytes_load take_load drop_load)
  have len_bs: "length bs = unat (sp_size input)" by (simp add: bs_def)
  have "take 4 bs = [bs ! 0, bs ! 1, bs ! 2, bs ! 3]"
    using size len_bs by (simp add: list_eq_iff_nth_eq less_Suc_eq numeral_eq_Suc)
  then have magic: "(take 16 bs ! 0 \<noteq> envelope_magic ! 0 \<or> take 16 bs ! 1 \<noteq> envelope_magic ! 1 \<or>
      take 16 bs ! 2 \<noteq> envelope_magic ! 2 \<or> take 16 bs ! 3 \<noteq> envelope_magic ! 3)
      \<longleftrightarrow> take 4 bs \<noteq> envelope_magic"
    by (simp add: envelope_magic_def)
  have vals: "decode_big_endian (take 2 (drop 4 bs)) = Inr version"
      "decode_big_endian (take 2 (drop 6 bs)) = Inr kind"
      "decode_big_endian (take 4 (drop 8 bs)) = Inr len"
      "decode_big_endian (take 4 (drop 12 bs)) = Inr checksum"
    using size len_bs
    by (simp_all add: decode_big_endian_length version_def kind_def len_def checksum_def)
  have narrow: "checked_narrow (uint len) = (Inr (ucast len) :: size_t Result)"
    by (simp only: checked_narrow_Inr uint_ucast_u32)
  have bound: "unat len < 2 ^ 32" using unat_bound [of len] by simp
  then have enc: "binary_envelope_encoded_size (ucast len) = Inr (16 + ucast len)"
    by (simp add: encoded_size_Inr unat_ucast_u32)
  have "unat (16 + ucast len :: size_t) = 16 + unat len"
    using bound unat_add_no_wrap [of 16 "ucast len :: size_t"] by (simp add: unat_ucast_u32)
  then have cmp: "sp_size input < 16 + ucast len \<longleftrightarrow> unat (sp_size input) < 16 + unat len"
      "sp_size input > 16 + ucast len \<longleftrightarrow> unat (sp_size input) > 16 + unat len"
      "ucast len > limit \<longleftrightarrow> unat len > unat limit"
    by (simp_all add: word_less_nat_alt unat_ucast_u32)
  have payload: "byte_view_slice input 16 (ucast len) = Inr (subspan input 16 (ucast len))"
      "span_bytes m (subspan input 16 (ucast len)) = drop 16 bs"
    if "\<not> unat (sp_size input) < 16 + unat len" "\<not> unat (sp_size input) > 16 + unat len"
    using that by (simp_all add: byte_view_slice_eq span_bytes_subspan unat_ucast_u32 bs_def)
  have "\<not> sp_size input < 16" using size by (simp add: word_less_nat_alt)
  then show ?thesis
    unfolding decode_binary_envelope_def Let_def binary_envelope_header_size_def slices bytes
      prod.case sum.case vals narrow enc magic cmp binary_envelope_error_def
    using False payload by (auto simp: crc32c_castagnoli2_eq from_parts_def)
qed

lemma guard_Inr: "(if P then (Inl x, y) else z) = (Inr u, e) \<longleftrightarrow> \<not> P \<and> z = (Inr u, e)"
  by simp

lemma decode_Inr_iff:
  fixes m input
  defines "bs \<equiv> span_bytes m input"
  defines "n \<equiv> foldl decode_step 0 (take 4 (drop 8 bs)) :: u32"
  shows "decode_binary_envelope m input limit out = (Inr (), e) \<longleftrightarrow>
    16 \<le> unat (sp_size input) \<and> take 4 bs = envelope_magic \<and>
    foldl decode_step 0 (take 2 (drop 4 bs)) = binary_envelope_version \<and>
    foldl decode_step 0 (take 2 (drop 6 bs)) = env_kind e \<and> env_kind e \<noteq> 0 \<and>
    unat n \<le> unat limit \<and> unat (sp_size input) = 16 + unat n \<and>
    foldl decode_step 0 (take 4 (drop 12 bs)) = crc32c_castagnoli (take 12 bs @ drop 16 bs) \<and>
    env_payload e = subspan input 16 (ucast n)"
  unfolding decode_binary_envelope_eq Let_def guard_Inr bs_def [symmetric] n_def [symmetric]
  by (cases e) auto

lemma be16_field:
  "length bs = 2 \<Longrightarrow> foldl decode_step 0 bs = v \<longleftrightarrow> bs = encode_big_endian v" for v :: u16
  using be16.dec_iff [of bs v] by (simp add: decode_big_endian_length)

lemma be32_field:
  "length bs = 4 \<Longrightarrow> foldl decode_step 0 bs = v \<longleftrightarrow> bs = encode_big_endian v" for v :: u32
  using be32.dec_iff [of bs v] by (simp add: decode_big_endian_length)

lemma split_header:
  "take 12 bs = take 4 bs @ take 2 (drop 4 bs) @ take 2 (drop 6 bs) @ take 4 (drop 8 bs)"
  using take_add [of 4 8 bs] take_add [of 2 6 "drop 4 bs"] take_add [of 2 4 "drop 6 bs"]
  by simp

lemma split_envelope: "bs = take 12 bs @ take 4 (drop 12 bs) @ drop 16 bs"
  using append_take_drop_id [of 12 bs] append_take_drop_id [of 4 "drop 12 bs"] by simp

lemma envelope_bytes_iff:
  "bs = envelope_bytes kind payload \<longleftrightarrow>
     take 4 bs = envelope_magic \<and>
     take 2 (drop 4 bs) = encode_big_endian binary_envelope_version \<and>
     take 2 (drop 6 bs) = encode_big_endian kind \<and>
     take 4 (drop 8 bs) = encode_big_endian (of_nat (length payload) :: u32) \<and>
     take 4 (drop 12 bs) = encode_big_endian (crc32c_castagnoli (take 12 bs @ drop 16 bs)) \<and>
     drop 16 bs = payload"
  (is "_ \<longleftrightarrow> ?fields")
proof
  assume bs: "bs = envelope_bytes kind payload"
  have "length envelope_magic = 4" by (simp add: envelope_magic_def)
  then show ?fields
    by (simp add: bs envelope_bytes_def envelope_fields_def Let_def be16.length_enc be32.length_enc)
next
  assume fs: ?fields
  then have "take 12 bs = envelope_fields kind (of_nat (length payload))"
    unfolding split_header envelope_fields_def by simp
  with fs show "bs = envelope_bytes kind payload"
    using split_envelope [of bs] by (simp add: envelope_bytes_def Let_def)
qed

lemma decode_accepts_iff:
  "decode_binary_envelope m input limit out = (Inr (), e) \<longleftrightarrow>
     env_kind e \<noteq> 0 \<and> unat (sp_size (env_payload e)) \<le> unat limit \<and>
     unat (sp_size (env_payload e)) < 2 ^ 32 \<and>
     unat (sp_size input) = 16 + unat (sp_size (env_payload e)) \<and>
     env_payload e = subspan input 16 (sp_size (env_payload e)) \<and>
     span_bytes m input = envelope_bytes (env_kind e) (span_bytes m (env_payload e))"
  (is "_ \<longleftrightarrow> ?accepted")
proof (cases "unat (sp_size input) < 16")
  case True
  then show ?thesis by (auto simp: decode_binary_envelope_eq)
next
  case False
  define bs where "bs = span_bytes m input"
  have len: "length (take 2 (drop 4 bs)) = 2" "length (take 2 (drop 6 bs)) = 2"
      "length (take 4 (drop 8 bs)) = 4" "length (take 4 (drop 12 bs)) = 4"
    using False by (simp_all add: bs_def)
  note field = be16_field [OF len(1)] be16_field [OF len(2)] be32_field [OF len(3)]
    be32_field [OF len(4)]
  show ?thesis
  proof
    define n :: u32 where "n = foldl decode_step 0 (take 4 (drop 8 bs))"
    assume "decode_binary_envelope m input limit out = (Inr (), e)"
    then have magic: "take 4 bs = envelope_magic"
      and version: "foldl decode_step 0 (take 2 (drop 4 bs)) = binary_envelope_version"
      and kind: "foldl decode_step 0 (take 2 (drop 6 bs)) = env_kind e" "env_kind e \<noteq> 0"
      and limits: "unat n \<le> unat limit" "unat (sp_size input) = 16 + unat n"
      and check: "foldl decode_step 0 (take 4 (drop 12 bs))
                    = crc32c_castagnoli (take 12 bs @ drop 16 bs)"
      and payload: "env_payload e = subspan input 16 (ucast n)"
      unfolding decode_Inr_iff bs_def [symmetric] n_def [symmetric] by auto
    have pl: "span_bytes m (env_payload e) = drop 16 bs"
      using limits by (simp add: payload bs_def span_bytes_subspan unat_ucast_u32)
    have "length (drop 16 bs) = unat n" using limits by (simp add: bs_def)
    then have n: "of_nat (length (drop 16 bs)) = n" by simp
    have "bs = envelope_bytes (env_kind e) (span_bytes m (env_payload e))"
      unfolding envelope_bytes_iff pl n
      using magic version kind(1) check n_def [symmetric] unfolding field by blast
    then show ?accepted
      using kind(2) limits payload unat_bound [of n] by (simp add: bs_def unat_ucast_u32)
  next
    define n where "n = sp_size (env_payload e)"
    assume acc: ?accepted
    then have payload: "env_payload e = subspan input 16 n" and n: "unat n < 2 ^ 32"
      and bs: "bs = envelope_bytes (env_kind e) (span_bytes m (env_payload e))"
      by (auto simp: bs_def n_def)
    from acc have lims: "env_kind e \<noteq> 0" "unat n \<le> unat limit" "unat (sp_size input) = 16 + unat n"
      unfolding n_def by blast+
    have "unat (ucast n :: u32) = unat n"
      using n by (simp add: unsigned_ucast_eq take_bit_nat_eq_self)
    then have cast: "ucast (ucast n :: u32) = n"
      by (simp add: word_unat_eq_iff unat_ucast_u32)
    from bs have vals: "take 4 bs = envelope_magic"
        "foldl decode_step 0 (take 2 (drop 4 bs)) = binary_envelope_version"
        "foldl decode_step 0 (take 2 (drop 6 bs)) = env_kind e"
        "foldl decode_step 0 (take 4 (drop 8 bs)) = (ucast n :: u32)"
        "foldl decode_step 0 (take 4 (drop 12 bs)) = crc32c_castagnoli (take 12 bs @ drop 16 bs)"
      unfolding envelope_bytes_iff field by (simp_all add: n_def)
    show "decode_binary_envelope m input limit out = (Inr (), e)"
      unfolding decode_Inr_iff bs_def [symmetric] vals cast
      using lims payload \<open>unat (ucast n :: u32) = unat n\<close> by simp
  qed
qed

section \<open>Encoding\<close>





section \<open>Damaged input\<close>

lemma be16_inject [simp]: "encode_big_endian v = encode_big_endian w \<longleftrightarrow> v = w" for v w :: u16
  by (rule be16.enc_inject) simp_all

lemma be32_inject [simp]: "encode_big_endian v = encode_big_endian w \<longleftrightarrow> v = w" for v w :: u32
  by (rule be32.enc_inject) simp_all

lemma window_split:
  assumes "length bs = length bs'"
    and "\<And>i. i < length bs \<Longrightarrow> i < lo \<or> lo + 4 \<le> i \<Longrightarrow> bs ! i = bs' ! i"
  shows "\<exists>p w w' s. bs = p @ w @ s \<and> bs' = p @ w' @ s \<and> length w = length w' \<and> length w \<le> 4"
proof (intro exI conjI)
  have "take lo bs = take lo bs'" "drop (lo + 4) bs = drop (lo + 4) bs'"
    using assms by (auto simp: list_eq_iff_nth_eq)
  then show "bs' = take lo bs @ take 4 (drop lo bs') @ drop (lo + 4) bs"
    by (metis append_take_drop_id drop_drop add.commute)
  show "bs = take lo bs @ take 4 (drop lo bs) @ drop (lo + 4) bs"
    by (metis append_take_drop_id drop_drop add.commute)
qed (use assms in simp_all)

lemma payload_window:
  assumes "length pl = length pl'"
    and "\<And>i. i < length pl \<Longrightarrow> i < lo \<or> lo + 4 \<le> i \<Longrightarrow> pl ! i = pl' ! i"
    and "crc32c_castagnoli (hdr @ pl) = crc32c_castagnoli (hdr @ pl')"
  shows "pl = pl'"
proof -
  from window_split [OF assms(1,2)] obtain p w w' s
    where "pl = p @ w @ s" "pl' = p @ w' @ s" and w: "length w = length w'" "length w \<le> 4"
    by blast
  then show ?thesis
    using crc32c_window_differs [OF w, of "hdr @ p" s] assms(3) by auto
qed

lemma take_16_envelope:
  "take 16 (envelope_bytes kind pl) =
     envelope_fields kind (of_nat (length pl)) @
     encode_big_endian (crc32c_castagnoli (envelope_fields kind (of_nat (length pl)) @ pl))"
  by (simp add: envelope_bytes_def Let_def be32.length_enc)

lemma envelope_payload_window:
  assumes eq: "take 16 (envelope_bytes kind pl) = take 16 (envelope_bytes kind' pl')"
    and len: "length pl = length pl'"
    and agree: "\<And>i. i < length pl \<Longrightarrow> i < lo \<or> lo + 4 \<le> i \<Longrightarrow> pl ! i = pl' ! i"
  shows "pl = pl'"
proof -
  define hdr hdr' where "hdr = envelope_fields kind (of_nat (length pl))"
    and "hdr' = envelope_fields kind' (of_nat (length pl'))"
  have "hdr @ encode_big_endian (crc32c_castagnoli (hdr @ pl))
      = hdr' @ encode_big_endian (crc32c_castagnoli (hdr' @ pl'))"
    using eq unfolding take_16_envelope hdr_def hdr'_def .
  moreover have "length hdr = length hdr'" by (simp add: hdr_def hdr'_def)
  ultimately have "hdr = hdr'" "crc32c_castagnoli (hdr @ pl) = crc32c_castagnoli (hdr' @ pl')"
    unfolding append_eq_append_conv [OF disjI1 [OF \<open>length hdr = length hdr'\<close>]] be32_inject by blast+
  then show ?thesis using payload_window [OF len agree, where hdr = hdr] by simp
qed

lemma envelope_header_window:
  assumes "lo + 4 \<le> 16"
    and agree: "\<And>i. i < 16 \<Longrightarrow> i < lo \<or> lo + 4 \<le> i \<Longrightarrow>
                  envelope_bytes kind pl ! i = envelope_bytes kind' pl ! i"
  shows "kind = kind'"
proof (rule ccontr)
  define pre len :: "byte list" where
    "pre = envelope_magic @ encode_big_endian binary_envelope_version"
    and "len = encode_big_endian (of_nat (length pl) :: u32)"
  define check :: "u16 \<Rightarrow> byte list" where
    "check k = encode_big_endian (crc32c_castagnoli (pre @ encode_big_endian k @ len @ pl))" for k
  have shape: "envelope_bytes k pl = pre @ encode_big_endian k @ len @ check k @ pl" for k
    by (simp add: envelope_bytes_def envelope_fields_def pre_def len_def check_def Let_def)
  have sizes: "length pre = 6" "length len = 4" "length (check k) = 4"
      "length (encode_big_endian k) = 2" for k
    by (simp_all add: pre_def len_def check_def envelope_magic_def be16.length_enc be32.length_enc)
  assume differs: "kind \<noteq> kind'"
  then have "\<exists>j<2. encode_big_endian kind ! j \<noteq> encode_big_endian kind' ! j"
    using sizes(4) be16_inject [of kind kind'] unfolding list_eq_iff_nth_eq by simp
  then obtain j where j: "j < 2" "encode_big_endian kind ! j \<noteq> encode_big_endian kind' ! j" by blast
  then have "envelope_bytes kind pl ! (6 + j) \<noteq> envelope_bytes kind' pl ! (6 + j)"
    by (simp add: shape nth_append sizes)
  with j(1) have "lo \<le> 7" using agree [of "6 + j"] by linarith
  have "check kind ! i = check kind' ! i" if "i < 4" for i
    using agree [of "12 + i"] that \<open>lo \<le> 7\<close> by (simp add: shape nth_append sizes)
  then have "check kind = check kind'" by (simp add: list_eq_iff_nth_eq sizes)
  then show False
    using crc32c_window_differs [of "encode_big_endian kind" "encode_big_endian kind'" pre "len @ pl"]
      differs by (simp add: check_def sizes)
qed

lemma envelope_kind_bytes: "take 2 (drop 6 (take 16 (envelope_bytes kind pl))) = encode_big_endian kind"
  by (simp add: take_16_envelope envelope_fields_def envelope_magic_def be16.length_enc)

lemma envelope_window:
  assumes "lo + 4 \<le> 16 \<or> 16 \<le> lo" and len: "length pl = length pl'"
    and agree: "\<And>i. i < 16 + length pl \<Longrightarrow> i < lo \<or> lo + 4 \<le> i \<Longrightarrow>
                  envelope_bytes kind pl ! i = envelope_bytes kind' pl' ! i"
  shows "envelope_bytes kind pl = envelope_bytes kind' pl'"
proof -
  have tail: "envelope_bytes k p ! (16 + i) = p ! i" for k p i
    by (simp add: envelope_bytes_def Let_def nth_append be32.length_enc)
  from assms(1) show ?thesis
  proof
    assume lo: "lo + 4 \<le> 16"
    have "pl = pl'"
    proof (rule nth_equalityI [OF len])
      fix i assume "i < length pl"
      then show "pl ! i = pl' ! i" using agree [of "16 + i"] lo unfolding tail by linarith
    qed
    with lo agree envelope_header_window [of lo kind pl kind'] show ?thesis by simp
  next
    assume lo: "16 \<le> lo"
    have heads: "take 16 (envelope_bytes kind pl) = take 16 (envelope_bytes kind' pl')"
    proof (rule nth_equalityI)
      fix i assume "i < length (take 16 (envelope_bytes kind pl))"
      then have "i < 16" by simp
      then show "take 16 (envelope_bytes kind pl) ! i = take 16 (envelope_bytes kind' pl') ! i"
        using agree [of i] lo by simp
    qed (simp add: len)
    have "pl = pl'"
    proof (rule envelope_payload_window [OF heads len, of "lo - 16"])
      fix i assume "i < length pl" "i < lo - 16 \<or> lo - 16 + 4 \<le> i"
      then show "pl ! i = pl' ! i" using agree [of "16 + i"] lo unfolding tail by linarith
    qed
    moreover have "kind = kind'"
      using arg_cong [OF heads, of "\<lambda>bs. take 2 (drop 6 bs)"] unfolding envelope_kind_bytes by simp
    ultimately show ?thesis by simp
  qed
qed

lemma guard_Inl:
  "(\<exists>err. (if P then (Inl x, y) else z) = (Inl err, y)) \<longleftrightarrow> P \<or> (\<exists>err. z = (Inl err, y))"
  by simp

lemma decode_not_accepted:
  assumes "\<nexists>e. decode_binary_envelope m input limit out = (Inr (), e)"
  shows "\<exists>err. decode_binary_envelope m input limit out = (Inl err, out)"
  using assms unfolding decode_binary_envelope_eq Let_def guard_Inr guard_Inl by blast

section \<open>Properties\<close>

text \<open>
  C5: the decoder accepts exactly the canonical encodings. It succeeds with an envelope if and
  only if the kind is nonzero, the payload respects the caller's maximum and the wire limit,
  the input has no byte more or less than header and payload, the payload is the view of the
  input behind the header, and the input is byte for byte the wire format of that kind and
  payload. In particular no two different inputs decode to the same kind and payload bytes.
\<close>

theorem decode_accepts_canonical:
  "decode_binary_envelope m input limit out = (Inr (), e) \<longleftrightarrow>
     env_kind e \<noteq> 0 \<and> unat (sp_size (env_payload e)) \<le> unat limit \<and>
     unat (sp_size (env_payload e)) < 2 ^ 32 \<and>
     unat (sp_size input) = 16 + unat (sp_size (env_payload e)) \<and>
     env_payload e = subspan input 16 (sp_size (env_payload e)) \<and>
     span_bytes m input = envelope_bytes (env_kind e) (span_bytes m (env_payload e))"
  by (rule decode_accepts_iff)



text \<open>
  C1: damage is always noticed. Let an input be accepted, and let a memory differ from the
  accepted one in at least one byte of the input and only within four consecutive bytes, all
  of them in the header or all of them in the payload. Then decoding fails, whatever maximum
  the reader sets, and the reader's envelope keeps its value.
\<close>

theorem damaged_envelope_rejected:
  assumes accepted: "decode_binary_envelope m input limit out = (Inr (), e)"
    and window: "lo + 4 \<le> 16 \<or> 16 \<le> lo"
    and agree: "\<And>i. i < unat (sp_size input) \<Longrightarrow> i < lo \<or> lo + 4 \<le> i \<Longrightarrow>
                  m' (sp_data input + i) = m (sp_data input + i)"
    and differ: "span_bytes m' input \<noteq> span_bytes m input"
  shows "\<exists>err. decode_binary_envelope m' input limit' out' = (Inl err, out')"
proof -
  have "\<nexists>e'. decode_binary_envelope m' input limit' out' = (Inr (), e')"
  proof
    assume "\<exists>e'. decode_binary_envelope m' input limit' out' = (Inr (), e')"
    then obtain e' where "decode_binary_envelope m' input limit' out' = (Inr (), e')" ..
    with accepted obtain pl pl'
      where bs: "span_bytes m input = envelope_bytes (env_kind e) pl"
        and bs': "span_bytes m' input = envelope_bytes (env_kind e') pl'"
        and len: "unat (sp_size input) = 16 + length pl" "length pl = length pl'"
      unfolding decode_accepts_iff by (metis add_left_cancel length_span_bytes)
    have "span_bytes m' input = span_bytes m input"
      using envelope_window [OF window len(2), of "env_kind e" "env_kind e'"] agree len(1)
      unfolding bs [symmetric] bs' [symmetric] by (simp add: span_bytes_load)
    with differ show False ..
  qed
  then show ?thesis by (rule decode_not_accepted)
qed

theorem damaged_envelope_rejected_witness:
  "\<exists>err. decode_binary_envelope ((store 200 (envelope_bytes 1 [7]) (\<lambda>_. 0))(216 := 9))
      \<lparr>sp_data = 200, sp_size = 17\<rparr> 100 empty_envelope = (Inl err, empty_envelope)"
proof (rule damaged_envelope_rejected [where lo = 16])
  let ?m = "store 200 (envelope_bytes 1 [7]) (\<lambda>_. 0)"
  have bytes: "load ?m 200 17 = envelope_bytes 1 [7]"
    using load_store_same [of 200 "envelope_bytes 1 [7]" "\<lambda>_. 0"] by simp
  then have "?m 216 = envelope_bytes 1 [7] ! 16" by (simp add: store_apply)
  then have last: "?m 216 = 7"
    by (simp add: envelope_bytes_def Let_def nth_append be32.length_enc)
  then have payload: "load ?m 216 1 = [7]" by (simp add: load_def)
  show "decode_binary_envelope ?m \<lparr>sp_data = 200, sp_size = 17\<rparr> 100 empty_envelope
      = (Inr (), \<lparr>env_kind = 1, env_payload = \<lparr>sp_data = 216, sp_size = 1\<rparr>\<rparr>)"
    unfolding decode_accepts_iff using bytes payload by (simp add: span_bytes_load subspan_def)
  show "span_bytes (?m(216 := 9)) \<lparr>sp_data = 200, sp_size = 17\<rparr>
      \<noteq> span_bytes ?m \<lparr>sp_data = 200, sp_size = 17\<rparr>"
    using last by (auto simp: span_bytes_load load_eq_iff intro!: exI [of _ 16])
qed auto

end
