(* ===== verification/Identifiers.thy ===== *)
theory Identifiers
  imports Shared_Offsets
begin

unbundle bit_operations_syntax

text \<open>
  \<open>src/core/contract/laghu/core/identifiers.hpp\<close>: the strong identifiers. The eight tagged
  identifier types share one template and therefore one record here; the tag only separates
  them at compile time. The class has its own copy of the big-endian loops, which the lemmas
  identify with the codec of \<open>Shared_Offsets\<close>.
\<close>

record StrongIdentifier =
  sid_value :: u64

type_synonym WorkerId = StrongIdentifier
type_synonym ConnectionId = StrongIdentifier
type_synonym StreamId = StrongIdentifier
type_synonym GenerationId = StrongIdentifier

definition id_encoded_size :: nat where
  "id_encoded_size = 8"

definition id_from_uint64 :: "u64 \<Rightarrow> StrongIdentifier Result" where
  "id_from_uint64 v =
     (if v = 0 then Inl (core_error EC_invalid_input ''strong identifier must be nonzero'')
      else Inr \<lparr>sid_value = v\<rparr>)"

definition id_encode_big_endian :: "StrongIdentifier \<Rightarrow> byte list" where
  "id_encode_big_endian i =
     map (\<lambda>index. ucast (drop_bit ((id_encoded_size - 1 - index) * 8) (sid_value i)))
       [0..<id_encoded_size]"

definition id_decode_big_endian :: "byte list \<Rightarrow> StrongIdentifier Result" where
  "id_decode_big_endian encoded =
     (if length encoded \<noteq> id_encoded_size
        then Inl (core_error EC_invalid_range ''strong identifier encoding must contain 8 bytes'')
      else id_from_uint64 (foldl (\<lambda>v b. push_bit 8 v OR ucast b) 0 encoded))"

section \<open>The identifier codec\<close>

lemma id_encode_eq: "id_encode_big_endian i = encode_big_endian (sid_value i)"
  by (simp add: id_encode_big_endian_def encode_big_endian_def id_encoded_size_def)

lemma id_from_uint64_Inr [simp]:
  "id_from_uint64 v = Inr i \<longleftrightarrow> sid_value i = v \<and> v \<noteq> 0"
  by (cases i) (auto simp: id_from_uint64_def)

lemma id_decode_Inr:
  "id_decode_big_endian bs = Inr i \<longleftrightarrow>
     decode_big_endian bs = Inr (sid_value i) \<and> sid_value i \<noteq> 0"
proof -
  have "(\<lambda>v b. push_bit 8 v OR ucast b) = (decode_step :: u64 \<Rightarrow> byte \<Rightarrow> u64)"
    by (simp add: decode_step_def fun_eq_iff)
  then show ?thesis
    by (auto simp: id_decode_big_endian_def decode_big_endian_def id_encoded_size_def)
qed

interpretation ident: fixed_codec id_encode_big_endian id_decode_big_endian id_encoded_size
    "\<lambda>i. sid_value i \<noteq> 0"
proof unfold_locales
  fix x bs
  show "length (id_encode_big_endian x) = id_encoded_size"
    by (simp add: id_encode_eq id_encoded_size_def)
  show "sid_value x \<noteq> 0 \<Longrightarrow> id_decode_big_endian (id_encode_big_endian x) = Inr x"
    by (simp add: id_decode_Inr id_encode_eq be64.dec_enc)
  show "id_decode_big_endian bs = Inr x \<Longrightarrow> sid_value x \<noteq> 0"
    by (simp add: id_decode_Inr)
  show "id_decode_big_endian bs = Inr x \<Longrightarrow> id_encode_big_endian x = bs"
    by (simp add: id_decode_Inr id_encode_eq be64.enc_dec)
qed

section \<open>Properties\<close>

text \<open>
  no identifier is ever zero: decoding yields one exactly for the eight-byte encodings of
  non-zero identifiers, and two identifiers with the same encoding are equal.
\<close>

theorem identifier_roundtrip:
  "(id_decode_big_endian bs = Inr i \<longleftrightarrow> sid_value i \<noteq> 0 \<and> bs = id_encode_big_endian i) \<and>
   (\<forall>j. id_encode_big_endian i = id_encode_big_endian j \<longleftrightarrow> i = j) \<and>
   length (id_encode_big_endian i) = 8"
proof -
  have "id_encode_big_endian i = id_encode_big_endian j \<longleftrightarrow> i = j" for j
    by (cases i; cases j) (simp add: id_encode_eq be64.enc_inject)
  then show ?thesis
    using ident.dec_iff [of bs i] ident.length_enc [of i] by (simp add: id_encoded_size_def)
qed

end
