(* ===== verification/Guarded_Systems.thy ===== *)
theory Guarded_Systems
  imports Laghu_Prelude
begin

text \<open>
  Programs that drive one component. An operation is executed on a state and yields a result
  and a state, or \<open>None\<close> where the code terminates the process or does not return. The locale
  \<open>guarded_steps\<close> is the contract of a component whose invariant is kept, with a result, by every
  operation that meets its precondition, and \<open>guarded_system\<close> adds an initial state; what follows
  for whole runs is proved once there. The locale \<open>refined_system\<close> is the contract of a component each of
  whose operations does to an abstraction of the state what a specification says.
\<close>

inductive reachable ::
    "('op \<Rightarrow> 's \<Rightarrow> ('r \<times> 's) option) \<Rightarrow> ('op \<Rightarrow> 's \<Rightarrow> bool) \<Rightarrow> 's \<Rightarrow> 's \<Rightarrow> bool"
  for exec ok s0 where
  reachable_start: "reachable exec ok s0 s0"
| reachable_step: "reachable exec ok s0 s \<Longrightarrow> ok op s \<Longrightarrow> exec op s = Some (r, s') \<Longrightarrow>
                   reachable exec ok s0 s'"

primrec run :: "('op \<Rightarrow> 's \<Rightarrow> ('r \<times> 's) option) \<Rightarrow> 'op list \<Rightarrow> 's \<Rightarrow> ('r list \<times> 's) option" where
  "run exec [] s = Some ([], s)"
| "run exec (op # ops) s =
     (case exec op s of
        None \<Rightarrow> None
      | Some (r, s') \<Rightarrow> map_option (\<lambda>(rs, s''). (r # rs, s'')) (run exec ops s'))"

text \<open>Every operation meets its precondition in the state in which it is executed.\<close>

primrec run_ok ::
    "('op \<Rightarrow> 's \<Rightarrow> ('r \<times> 's) option) \<Rightarrow> ('op \<Rightarrow> 's \<Rightarrow> bool) \<Rightarrow> 'op list \<Rightarrow> 's \<Rightarrow> bool" where
  "run_ok exec ok [] s \<longleftrightarrow> True"
| "run_ok exec ok (op # ops) s \<longleftrightarrow>
     ok op s \<and> (case exec op s of None \<Rightarrow> True | Some (r, s') \<Rightarrow> run_ok exec ok ops s')"

locale guarded_steps =
  fixes exec :: "'op \<Rightarrow> 's \<Rightarrow> ('r \<times> 's) option"
    and ok :: "'op \<Rightarrow> 's \<Rightarrow> bool"
    and inv :: "'s \<Rightarrow> bool"
  assumes exec_inv: "inv s \<Longrightarrow> ok op s \<Longrightarrow> \<exists>r s'. exec op s = Some (r, s') \<and> inv s'"
begin

lemma run_inv:
  "inv s \<Longrightarrow> run_ok exec ok ops s \<Longrightarrow>
   \<exists>rs s'. run exec ops s = Some (rs, s') \<and> length rs = length ops \<and> inv s'"
proof (induction ops arbitrary: s)
  case Nil
  then show ?case by simp
next
  case (Cons op ops)
  then obtain r s' where s': "exec op s = Some (r, s')" "inv s'" using exec_inv [of s op] by auto
  with Cons.prems have "run_ok exec ok ops s'" by simp
  with Cons.IH [OF s'(2)] s'(1) show ?case by auto
qed

end

locale guarded_system = guarded_steps exec ok inv
  for exec :: "'op \<Rightarrow> 's \<Rightarrow> ('r \<times> 's) option"
    and ok :: "'op \<Rightarrow> 's \<Rightarrow> bool"
    and init :: 's
    and inv :: "'s \<Rightarrow> bool" +
  assumes inv_init: "inv init"
begin

lemma reachable_inv: "reachable exec ok init s \<Longrightarrow> inv s"
proof (induction rule: reachable.induct)
  case reachable_start
  show ?case by (rule inv_init)
next
  case (reachable_step s op r s')
  then show ?case using exec_inv [of s op] by auto
qed

lemma reachable_exec:
  "reachable exec ok init s \<Longrightarrow> ok op s \<Longrightarrow>
   \<exists>r s'. exec op s = Some (r, s') \<and> reachable exec ok init s'"
  using exec_inv [OF reachable_inv, of s op] reachable.reachable_step [of exec ok init s op] by blast

lemma run_total:
  "reachable exec ok init s \<Longrightarrow> run_ok exec ok ops s \<Longrightarrow>
   \<exists>rs s'. run exec ops s = Some (rs, s') \<and> length rs = length ops \<and> reachable exec ok init s'"
proof (induction ops arbitrary: s)
  case Nil
  then show ?case by simp
next
  case (Cons op ops)
  then obtain r s' where s': "exec op s = Some (r, s')" "reachable exec ok init s'"
    using reachable_exec [of s op] by auto
  with Cons.prems have "run_ok exec ok ops s'" by simp
  then obtain rs s'' where "run exec ops s' = Some (rs, s'')" "length rs = length ops"
      "reachable exec ok init s''"
    using Cons.IH [OF s'(2)] by blast
  with s' show ?case by simp
qed

end

locale refined_system =
  fixes exec :: "'op \<Rightarrow> 's \<Rightarrow> ('r \<times> 's) option"
    and ok :: "'op \<Rightarrow> bool"
    and inv :: "'s \<Rightarrow> bool"
    and abs :: "'s \<Rightarrow> 'a"
    and spec :: "'op \<Rightarrow> 'r \<Rightarrow> 'a \<Rightarrow> 'a"
  assumes exec_refines: "inv s \<Longrightarrow> ok op \<Longrightarrow>
      \<exists>r s'. exec op s = Some (r, s') \<and> inv s' \<and> abs s' = spec op r (abs s)"
begin

lemma run_refines:
  "inv s \<Longrightarrow> list_all ok ops \<Longrightarrow>
   \<exists>rs s'. run exec ops s = Some (rs, s') \<and> length rs = length ops \<and> inv s' \<and>
     abs s' = fold (\<lambda>(op, r). spec op r) (zip ops rs) (abs s)"
proof (induction ops arbitrary: s)
  case Nil
  then show ?case by simp
next
  case (Cons op ops)
  from Cons.prems have ops: "ok op" "list_all ok ops" by simp_all
  from exec_refines [OF Cons.prems(1) ops(1)] obtain r s1 where s1: "exec op s = Some (r, s1)"
    "inv s1" "abs s1 = spec op r (abs s)" by blast
  from Cons.IH [OF s1(2) ops(2)] obtain rs s2 where "run exec ops s1 = Some (rs, s2)"
    "length rs = length ops" "inv s2"
    "abs s2 = fold (\<lambda>(op, r). spec op r) (zip ops rs) (abs s1)" by blast
  with s1 show ?case by (intro exI [of _ "r # rs"] exI [of _ s2]) simp
qed

end

end
