(* ===== verification/Slab_Pool.thy ===== *)
theory Slab_Pool
  imports Identifiers Guarded_Systems "HOL-Library.Multiset"
begin

unbundle bit_operations_syntax

text \<open>
  \<open>src/core/contract/laghu/core/slab_pool.hpp\<close>: a pool of equal slots over storage of the
  caller, with a free list threaded through the vacant slots, and the leases it hands out. One
  pool and the leases of a program are the state; \<open>None\<close> is a call of \<open>std::terminate\<close>. The
  size and the alignment of a slot, and whether the build defines \<open>NDEBUG\<close>, are parameters.
  The pool refines a bounded collection of independent values: a lease reads what its holder
  wrote last, and a slot is never handed out twice.
\<close>

section \<open>Definitions\<close>

record 'a SlabPoolSlot =
  slot_object :: "'a option"
  slot_next :: size_t
  slot_occupied :: bool

record 'a SlabPool =
  pool_worker :: WorkerId
  pool_storage :: "'a SlabPoolSlot list"
  pool_storage_data :: addr
  pool_capacity :: size_t
  pool_alignment :: size_t
  pool_free_head :: size_t
  pool_live_leases :: size_t
  pool_double_release_hook :: bool
  pool_initialized :: bool

text \<open>
  A lease: whether \<open>pool_\<close> points to the pool, the slot index, and the slot whose object
  \<open>value_\<close> points to.
\<close>

record Lease =
  lease_pool :: bool
  lease_index :: size_t
  lease_value :: "nat option"
  lease_active :: bool

text \<open>\<open>sizeof(SlabPoolSlot<T>)\<close> and \<open>alignof(SlabPoolSlot<T>)\<close>.\<close>

record slot_layout =
  layout_size :: size_t
  layout_align :: size_t

definition no_slot :: size_t where
  "no_slot = umax"

definition empty_lease :: Lease where
  "empty_lease = \<lparr>lease_pool = False, lease_index = no_slot, lease_value = None, lease_active = False\<rparr>"

definition slab_pool ::
    "WorkerId \<Rightarrow> 'a SlabPoolSlot list \<Rightarrow> addr \<Rightarrow> size_t \<Rightarrow> size_t \<Rightarrow> bool \<Rightarrow> 'a SlabPool" where
  "slab_pool worker storage data capacity alignment hook =
     \<lparr>pool_worker = worker, pool_storage = storage, pool_storage_data = data,
      pool_capacity = capacity, pool_alignment = alignment, pool_free_head = no_slot,
      pool_live_leases = 0, pool_double_release_hook = hook, pool_initialized = False\<rparr>"

definition destroy_pool :: "'a SlabPool \<Rightarrow> unit option" where
  "destroy_pool pool = (if pool_live_leases pool \<noteq> 0 then None else Some ())"

definition required_storage_bytes :: "slot_layout \<Rightarrow> size_t \<Rightarrow> size_t Result" where
  "required_storage_bytes layout capacity = checked_multiply capacity (layout_size layout)"

definition pool_available :: "'a SlabPool \<Rightarrow> size_t" where
  "pool_available pool = pool_capacity pool - pool_live_leases pool"

definition pool_require_worker :: "'a SlabPool \<Rightarrow> WorkerId \<Rightarrow> unit Result" where
  "pool_require_worker pool worker =
     (if sid_value worker \<noteq> sid_value (pool_worker pool)
        then Inl (core_error EC_invalid_state ''slab pool accessed by a different worker'')
      else Inr ())"

definition is_valid_alignment :: "size_t \<Rightarrow> bool" where
  "is_valid_alignment alignment \<longleftrightarrow> alignment \<noteq> 0 \<and> alignment AND (alignment - 1) = 0"

text \<open>One round of the loop that links the free list.\<close>

definition link_slot :: "size_t \<Rightarrow> 'a SlabPoolSlot list \<Rightarrow> nat \<Rightarrow> 'a SlabPoolSlot list" where
  "link_slot capacity storage index =
     (let next = (if of_nat index + 1 = capacity then no_slot else of_nat index + 1)
      in storage[index := (storage ! index)\<lparr>slot_next := next, slot_occupied := False\<rparr>])"

definition initialize :: "slot_layout \<Rightarrow> 'a SlabPool \<Rightarrow> unit Result \<times> 'a SlabPool" where
  "initialize layout pool =
     (let capacity = pool_capacity pool; alignment = pool_alignment pool in
      if pool_initialized pool then (Inr (), pool)
      else case required_storage_bytes layout capacity of
        Inl e \<Rightarrow> (Inl e, pool)
      | Inr _ \<Rightarrow>
          if \<not> is_valid_alignment alignment \<or> alignment < layout_align layout
            then (Inl (core_error EC_invalid_input ''slab pool alignment is invalid''), pool)
          else if capacity > 1 \<and> layout_size layout mod alignment \<noteq> 0
            then (Inl (core_error EC_invalid_input
                         ''slab pool slot stride does not satisfy selected alignment''), pool)
          else if capacity = 0 then (Inr (), pool\<lparr>pool_initialized := True\<rparr>)
          else if length (pool_storage pool) < unat capacity \<or> pool_storage_data pool = nullptr \<or>
                  pool_storage_data pool mod unat alignment \<noteq> 0
            then (Inl (core_error EC_invalid_input
                         ''slab pool storage does not satisfy its layout''), pool)
          else (Inr (),
                pool\<lparr>pool_storage := foldl (link_slot capacity) (pool_storage pool) [0 ..< unat capacity],
                     pool_free_head := 0, pool_initialized := True\<rparr>))"

text \<open>\<open>value\<close> is what the constructor of the element builds from its arguments.\<close>

definition try_acquire ::
    "slot_layout \<Rightarrow> WorkerId \<Rightarrow> 'a \<Rightarrow> 'a SlabPool \<Rightarrow> (Lease Result \<times> 'a SlabPool) option" where
  "try_acquire layout worker value pool =
     (case pool_require_worker pool worker of
        Inl e \<Rightarrow> Some (Inl e, pool)
      | Inr _ \<Rightarrow>
          (case initialize layout pool of
             (Inl e, pool) \<Rightarrow> Some (Inl e, pool)
           | (Inr _, pool) \<Rightarrow>
               if pool_free_head pool = no_slot
                 then Some (Inl (core_error EC_exhaustion ''slab pool capacity is exhausted''), pool)
               else
                 let index = pool_free_head pool; slot = pool_storage pool ! unat index in
                 if slot_occupied slot \<or> pool_live_leases pool = pool_capacity pool then None
                 else Some (Inr \<lparr>lease_pool = True, lease_index = index,
                                lease_value = Some (unat index), lease_active = True\<rparr>,
                            pool\<lparr>pool_free_head := slot_next slot,
                                 pool_storage := (pool_storage pool)[unat index :=
                                   slot\<lparr>slot_object := Some value, slot_occupied := True\<rparr>],
                                 pool_live_leases := pool_live_leases pool + 1\<rparr>)))"

text \<open>\<open>SlabPool::release_unchecked\<close>; \<open>std::destroy_at\<close> ends the life of the object pointed to.\<close>

definition pool_release_unchecked :: "Lease \<Rightarrow> 'a SlabPool \<Rightarrow> (Lease \<times> 'a SlabPool) option" where
  "pool_release_unchecked lease pool =
     (if \<not> pool_initialized pool \<or> lease_index lease \<ge> pool_capacity pool \<or>
         pool_live_leases pool = 0 then None
      else let index = unat (lease_index lease); slot = pool_storage pool ! index in
        if \<not> slot_occupied slot then None
        else case lease_value lease of
          None \<Rightarrow> None
        | Some object \<Rightarrow>
            let storage = (pool_storage pool)[object := (pool_storage pool ! object)\<lparr>slot_object := None\<rparr>];
                storage = storage[index := (storage ! index)\<lparr>slot_occupied := False,
                                                         slot_next := pool_free_head pool\<rparr>]
            in Some (lease\<lparr>lease_value := None, lease_active := False\<rparr>,
                     pool\<lparr>pool_storage := storage, pool_free_head := lease_index lease,
                          pool_live_leases := pool_live_leases pool - 1\<rparr>))"

definition pool_release ::
    "Lease \<Rightarrow> WorkerId \<Rightarrow> 'a SlabPool \<Rightarrow> (unit Result \<times> Lease \<times> 'a SlabPool) option" where
  "pool_release lease worker pool =
     (case pool_require_worker pool worker of
        Inl e \<Rightarrow> Some (Inl e, lease, pool)
      | Inr _ \<Rightarrow> map_option (\<lambda>(lease, pool). (Inr (), lease, pool)) (pool_release_unchecked lease pool))"

definition inactive_lease_error :: Error where
  "inactive_lease_error = core_error EC_invalid_state ''slab pool lease is inactive''"

definition report_double_release :: "bool \<Rightarrow> 'a SlabPool \<Rightarrow> unit option" where
  "report_double_release ndebug pool =
     (if ndebug then Some ()
      else if pool_double_release_hook pool then Some () else None)"

definition lease_release ::
    "bool \<Rightarrow> Lease \<Rightarrow> WorkerId \<Rightarrow> 'a SlabPool \<Rightarrow> (unit Result \<times> Lease \<times> 'a SlabPool) option" where
  "lease_release ndebug lease worker pool =
     (if \<not> lease_pool lease then Some (Inl inactive_lease_error, lease, pool)
      else if \<not> lease_active lease
        then map_option (\<lambda>_. (Inl inactive_lease_error, lease, pool)) (report_double_release ndebug pool)
      else pool_release lease worker pool)"

definition lease_release_unchecked :: "Lease \<Rightarrow> 'a SlabPool \<Rightarrow> (Lease \<times> 'a SlabPool) option" where
  "lease_release_unchecked lease pool =
     (if lease_active lease then pool_release_unchecked lease pool else Some (lease, pool))"

definition lease_move_from :: "Lease \<Rightarrow> Lease \<times> Lease" where
  "lease_move_from other =
     (\<lparr>lease_pool = lease_pool other, lease_index = lease_index other,
       lease_value = lease_value other, lease_active = lease_active other\<rparr>,
      other\<lparr>lease_pool := False, lease_index := no_slot, lease_value := None, lease_active := False\<rparr>)"

text \<open>Move assignment between two different objects.\<close>

definition lease_move_assign ::
    "Lease \<Rightarrow> Lease \<Rightarrow> 'a SlabPool \<Rightarrow> ((Lease \<times> Lease) \<times> 'a SlabPool) option" where
  "lease_move_assign this other pool =
     map_option (\<lambda>(_, pool). (lease_move_from other, pool)) (lease_release_unchecked this pool)"

text \<open>Reading and assigning through \<open>operator*\<close>.\<close>

definition lease_read :: "Lease \<Rightarrow> 'a SlabPool \<Rightarrow> 'a option" where
  "lease_read lease pool =
     (case lease_value lease of None \<Rightarrow> None | Some i \<Rightarrow> slot_object (pool_storage pool ! i))"

definition lease_write :: "Lease \<Rightarrow> 'a \<Rightarrow> 'a SlabPool \<Rightarrow> 'a SlabPool option" where
  "lease_write lease value pool =
     (case lease_value lease of
        None \<Rightarrow> None
      | Some i \<Rightarrow> Some (pool\<lparr>pool_storage := (pool_storage pool)[i :=
                           (pool_storage pool ! i)\<lparr>slot_object := Some value\<rparr>]\<rparr>))"

section \<open>Programs that use a pool\<close>

record 'a PoolSystem =
  ps_pool :: "'a SlabPool"
  ps_leases :: "Lease list"

datatype 'a pool_op =
    Acquire WorkerId 'a
  | Release_Lease nat WorkerId
  | Move_Construct_Lease nat
  | Move_Assign_Lease nat nat
  | Destroy_Lease nat
  | Write_Lease nat 'a

primrec pool_exec ::
    "bool \<Rightarrow> slot_layout \<Rightarrow> 'a pool_op \<Rightarrow> 'a PoolSystem \<Rightarrow> (unit Result \<times> 'a PoolSystem) option" where
  "pool_exec ndebug layout (Acquire worker value) s =
     map_option (\<lambda>(res, pool).
         case res of
           Inl e \<Rightarrow> (Inl e, s\<lparr>ps_pool := pool\<rparr>)
         | Inr lease \<Rightarrow> (Inr (), \<lparr>ps_pool = pool, ps_leases = ps_leases s @ [lease]\<rparr>))
       (try_acquire layout worker value (ps_pool s))"
| "pool_exec ndebug layout (Release_Lease i worker) s =
     map_option (\<lambda>(res, lease, pool).
         (res, \<lparr>ps_pool = pool, ps_leases = (ps_leases s)[i := lease]\<rparr>))
       (lease_release ndebug (ps_leases s ! i) worker (ps_pool s))"
| "pool_exec ndebug layout (Move_Construct_Lease i) s =
     (let (new, old) = lease_move_from (ps_leases s ! i)
      in Some (Inr (), s\<lparr>ps_leases := (ps_leases s)[i := old] @ [new]\<rparr>))"
| "pool_exec ndebug layout (Move_Assign_Lease i j) s =
     (if i = j then Some (Inr (), s)
      else map_option (\<lambda>((new, old), pool).
               (Inr (), \<lparr>ps_pool = pool, ps_leases = (ps_leases s)[i := new, j := old]\<rparr>))
             (lease_move_assign (ps_leases s ! i) (ps_leases s ! j) (ps_pool s)))"
| "pool_exec ndebug layout (Destroy_Lease i) s =
     map_option (\<lambda>(lease, pool).
         (Inr (), \<lparr>ps_pool = pool, ps_leases = (ps_leases s)[i := lease]\<rparr>))
       (lease_release_unchecked (ps_leases s ! i) (ps_pool s))"
| "pool_exec ndebug layout (Write_Lease i value) s =
     map_option (\<lambda>pool. (Inr (), s\<lparr>ps_pool := pool\<rparr>))
       (lease_write (ps_leases s ! i) value (ps_pool s))"

text \<open>
  The rules a program keeps: lease objects exist, only an active lease is dereferenced, and a
  debug build without a hook does not release a lease twice (it terminates by design).
\<close>

fun pool_op_ok :: "bool \<Rightarrow> 'a pool_op \<Rightarrow> 'a PoolSystem \<Rightarrow> bool" where
  "pool_op_ok ndebug (Acquire _ _) s \<longleftrightarrow> True"
| "pool_op_ok ndebug (Release_Lease i _) s \<longleftrightarrow>
     i < length (ps_leases s) \<and>
     (ndebug \<or> pool_double_release_hook (ps_pool s) \<or>
      lease_active (ps_leases s ! i) \<or> \<not> lease_pool (ps_leases s ! i))"
| "pool_op_ok ndebug (Move_Construct_Lease i) s \<longleftrightarrow> i < length (ps_leases s)"
| "pool_op_ok ndebug (Move_Assign_Lease i j) s \<longleftrightarrow>
     i < length (ps_leases s) \<and> j < length (ps_leases s)"
| "pool_op_ok ndebug (Destroy_Lease i) s \<longleftrightarrow> i < length (ps_leases s)"
| "pool_op_ok ndebug (Write_Lease i _) s \<longleftrightarrow>
     i < length (ps_leases s) \<and> lease_active (ps_leases s ! i)"

section \<open>The invariant\<close>

definition active_slots :: "Lease list \<Rightarrow> nat list" where
  "active_slots leases = map (\<lambda>l. unat (lease_index l)) (filter lease_active leases)"

primrec is_free_list :: "'a SlabPoolSlot list \<Rightarrow> size_t \<Rightarrow> nat list \<Rightarrow> bool" where
  "is_free_list st head [] \<longleftrightarrow> head = no_slot"
| "is_free_list st head (i # rest) \<longleftrightarrow>
     head \<noteq> no_slot \<and> unat head = i \<and> is_free_list st (slot_next (st ! i)) rest"

definition occupied_slots :: "'a SlabPoolSlot list \<Rightarrow> nat \<Rightarrow> nat set" where
  "occupied_slots st n = {i. i < n \<and> slot_occupied (st ! i)}"

definition lease_ok :: "'a SlabPool \<Rightarrow> Lease \<Rightarrow> bool" where
  "lease_ok pool l \<longleftrightarrow>
     (if lease_active l
      then lease_pool l \<and> lease_value l = Some (unat (lease_index l)) \<and>
           slot_object (pool_storage pool ! unat (lease_index l)) \<noteq> None
      else lease_value l = None)"

definition linked :: "'a SlabPool \<Rightarrow> Lease list \<Rightarrow> bool" where
  "linked pool leases \<longleftrightarrow>
     unat (pool_capacity pool) \<le> length (pool_storage pool) \<and>
     set (active_slots leases) = occupied_slots (pool_storage pool) (unat (pool_capacity pool)) \<and>
     (\<exists>fl. is_free_list (pool_storage pool) (pool_free_head pool) fl \<and> distinct fl \<and>
        set fl = {..< unat (pool_capacity pool)} - set (active_slots leases))"

definition pool_ok :: "'a SlabPool \<Rightarrow> Lease list \<Rightarrow> bool" where
  "pool_ok pool leases \<longleftrightarrow>
     (\<forall>l \<in> set leases. lease_ok pool l) \<and> distinct (active_slots leases) \<and>
     unat (pool_live_leases pool) = length (active_slots leases) \<and>
     (if pool_initialized pool then linked pool leases
      else active_slots leases = [] \<and> pool_free_head pool = no_slot)"

definition pool_inv :: "'a PoolSystem \<Rightarrow> bool" where
  "pool_inv s \<longleftrightarrow> pool_ok (ps_pool s) (ps_leases s)"

subsection \<open>The free list\<close>

lemma is_free_list_cong:
  "(\<And>i. i \<in> set fl \<Longrightarrow> slot_next (st' ! i) = slot_next (st ! i)) \<Longrightarrow>
   is_free_list st' head fl = is_free_list st head fl"
  by (induction fl arbitrary: head) auto

lemma is_free_list_update:
  "i \<notin> set fl \<Longrightarrow> is_free_list (st[i := x]) head fl = is_free_list st head fl"
  by (rule is_free_list_cong) (metis nth_list_update_neq)

lemma link_slots:
  assumes "n \<le> length st" "unat capacity \<le> length st"
  shows "length (foldl (link_slot capacity) st [0 ..< n]) = length st" (is ?len)
    and "i < length st \<Longrightarrow> foldl (link_slot capacity) st [0 ..< n] ! i =
      (if i < n
       then (st ! i)\<lparr>slot_next := (if of_nat i + 1 = capacity then no_slot else of_nat i + 1),
                     slot_occupied := False\<rparr>
       else st ! i)"
proof -
  have "length (foldl (link_slot capacity) st [0 ..< n]) = length st \<and>
    (\<forall>i < length st. foldl (link_slot capacity) st [0 ..< n] ! i =
      (if i < n
       then (st ! i)\<lparr>slot_next := (if of_nat i + 1 = capacity then no_slot else of_nat i + 1),
                     slot_occupied := False\<rparr>
       else st ! i))"
    using assms(1)
  proof (induction n)
    case 0
    then show ?case by simp
  next
    case (Suc n)
    then show ?case by (simp add: link_slot_def Let_def nth_list_update less_Suc_eq)
  qed
  then show ?len and "i < length st \<Longrightarrow> foldl (link_slot capacity) st [0 ..< n] ! i =
      (if i < n
       then (st ! i)\<lparr>slot_next := (if of_nat i + 1 = capacity then no_slot else of_nat i + 1),
                     slot_occupied := False\<rparr>
       else st ! i)" by blast+
qed

lemma slot_index_word:
  assumes "k < unat (capacity :: size_t)"
  shows "of_nat k \<noteq> no_slot" "unat (of_nat k :: size_t) = k"
    "of_nat k + 1 = capacity \<longleftrightarrow> Suc k = unat capacity"
proof -
  have bound: "k < 2 ^ 64 - 1" using assms unat_bound [of capacity] by simp
  then show unat_k: "unat (of_nat k :: size_t) = k" by (intro unat_of_nat_small) simp
  have top: "unat (umax :: size_t) = 2 ^ 64 - 1" by (simp add: umax_unat)
  then show ne: "of_nat k \<noteq> no_slot"
    using bound unat_k unfolding no_slot_def by force
  then have "unat (of_nat k + 1 :: size_t) = Suc k"
    using unat_incr [of "of_nat k :: size_t"] unat_k by (simp add: no_slot_def)
  then show "of_nat k + 1 = capacity \<longleftrightarrow> Suc k = unat capacity"
    by (metis word_unat_eq_iff)
qed

lemma linked_free_list:
  assumes "unat capacity \<le> length st" "k < unat capacity"
  shows "is_free_list (foldl (link_slot capacity) st [0 ..< unat capacity]) (of_nat k)
    [k ..< unat capacity]"
  using assms(2)
proof (induction "unat capacity - k" arbitrary: k)
  case 0
  then show ?case by simp
next
  case (Suc d)
  have next_slot: "slot_next (foldl (link_slot capacity) st [0 ..< unat capacity] ! k)
      = (if Suc k = unat capacity then no_slot else of_nat (Suc k))"
    using assms(1) Suc.prems slot_index_word(3) [OF Suc.prems]
    by (simp add: link_slots(2) [OF assms(1) assms(1)] add.commute)
  have cons: "[k ..< unat capacity] = k # [Suc k ..< unat capacity]"
    using Suc.prems by (simp add: upt_conv_Cons)
  show ?case
  proof (cases "Suc k = unat capacity")
    case True
    then show ?thesis using cons next_slot slot_index_word [OF Suc.prems] by simp
  next
    case False
    then have "is_free_list (foldl (link_slot capacity) st [0 ..< unat capacity]) (of_nat (Suc k))
        [Suc k ..< unat capacity]"
      using Suc by (intro Suc.hyps) auto
    then show ?thesis using cons next_slot False slot_index_word [OF Suc.prems] by simp
  qed
qed

lemma initialize_cases:
  obtains (error) e where "initialize layout pool = (Inl e, pool)"
  | (ready) "initialize layout pool = (Inr (), pool)" "pool_initialized pool"
  | (empty) "initialize layout pool = (Inr (), pool\<lparr>pool_initialized := True\<rparr>)"
      "\<not> pool_initialized pool" "pool_capacity pool = 0"
  | (link) "initialize layout pool = (Inr (),
        pool\<lparr>pool_storage := foldl (link_slot (pool_capacity pool)) (pool_storage pool)
                              [0 ..< unat (pool_capacity pool)],
             pool_free_head := 0, pool_initialized := True\<rparr>)"
      "\<not> pool_initialized pool" "pool_capacity pool \<noteq> 0"
      "unat (pool_capacity pool) \<le> length (pool_storage pool)"
proof (cases "pool_initialized pool")
  case True
  then show ?thesis by (intro ready) (simp_all add: initialize_def)
next
  case False
  show ?thesis
  proof (cases "required_storage_bytes layout (pool_capacity pool)")
    case (Inl e)
    with False show ?thesis by (intro error) (simp add: initialize_def)
  next
    case (Inr n)
    define bad_align where "bad_align \<longleftrightarrow>
      \<not> is_valid_alignment (pool_alignment pool) \<or> pool_alignment pool < layout_align layout"
    define bad_stride where "bad_stride \<longleftrightarrow>
      pool_capacity pool > 1 \<and> layout_size layout mod pool_alignment pool \<noteq> 0"
    define bad_storage where "bad_storage \<longleftrightarrow>
      length (pool_storage pool) < unat (pool_capacity pool) \<or> pool_storage_data pool = nullptr \<or>
      pool_storage_data pool mod unat (pool_alignment pool) \<noteq> 0"
    note init = initialize_def [of layout pool, unfolded Let_def if_not_P [OF False] Inr sum.case,
      folded bad_align_def bad_stride_def bad_storage_def]
    consider bad_align | "\<not> bad_align" bad_stride
      | "\<not> bad_align" "\<not> bad_stride" "pool_capacity pool = 0"
      | "\<not> bad_align" "\<not> bad_stride" "pool_capacity pool \<noteq> 0" bad_storage
      | "\<not> bad_align" "\<not> bad_stride" "pool_capacity pool \<noteq> 0" "\<not> bad_storage" by blast
    then show ?thesis
    proof cases
      case 3
      then show ?thesis by (intro empty False) (simp_all add: init)
    next
      case 5
      then have "unat (pool_capacity pool) \<le> length (pool_storage pool)"
        by (simp add: bad_storage_def)
      with 5 show ?thesis by (intro link False) (simp_all add: init)
    qed (rule error, simp add: init)+
  qed
qed

lemma inactive_read:
  assumes "pool_ok pool leases" "\<not> pool_initialized pool" "l \<in> set leases"
  shows "lease_value l = None" "\<not> lease_active l"
proof -
  show "\<not> lease_active l"
    using assms by (auto simp: pool_ok_def active_slots_def filter_empty_conv)
  then show "lease_value l = None" using assms by (auto simp: pool_ok_def lease_ok_def)
qed

lemma initialize_ok:
  assumes ok: "pool_ok pool leases" and init: "initialize layout pool = (r, pool')"
  shows "pool_ok pool' leases" "r = Inr () \<Longrightarrow> pool_initialized pool'"
    "r = Inl e \<Longrightarrow> pool' = pool"
    "\<And>l. l \<in> set leases \<Longrightarrow> lease_read l pool' = lease_read l pool"
    "pool_worker pool' = pool_worker pool" "pool_capacity pool' = pool_capacity pool"
proof -
  have "pool_ok pool' leases \<and> (r = Inr () \<longrightarrow> pool_initialized pool') \<and> (r = Inl e \<longrightarrow> pool' = pool) \<and>
    (\<forall>l \<in> set leases. lease_read l pool' = lease_read l pool) \<and>
    pool_worker pool' = pool_worker pool \<and> pool_capacity pool' = pool_capacity pool"
  proof (cases rule: initialize_cases [of layout pool])
    case empty
    then have "active_slots leases = []" "pool_free_head pool = no_slot"
      using ok by (simp_all add: pool_ok_def)
    then have "linked (pool\<lparr>pool_initialized := True\<rparr>) leases"
      using empty by (simp add: linked_def occupied_slots_def)
    with empty ok init show ?thesis
      by (auto simp: pool_ok_def lease_ok_def lease_read_def split: option.split)
  next
    case link
    let ?st = "foldl (link_slot (pool_capacity pool)) (pool_storage pool) [0 ..< unat (pool_capacity pool)]"
    have none: "active_slots leases = []" using ok link by (simp add: pool_ok_def)
    have inactive: "lease_value l = None" "\<not> lease_active l" if "l \<in> set leases" for l
      using inactive_read [OF ok link(2) that] by simp_all
    have "0 < unat (pool_capacity pool)" using link(3) by (simp add: unat_gt_0)
    from linked_free_list [OF link(4) this] have "is_free_list ?st 0 [0 ..< unat (pool_capacity pool)]"
      by simp
    moreover have "occupied_slots ?st (unat (pool_capacity pool)) = {}"
      using link(4) by (auto simp: occupied_slots_def link_slots(2) [OF link(4) link(4)])
    ultimately have "linked pool' leases"
      using link(1,4) init none link_slots(1) [OF link(4) link(4)]
      by (auto simp: linked_def intro!: exI [of _ "[0 ..< unat (pool_capacity pool)]"])
    with link ok init none inactive show ?thesis
      by (auto simp: pool_ok_def lease_ok_def lease_read_def)
  qed (use ok init in auto)
  then show "pool_ok pool' leases" "r = Inr () \<Longrightarrow> pool_initialized pool'"
    "r = Inl e \<Longrightarrow> pool' = pool" "\<And>l. l \<in> set leases \<Longrightarrow> lease_read l pool' = lease_read l pool"
    "pool_worker pool' = pool_worker pool" "pool_capacity pool' = pool_capacity pool"
    by blast+
qed

subsection \<open>Acquiring and releasing\<close>

lemma active_slots_simps:
  "active_slots (ls @ [l]) = active_slots ls @ (if lease_active l then [unat (lease_index l)] else [])"
  by (simp add: active_slots_def)

lemma active_slotsI:
  "l \<in> set leases \<Longrightarrow> lease_active l \<Longrightarrow> unat (lease_index l) \<in> set (active_slots leases)"
  by (simp add: active_slots_def)

lemma other_lease:
  assumes "lease_ok pool l" "pool_storage pool' = (pool_storage pool)[i := x]"
    and "lease_active l \<Longrightarrow> unat (lease_index l) \<noteq> i"
  shows "lease_read l pool' = lease_read l pool" "lease_ok pool' l"
  using assms by (cases "lease_active l"; simp add: lease_ok_def lease_read_def)+

lemma active_slots_split:
  assumes "k < length leases"
  shows "active_slots leases = active_slots (take k leases) @
      (if lease_active (leases ! k) then [unat (lease_index (leases ! k))] else []) @
      active_slots (drop (Suc k) leases)"
    "active_slots (leases[k := l]) = active_slots (take k leases) @
      (if lease_active l then [unat (lease_index l)] else []) @ active_slots (drop (Suc k) leases)"
proof -
  have split: "active_slots (xs @ l # ys) = active_slots xs @
      (if lease_active l then [unat (lease_index l)] else []) @ active_slots ys" for xs l ys
    by (simp add: active_slots_def)
  show "active_slots leases = active_slots (take k leases) @
      (if lease_active (leases ! k) then [unat (lease_index (leases ! k))] else []) @
      active_slots (drop (Suc k) leases)"
    using split [of "take k leases" "leases ! k" "drop (Suc k) leases"] id_take_nth_drop [OF assms]
    by simp
  show "active_slots (leases[k := l]) = active_slots (take k leases) @
      (if lease_active l then [unat (lease_index l)] else []) @ active_slots (drop (Suc k) leases)"
    unfolding upd_conv_take_nth_drop [OF assms] by (rule split)
qed

lemma release_slots:
  assumes "k < length leases" "lease_active (leases ! k)" "\<not> lease_active l"
    and "distinct (active_slots leases)"
  defines "i \<equiv> unat (lease_index (leases ! k))"
  shows "set (active_slots (leases[k := l])) = set (active_slots leases) - {i}"
    "distinct (active_slots (leases[k := l]))"
    "length (active_slots leases) = Suc (length (active_slots (leases[k := l])))"
    "\<And>j. j < length leases \<Longrightarrow> j \<noteq> k \<Longrightarrow> lease_active (leases ! j) \<Longrightarrow> unat (lease_index (leases ! j)) \<noteq> i"
proof -
  have before: "active_slots leases = active_slots (take k leases) @ i # active_slots (drop (Suc k) leases)"
    and after: "active_slots (leases[k := l]) = active_slots (take k leases) @ active_slots (drop (Suc k) leases)"
    using active_slots_split [OF assms(1)] assms(2,3) by (simp_all add: i_def)
  show set: "set (active_slots (leases[k := l])) = set (active_slots leases) - {i}"
    "distinct (active_slots (leases[k := l]))"
    "length (active_slots leases) = Suc (length (active_slots (leases[k := l])))"
    using assms(4) unfolding before after by auto
  show "unat (lease_index (leases ! j)) \<noteq> i"
    if "j < length leases" "j \<noteq> k" "lease_active (leases ! j)" for j
  proof -
    have "leases ! j \<in> set (leases[k := l])"
      using that(1,2) by (metis length_list_update nth_list_update_neq nth_mem)
    from active_slotsI [OF this that(3)] set(1) show ?thesis by auto
  qed
qed

lemma capacity_bound:
  assumes "linked pool leases" "distinct (active_slots leases)"
    and "i < unat (pool_capacity pool)" "i \<notin> set (active_slots leases)"
  shows "length (active_slots leases) < unat (pool_capacity pool)"
proof -
  have "set (active_slots leases) \<subset> {..< unat (pool_capacity pool)}"
    using assms(1,3,4) by (auto simp: linked_def occupied_slots_def)
  then have "card (set (active_slots leases)) < card {..< unat (pool_capacity pool)}"
    by (intro psubset_card_mono) auto
  then show ?thesis using assms(2) by (simp add: distinct_card)
qed

text \<open>Taking the first slot of the free list.\<close>

lemma acquire_slot_ok:
  fixes pool :: "'a SlabPool" and leases v
  assumes ok: "pool_ok pool leases" "pool_initialized pool" and head: "pool_free_head pool \<noteq> no_slot"
  defines "index \<equiv> pool_free_head pool"
  defines "slot \<equiv> pool_storage pool ! unat index"
  defines "lease \<equiv> \<lparr>lease_pool = True, lease_index = index, lease_value = Some (unat index),
                    lease_active = True\<rparr>"
  defines "pool' \<equiv> pool\<lparr>pool_free_head := slot_next slot,
      pool_storage := (pool_storage pool)[unat index :=
        slot\<lparr>slot_object := Some v, slot_occupied := True\<rparr>],
      pool_live_leases := pool_live_leases pool + 1\<rparr>"
  shows "\<not> slot_occupied slot" "pool_live_leases pool \<noteq> pool_capacity pool"
    "pool_ok pool' (leases @ [lease])" "lease_read lease pool' = Some v"
    "\<And>l. l \<in> set leases \<Longrightarrow> lease_read l pool' = lease_read l pool"
    "length (active_slots leases) < unat (pool_capacity pool)"
proof -
  let ?st = "pool_storage pool" and ?N = "unat (pool_capacity pool)" and ?A = "set (active_slots leases)"
  have linked: "linked pool leases" and distinct: "distinct (active_slots leases)"
    and live: "unat (pool_live_leases pool) = length (active_slots leases)"
    using ok by (simp_all add: pool_ok_def)
  obtain fl where fl: "is_free_list ?st index fl" "distinct fl" "set fl = {..< ?N} - ?A"
    using linked by (auto simp: linked_def index_def)
  obtain fl' where fl': "fl = unat index # fl'" using fl(1) head by (cases fl) (auto simp: index_def)
  have i: "unat index < ?N" "unat index \<notin> ?A" using fl(3) fl' by auto
  have occ: "?A = occupied_slots ?st ?N" using linked by (simp add: linked_def)
  with i show free: "\<not> slot_occupied slot" by (auto simp: occupied_slots_def slot_def)
  show room: "length (active_slots leases) < ?N" by (rule capacity_bound [OF linked distinct i])
  with live show "pool_live_leases pool \<noteq> pool_capacity pool" by auto
  have "pool_live_leases pool \<noteq> umax"
    using room live unat_bound [of "pool_capacity pool"] umax_unat [where 'a = 64] by auto
  then have live': "unat (pool_live_leases pool + 1) = unat (pool_live_leases pool) + 1"
    by (rule unat_incr)
  have other: "unat (lease_index l) \<noteq> unat index" if "l \<in> set leases" "lease_active l" for l
    using active_slotsI [OF that] i(2) by metis
  have len: "unat index < length ?st" using linked i(1) by (simp add: linked_def)
  have lease_slots: "active_slots (leases @ [lease]) = active_slots leases @ [unat index]"
    by (simp add: active_slots_simps lease_def)
  have "is_free_list (pool_storage pool') (pool_free_head pool') fl'"
    using fl(1,2) unfolding fl' by (simp add: pool'_def slot_def is_free_list_update)
  moreover have "occupied_slots (pool_storage pool') ?N = insert (unat index) ?A"
    using i(1) len occ by (auto simp: occupied_slots_def pool'_def nth_list_update)
  ultimately have "linked pool' (leases @ [lease])"
    using linked fl unfolding linked_def lease_slots fl' by (auto simp: pool'_def)
  moreover have "lease_ok pool' l" if "l \<in> set (leases @ [lease])" for l
    using that ok(1) other len
    by (auto simp: pool_ok_def lease_ok_def pool'_def lease_def nth_list_update split: if_splits)
  ultimately show "pool_ok pool' (leases @ [lease])"
    using ok distinct live live' i(2) unfolding pool_ok_def lease_slots by (simp add: pool'_def)
  show "lease_read lease pool' = Some v"
    using len by (simp add: lease_read_def lease_def pool'_def)
  show "lease_read l pool' = lease_read l pool" if "l \<in> set leases" for l
    using that ok(1) other [OF that]
    by (intro other_lease(1) [where i = "unat index"]) (auto simp: pool_ok_def pool'_def)
qed

text \<open>Pushing a slot to the free list.\<close>

lemma release_slot_ok:
  assumes ok: "pool_ok pool leases" and k: "k < length leases" "lease_active (leases ! k)"
  shows "\<exists>pool'. pool_release_unchecked (leases ! k) pool
      = Some ((leases ! k)\<lparr>lease_value := None, lease_active := False\<rparr>, pool') \<and>
    pool_ok pool' (leases[k := (leases ! k)\<lparr>lease_value := None, lease_active := False\<rparr>]) \<and>
    (\<forall>j < length leases. j \<noteq> k \<longrightarrow> lease_read (leases ! j) pool' = lease_read (leases ! j) pool) \<and>
    pool_worker pool' = pool_worker pool \<and> pool_double_release_hook pool' = pool_double_release_hook pool"
proof -
  let ?l = "leases ! k"
  let ?l' = "?l\<lparr>lease_value := None, lease_active := False\<rparr>"
  let ?st = "pool_storage pool" and ?N = "unat (pool_capacity pool)" and ?A = "set (active_slots leases)"
  let ?i = "unat (lease_index ?l)"
  have l: "lease_value ?l = Some ?i" "?l \<in> set leases"
    using ok k by (auto simp: pool_ok_def lease_ok_def)
  have i: "?i \<in> ?A" using active_slotsI [OF l(2) k(2)] .
  then have init: "pool_initialized pool" using ok by (auto simp: pool_ok_def split: if_splits)
  have linked: "linked pool leases" and distinct: "distinct (active_slots leases)"
    and live: "unat (pool_live_leases pool) = length (active_slots leases)"
    using ok init by (simp_all add: pool_ok_def)
  have occ: "?A = occupied_slots ?st ?N" using linked by (simp add: linked_def)
  with i have bounds: "?i < ?N" "slot_occupied (?st ! ?i)" by (auto simp: occupied_slots_def)
  have len: "?i < length ?st" using bounds(1) linked by (simp add: linked_def)
  have pos: "pool_live_leases pool \<noteq> 0" using live i by auto
  define pool' where "pool' = pool\<lparr>pool_storage := ?st[?i :=
      (?st ! ?i)\<lparr>slot_object := None, slot_occupied := False, slot_next := pool_free_head pool\<rparr>],
    pool_free_head := lease_index ?l, pool_live_leases := pool_live_leases pool - 1\<rparr>"
  have run: "pool_release_unchecked ?l pool = Some (?l', pool')"
    using init bounds len pos l(1)
    by (simp add: pool_release_unchecked_def pool'_def word_le_nat_alt not_le Let_def)
  have inactive: "\<not> lease_active ?l'" by simp
  note slots = release_slots [OF k inactive distinct]
  have other: "lease_read (leases ! j) pool' = lease_read (leases ! j) pool" "lease_ok pool' (leases ! j)"
    if "j < length leases" "j \<noteq> k" for j
  proof -
    have "lease_ok pool (leases ! j)" using ok that(1) by (simp add: pool_ok_def)
    moreover have "pool_storage pool' = ?st[?i := pool_storage pool' ! ?i]"
      using len by (simp add: pool'_def)
    ultimately show "lease_read (leases ! j) pool' = lease_read (leases ! j) pool"
        "lease_ok pool' (leases ! j)"
      using other_lease slots(4) [OF that] by blast+
  qed
  have "lease_ok pool' x" if "x \<in> set (leases[k := ?l'])" for x
  proof -
    from that obtain j where j: "j < length leases" "x = leases[k := ?l'] ! j"
      by (auto simp: in_set_conv_nth)
    then show ?thesis using other(2) k(1) by (cases "j = k") (simp_all add: lease_ok_def)
  qed
  moreover have "linked pool' (leases[k := ?l'])"
  proof -
    obtain fl where fl: "is_free_list ?st (pool_free_head pool) fl" "distinct fl" "set fl = {..< ?N} - ?A"
      using linked by (auto simp: linked_def)
    have "lease_index ?l \<noteq> no_slot"
      using slot_index_word(1) [OF bounds(1)] by simp
    moreover have "?i \<notin> set fl" using fl(3) i by auto
    ultimately have "is_free_list (pool_storage pool') (pool_free_head pool') (?i # fl)" "distinct (?i # fl)"
      using fl(1,2) len by (simp_all add: pool'_def is_free_list_update)
    moreover have "set (?i # fl) = {..< ?N} - set (active_slots (leases[k := ?l']))"
      using fl(3) slots(1) bounds(1) by auto
    moreover have "set (active_slots (leases[k := ?l'])) = occupied_slots (pool_storage pool') ?N"
      using slots(1) occ len by (auto simp: occupied_slots_def pool'_def nth_list_update)
    ultimately show ?thesis
      using linked unfolding linked_def by (auto simp: pool'_def intro!: exI [of _ "?i # fl"])
  qed
  ultimately have "pool_ok pool' (leases[k := ?l'])"
    using init live slots(2,3) unat_minus_one [OF pos] unfolding pool_ok_def by (simp add: pool'_def)
  with run other show ?thesis by (simp add: pool'_def)
qed

section \<open>The pool as a collection of values\<close>

text \<open>What each lease object of the program holds.\<close>

definition pool_values :: "'a PoolSystem \<Rightarrow> 'a option list" where
  "pool_values s = map (\<lambda>l. lease_read l (ps_pool s)) (ps_leases s)"

text \<open>What an operation, successful or not, does to them.\<close>

primrec value_step :: "'a pool_op \<Rightarrow> bool \<Rightarrow> 'a option list \<Rightarrow> 'a option list" where
  "value_step (Acquire worker v) success vs = (if success then vs @ [Some v] else vs)"
| "value_step (Release_Lease i worker) success vs = (if success then vs[i := None] else vs)"
| "value_step (Move_Construct_Lease i) success vs = vs[i := None] @ [vs ! i]"
| "value_step (Move_Assign_Lease i j) success vs = (if i = j then vs else vs[i := vs ! j, j := None])"
| "value_step (Destroy_Lease i) success vs = vs[i := None]"
| "value_step (Write_Lease i v) success vs = vs[i := Some v]"

lemma try_acquire_ok:
  assumes ok: "pool_ok pool leases"
  shows "\<exists>r pool'. try_acquire layout worker v pool = Some (r, pool') \<and>
    (\<forall>l \<in> set leases. lease_read l pool' = lease_read l pool) \<and>
    (case r of Inl e \<Rightarrow> pool_ok pool' leases
     | Inr lease \<Rightarrow> pool_ok pool' (leases @ [lease]) \<and> lease_read lease pool' = Some v)"
proof (cases "pool_require_worker pool worker")
  case (Inl e)
  with ok show ?thesis by (simp add: try_acquire_def)
next
  case (Inr u)
  obtain res pool1 where init: "initialize layout pool = (res, pool1)" by fastforce
  note ok1 = initialize_ok [OF ok init]
  show ?thesis
  proof (cases res)
    case (Inl e)
    with Inr init ok1(3) [OF Inl] ok show ?thesis by (simp add: try_acquire_def)
  next
    case (Inr u')
    then have ready: "pool_initialized pool1" using ok1(2) by simp
    show ?thesis
    proof (cases "pool_free_head pool1 = no_slot")
      case True
      with Inr \<open>pool_require_worker pool worker = Inr u\<close> init ok1(1,4) show ?thesis
        by (simp add: try_acquire_def)
    next
      case False
      note acq = acquire_slot_ok(1,2) [OF ok1(1) ready False]
        acquire_slot_ok(3-5) [OF ok1(1) ready False, where v = v]
      from Inr \<open>pool_require_worker pool worker = Inr u\<close> init False acq ok1(4) show ?thesis
        by (simp add: try_acquire_def Let_def)
    qed
  qed
qed

lemma pool_values_update:
  assumes "k < length leases"
    and "\<forall>j < length leases. j \<noteq> k \<longrightarrow> lease_read (leases ! j) pool' = lease_read (leases ! j) pool"
    and "lease_read l pool' = x"
  shows "map (\<lambda>l. lease_read l pool') (leases[k := l]) = (map (\<lambda>l. lease_read l pool) leases)[k := x]"
  using assms by (auto simp: list_eq_iff_nth_eq nth_list_update)

lemma lease_release_unchecked_ok:
  assumes ok: "pool_ok pool leases" and k: "k < length leases"
  shows "\<exists>l' pool'. lease_release_unchecked (leases ! k) pool = Some (l', pool') \<and>
    pool_ok pool' (leases[k := l']) \<and> lease_value l' = None \<and> \<not> lease_active l' \<and>
    map (\<lambda>l. lease_read l pool') (leases[k := l']) = (map (\<lambda>l. lease_read l pool) leases)[k := None]"
proof (cases "lease_active (leases ! k)")
  case True
  let ?l = "(leases ! k)\<lparr>lease_value := None, lease_active := False\<rparr>"
  from release_slot_ok [OF ok k True] obtain pool' where
    pool': "pool_release_unchecked (leases ! k) pool = Some (?l, pool')" "pool_ok pool' (leases[k := ?l])"
      "\<forall>j < length leases. j \<noteq> k \<longrightarrow> lease_read (leases ! j) pool' = lease_read (leases ! j) pool"
    by blast
  have "lease_read ?l pool' = None" by (simp add: lease_read_def)
  from pool_values_update [OF k pool'(3) this] True pool' show ?thesis
    by (simp add: lease_release_unchecked_def)
next
  case False
  have "lease_value (leases ! k) = None"
    using False ok k by (auto simp: pool_ok_def lease_ok_def)
  then have "lease_read (leases ! k) pool = None" by (simp add: lease_read_def)
  then have "(map (\<lambda>l. lease_read l pool) leases)[k := None] = map (\<lambda>l. lease_read l pool) leases"
    using k by (metis list_update_id nth_map)
  with False ok \<open>lease_value (leases ! k) = None\<close> show ?thesis
    by (simp add: lease_release_unchecked_def)
qed

lemma lease_release_ok:
  assumes ok: "pool_ok pool leases" and k: "k < length leases"
    and dbg: "ndebug \<or> pool_double_release_hook pool \<or> lease_active (leases ! k) \<or> \<not> lease_pool (leases ! k)"
  shows "\<exists>r l' pool'. lease_release ndebug (leases ! k) worker pool = Some (r, l', pool') \<and>
    pool_ok pool' (leases[k := l']) \<and>
    map (\<lambda>l. lease_read l pool') (leases[k := l'])
      = (if isl r then map (\<lambda>l. lease_read l pool) leases
         else (map (\<lambda>l. lease_read l pool) leases)[k := None])"
proof (cases "lease_active (leases ! k)")
  case True
  have attached: "lease_pool (leases ! k)" using True ok k by (auto simp: pool_ok_def lease_ok_def)
  from lease_release_unchecked_ok [OF ok k] True attached ok show ?thesis
    by (cases "pool_require_worker pool worker")
      (auto simp: lease_release_def lease_release_unchecked_def pool_release_def)
next
  case False
  with dbg ok show ?thesis
    by (auto simp: lease_release_def report_double_release_def)
qed

lemma acquire_iff:
  assumes ok: "pool_ok pool leases" and ready: "pool_initialized pool"
  shows "(\<exists>lease pool'. try_acquire layout (pool_worker pool) v pool = Some (Inr lease, pool')) \<longleftrightarrow>
    length (filter lease_active leases) < unat (pool_capacity pool)"
proof -
  have init: "initialize layout pool = (Inr (), pool)" using ready by (simp add: initialize_def)
  have worker: "pool_require_worker pool (pool_worker pool) = Inr ()" by (simp add: pool_require_worker_def)
  have count: "length (filter lease_active leases) = length (active_slots leases)"
    by (simp add: active_slots_def)
  show ?thesis
  proof (cases "pool_free_head pool = no_slot")
    case True
    from ok ready obtain fl where "is_free_list (pool_storage pool) (pool_free_head pool) fl"
        "set fl = {..< unat (pool_capacity pool)} - set (active_slots leases)"
      by (auto simp: pool_ok_def linked_def)
    with True have "{..< unat (pool_capacity pool)} \<subseteq> set (active_slots leases)" by (cases fl) auto
    then have "card {..< unat (pool_capacity pool)} \<le> card (set (active_slots leases))"
      by (intro card_mono) auto
    also have "\<dots> \<le> length (active_slots leases)" by (rule card_length)
    finally show ?thesis using True init worker count by (simp add: try_acquire_def)
  next
    case False
    then show ?thesis
      using acquire_slot_ok(1,2,6) [OF ok ready False] init worker count
      by (simp add: try_acquire_def Let_def)
  qed
qed

lemma lease_move_from_eq: "lease_move_from l = (l, empty_lease)"
  by (cases l) (simp add: lease_move_from_def empty_lease_def)

lemma pool_ok_permuted:
  assumes "pool_ok pool leases"
    and "\<And>l. l \<in> set leases' \<Longrightarrow> l = empty_lease \<or> l \<in> set leases"
    and "mset (active_slots leases') = mset (active_slots leases)"
  shows "pool_ok pool leases'"
proof -
  have "set (active_slots leases') = set (active_slots leases)"
    "length (active_slots leases') = length (active_slots leases)"
    "distinct (active_slots leases') = distinct (active_slots leases)"
    using assms(3) mset_eq_setD mset_eq_length mset_eq_imp_distinct_iff by blast+
  moreover have "lease_ok pool l" if "l \<in> set leases'" for l
    using assms(1) assms(2) [OF that] by (auto simp: pool_ok_def lease_ok_def empty_lease_def)
  moreover from calculation(1) have "linked pool leases' \<longleftrightarrow> linked pool leases" by (simp add: linked_def)
  ultimately show ?thesis
    using assms(1) by (auto simp: pool_ok_def split: if_splits)
qed

lemma lease_read_empty [simp]: "lease_read empty_lease pool = None"
  by (simp add: lease_read_def empty_lease_def)

lemma move_construct_lease_ok:
  assumes ok: "pool_ok pool leases" and k: "k < length leases"
  shows "pool_ok pool (leases[k := empty_lease] @ [leases ! k])"
proof (rule pool_ok_permuted [OF ok])
  show "l = empty_lease \<or> l \<in> set leases" if "l \<in> set (leases[k := empty_lease] @ [leases ! k])" for l
    using that k set_update_subset_insert [of leases k empty_lease] by auto
  show "mset (active_slots (leases[k := empty_lease] @ [leases ! k])) = mset (active_slots leases)"
    using active_slots_split [OF k] by (simp add: active_slots_simps empty_lease_def)
qed

lemma move_inactive_lease_ok:
  assumes ok: "pool_ok pool leases" and ij: "i < length leases" "j < length leases" "i \<noteq> j"
    and inactive: "\<not> lease_active (leases ! i)"
  shows "pool_ok pool (leases[i := leases ! j, j := empty_lease])"
proof (rule pool_ok_permuted [OF ok])
  show "l = empty_lease \<or> l \<in> set leases" if "l \<in> set (leases[i := leases ! j, j := empty_lease])" for l
  proof -
    have "l \<in> insert empty_lease (insert (leases ! j) (set leases))"
      using that set_update_subset_insert [of leases i "leases ! j"]
        set_update_subset_insert [of "leases[i := leases ! j]" j empty_lease] by blast
    then show ?thesis using ij(2) by auto
  qed
  have "mset (active_slots (leases[i := leases ! j, j := empty_lease]))
      + mset (if lease_active (leases ! j) then [unat (lease_index (leases ! j))] else [])
      = mset (active_slots (leases[i := leases ! j]))"
    using active_slots_split(1) [of j "leases[i := leases ! j]"]
      active_slots_split(2) [of j "leases[i := leases ! j]" empty_lease] ij
    by (simp add: empty_lease_def)
  also have "\<dots> = mset (active_slots leases)
      + mset (if lease_active (leases ! j) then [unat (lease_index (leases ! j))] else [])"
    using active_slots_split(1) [OF ij(1)] active_slots_split(2) [OF ij(1), of "leases ! j"] inactive
    by simp
  finally show "mset (active_slots (leases[i := leases ! j, j := empty_lease])) = mset (active_slots leases)"
    by simp
qed

lemma lease_write_ok:
  assumes ok: "pool_ok pool leases" and k: "k < length leases" "lease_active (leases ! k)"
  shows "\<exists>pool'. lease_write (leases ! k) v pool = Some pool' \<and> pool_ok pool' leases \<and>
    map (\<lambda>l. lease_read l pool') leases = (map (\<lambda>l. lease_read l pool) leases)[k := Some v]"
proof -
  let ?l = "leases ! k"
  let ?i = "unat (lease_index ?l)"
  let ?slot = "(pool_storage pool ! ?i)\<lparr>slot_object := Some v\<rparr>"
  define pool' where "pool' = pool\<lparr>pool_storage := (pool_storage pool)[?i := ?slot]\<rparr>"
  have l: "lease_value ?l = Some ?i" "?l \<in> set leases"
    using ok k by (auto simp: pool_ok_def lease_ok_def)
  have i: "?i \<in> set (active_slots leases)" using active_slotsI [OF l(2) k(2)] .
  then have linked: "linked pool leases" using ok by (auto simp: pool_ok_def split: if_splits)
  with i have len: "?i < length (pool_storage pool)" by (auto simp: linked_def occupied_slots_def)
  have distinct: "distinct (active_slots leases)" using ok by (simp add: pool_ok_def)
  have other: "lease_read (leases ! j) pool' = lease_read (leases ! j) pool"
      "lease_ok pool' (leases ! j)" if "j < length leases" "j \<noteq> k" for j
  proof -
    have "unat (lease_index (leases ! j)) \<noteq> ?i" if "lease_active (leases ! j)"
      using release_slots(4) [OF k _ distinct \<open>j < length leases\<close> \<open>j \<noteq> k\<close> that, of empty_lease]
      by (simp add: empty_lease_def)
    then show "lease_read (leases ! j) pool' = lease_read (leases ! j) pool"
        "lease_ok pool' (leases ! j)"
      using ok that(1) other_lease [of pool "leases ! j" pool' ?i ?slot]
      by (auto simp: pool_ok_def pool'_def)
  qed
  have self: "lease_read ?l pool' = Some v" "lease_ok pool' ?l"
    using l k len ok by (auto simp: lease_read_def lease_ok_def pool'_def pool_ok_def)
  have "map (\<lambda>l. lease_read l pool') (leases[k := ?l]) = (map (\<lambda>l. lease_read l pool) leases)[k := Some v]"
    using other(1) by (intro pool_values_update [OF k(1) _ self(1)]) blast
  moreover have "lease_ok pool' x" if "x \<in> set leases" for x
    using that other(2) self(2) by (metis in_set_conv_nth)
  moreover have "linked pool' leases"
  proof -
    have fl: "is_free_list (pool_storage pool') head fl = is_free_list (pool_storage pool) head fl" for head fl
      using len by (intro is_free_list_cong) (simp add: pool'_def nth_list_update)
    have occ: "occupied_slots (pool_storage pool') n = occupied_slots (pool_storage pool) n" for n
      using len by (auto simp: occupied_slots_def pool'_def nth_list_update)
    have fields: "pool_capacity pool' = pool_capacity pool" "pool_free_head pool' = pool_free_head pool"
        "length (pool_storage pool') = length (pool_storage pool)"
      by (simp_all add: pool'_def)
    show ?thesis using linked unfolding linked_def fl occ fields .
  qed
  ultimately show ?thesis
    using ok l(1) by (auto simp: lease_write_def pool_ok_def pool'_def split: if_splits)
qed

lemma pool_exec_ok:
  assumes "pool_inv s" and "pool_op_ok ndebug op s"
  shows "\<exists>r s'. pool_exec ndebug layout op s = Some (r, s') \<and> pool_inv s' \<and>
    pool_values s' = value_step op (\<not> isl r) (pool_values s)"
proof -
  obtain pool leases where s: "s = \<lparr>ps_pool = pool, ps_leases = leases\<rparr>" by (cases s)
  have ok: "pool_ok pool leases" using assms(1) by (simp add: pool_inv_def s)
  show ?thesis
  proof (cases op)
    case (Acquire worker v)
    from try_acquire_ok [OF ok, of layout worker v] obtain r pool' where
      "try_acquire layout worker v pool = Some (r, pool')"
      "\<forall>l \<in> set leases. lease_read l pool' = lease_read l pool"
      "case r of Inl e \<Rightarrow> pool_ok pool' leases
       | Inr lease \<Rightarrow> pool_ok pool' (leases @ [lease]) \<and> lease_read lease pool' = Some v" by blast
    with Acquire show ?thesis by (cases r) (simp_all add: s pool_inv_def pool_values_def)
  next
    case (Release_Lease i worker)
    with assms(2) lease_release_ok [OF ok, of i ndebug worker] show ?thesis
      by (auto simp: s pool_inv_def pool_values_def)
  next
    case (Move_Construct_Lease i)
    with assms(2) move_construct_lease_ok [OF ok, of i] show ?thesis
      by (auto simp: s pool_inv_def pool_values_def lease_move_from_eq map_update)
  next
    case (Move_Assign_Lease i j)
    then have ij: "i < length leases" "j < length leases" using assms(2) by (simp_all add: s)
    from lease_release_unchecked_ok [OF ok ij(1)] obtain l' pool' where
      l': "lease_release_unchecked (leases ! i) pool = Some (l', pool')"
      "pool_ok pool' (leases[i := l'])" "\<not> lease_active l'"
      "map (\<lambda>l. lease_read l pool') (leases[i := l']) = (map (\<lambda>l. lease_read l pool) leases)[i := None]"
      by blast
    show ?thesis
    proof (cases "i = j")
      case False
      have "lease_read (leases ! j) pool' = lease_read (leases ! j) pool"
        using arg_cong [OF l'(4), of "\<lambda>vs. vs ! j"] ij False by simp
      moreover have "pool_ok pool' (leases[i := leases ! j, j := empty_lease])"
        using move_inactive_lease_ok [OF l'(2), of i j] ij False l'(3) by simp
      moreover have "map (\<lambda>l. lease_read l pool') (leases[i := leases ! j])
          = (map (\<lambda>l. lease_read l pool) leases)[i := lease_read (leases ! j) pool']"
        using arg_cong [OF l'(4), of "\<lambda>vs. vs[i := lease_read (leases ! j) pool']"] by (simp add: map_update)
      ultimately show ?thesis
        using Move_Assign_Lease False l'(1) ij
        by (simp add: s pool_inv_def pool_values_def lease_move_assign_def lease_move_from_eq map_update)
    qed (use Move_Assign_Lease ok in \<open>simp add: s pool_inv_def\<close>)
  next
    case (Destroy_Lease i)
    with assms(2) lease_release_unchecked_ok [OF ok, of i] show ?thesis
      by (auto simp: s pool_inv_def pool_values_def)
  next
    case (Write_Lease i v)
    with assms(2) lease_write_ok [OF ok, of i v] show ?thesis
      by (auto simp: s pool_inv_def pool_values_def)
  qed
qed

lemma fresh_pool_ok: "pool_ok (slab_pool worker storage data capacity alignment hook) []"
  by (simp add: pool_ok_def slab_pool_def active_slots_def)

definition pool_init ::
    "WorkerId \<Rightarrow> 'a SlabPoolSlot list \<Rightarrow> addr \<Rightarrow> size_t \<Rightarrow> size_t \<Rightarrow> bool \<Rightarrow> 'a PoolSystem" where
  "pool_init worker storage data capacity alignment hook =
     \<lparr>ps_pool = slab_pool worker storage data capacity alignment hook, ps_leases = []\<rparr>"

interpretation pool_sys: guarded_system "pool_exec ndebug layout" "pool_op_ok ndebug"
    "pool_init worker storage data capacity alignment hook" pool_inv
  for ndebug layout worker storage data capacity alignment hook
proof
  show "pool_inv (pool_init worker storage data capacity alignment hook)"
    by (simp add: pool_inv_def pool_init_def fresh_pool_ok)
  show "\<exists>r s'. pool_exec ndebug layout op s = Some (r, s') \<and> pool_inv s'"
    if "pool_inv s" "pool_op_ok ndebug op s" for s :: "'a PoolSystem" and op
    using pool_exec_ok [OF that] by blast
qed

lemma active_slots_unique:
  assumes "distinct (active_slots leases)" and "i < length leases" "j < length leases" "i \<noteq> j"
    and "lease_active (leases ! i)" "lease_active (leases ! j)"
  shows "lease_index (leases ! i) \<noteq> lease_index (leases ! j)"
  using release_slots(4) [OF assms(3) assms(6) _ assms(1) assms(2) assms(4) assms(5), of empty_lease]
  by (auto simp: empty_lease_def)

text \<open>A pool of two slots, for evaluation.\<close>

definition demo_pool :: "nat PoolSystem" where
  "demo_pool = pool_init \<lparr>sid_value = 7\<rparr>
     [\<lparr>slot_object = None, slot_next = 0, slot_occupied = False\<rparr>,
      \<lparr>slot_object = None, slot_next = 0, slot_occupied = False\<rparr>] 64 2 8 False"

lemma demo_pool_acquire:
  "\<exists>s. pool_exec True \<lparr>layout_size = 32, layout_align = 8\<rparr> (Acquire \<lparr>sid_value = 7\<rparr> 5) demo_pool
      = Some (Inr (), s) \<and> pool_initialized (ps_pool s)"
  by (simp add: demo_pool_def pool_init_def slab_pool_def try_acquire_def pool_require_worker_def
      initialize_def required_storage_bytes_def checked_multiply_def is_valid_alignment_def
      link_slot_def no_slot_def upt_rec Let_def)

section \<open>Properties\<close>

text \<open>
  C4: the pool refines a collection of independent values. In every state a program can reach,
  every permitted operation returns (no \<open>std::terminate\<close>), and its effect on what the leases of
  the program hold is that of the specification: acquiring adds one lease with the constructed
  value, releasing or destroying empties that lease, moving transfers the value, writing changes
  the written one, a refused operation changes nothing, and no other lease is affected.
\<close>

theorem pool_refines_values:
  assumes "reachable (pool_exec ndebug layout) (pool_op_ok ndebug)
             (pool_init worker storage data capacity alignment hook) s"
    and "pool_op_ok ndebug op s"
  shows "\<exists>r s'. pool_exec ndebug layout op s = Some (r, s') \<and>
    pool_values s' = value_step op (\<not> isl r) (pool_values s)"
  using pool_exec_ok [OF pool_sys.reachable_inv [OF assms(1)] assms(2)] by blast

theorem pool_refines_values_witness:
  "\<exists>r s'. pool_exec True \<lparr>layout_size = 32, layout_align = 8\<rparr> (Acquire \<lparr>sid_value = 7\<rparr> (5 :: nat))
      demo_pool = Some (r, s') \<and>
    pool_values s' = value_step (Acquire \<lparr>sid_value = 7\<rparr> 5) (\<not> isl r) (pool_values demo_pool)"
  by (rule pool_refines_values [OF reachable_start [where ?s0.0 = demo_pool, unfolded demo_pool_def],
        folded demo_pool_def]) simp

text \<open>
  C6: no slot is handed out twice and the free list loses none. In every reachable state two
  different active leases refer to different slots, their number is the pool's counter, and
  once the pool is set up a further acquisition by its worker succeeds exactly if fewer leases
  than the capacity are active.
\<close>

theorem pool_exclusive_and_complete:
  assumes "reachable (pool_exec ndebug layout) (pool_op_ok ndebug)
             (pool_init worker storage data capacity alignment hook) s"
  shows "(\<forall>i < length (ps_leases s). \<forall>j < length (ps_leases s). i \<noteq> j \<longrightarrow>
      lease_active (ps_leases s ! i) \<longrightarrow> lease_active (ps_leases s ! j) \<longrightarrow>
      lease_index (ps_leases s ! i) \<noteq> lease_index (ps_leases s ! j)) \<and>
    unat (pool_live_leases (ps_pool s)) = length (filter lease_active (ps_leases s)) \<and>
    (pool_initialized (ps_pool s) \<longrightarrow>
       (\<exists>lease pool'. try_acquire layout (pool_worker (ps_pool s)) v (ps_pool s) = Some (Inr lease, pool'))
         \<longleftrightarrow> length (filter lease_active (ps_leases s)) < unat (pool_capacity (ps_pool s)))"
proof -
  have ok: "pool_ok (ps_pool s) (ps_leases s)"
    using pool_sys.reachable_inv [OF assms] by (simp add: pool_inv_def)
  have "distinct (active_slots (ps_leases s))"
    and live: "unat (pool_live_leases (ps_pool s)) = length (filter lease_active (ps_leases s))"
    using ok by (simp_all add: pool_ok_def active_slots_def)
  then show ?thesis
    using active_slots_unique acquire_iff [OF ok, of layout v] by blast
qed

theorem pool_exclusive_and_complete_witness:
  "\<exists>s. pool_exec True \<lparr>layout_size = 32, layout_align = 8\<rparr> (Acquire \<lparr>sid_value = 7\<rparr> 5) demo_pool
      = Some (Inr (), s) \<and> pool_initialized (ps_pool s) \<and>
    ((\<exists>lease pool'. try_acquire \<lparr>layout_size = 32, layout_align = 8\<rparr> (pool_worker (ps_pool s)) 6 (ps_pool s)
        = Some (Inr lease, pool'))
      \<longleftrightarrow> length (filter lease_active (ps_leases s)) < unat (pool_capacity (ps_pool s)))"
proof -
  obtain s where s: "pool_exec True \<lparr>layout_size = 32, layout_align = 8\<rparr>
      (Acquire \<lparr>sid_value = 7\<rparr> 5) demo_pool = Some (Inr (), s)" "pool_initialized (ps_pool s)"
    using demo_pool_acquire by blast
  have "reachable (pool_exec True \<lparr>layout_size = 32, layout_align = 8\<rparr>) (pool_op_ok True) demo_pool s"
    using s(1) by (rule reachable_step [OF reachable_start, rotated]) simp
  from pool_exclusive_and_complete [OF this [unfolded demo_pool_def], of 6] s show ?thesis by blast
qed

end
