(* ===== verification/Memory_Budget.thy ===== *)
theory Memory_Budget
  imports Identifiers Guarded_Systems
begin

text \<open>
  \<open>src/core/contract/laghu/core/memory_budget.hpp\<close>: hierarchical memory budgets, the
  reservations that charge them and the emergency reserve. Budgets live in a heap, because a
  reservation charges its budget and every ancestor through parent pointers. A call returns
  \<open>None\<close> where the code calls \<open>std::terminate\<close>, follows a dangling pointer or does not return;
  the lemmas show that no such call happens in a program that keeps the lifetime rules.
\<close>

section \<open>Definitions\<close>

record MemoryBudget =
  mb_worker :: WorkerId
  mb_limit :: size_t
  mb_charged :: size_t
  mb_live_reservations :: size_t
  mb_live_children :: size_t
  mb_parent :: "addr option"

record MemoryReservation =
  mr_budget :: "addr option"
  mr_bytes :: size_t

type_synonym budgets = "addr \<rightharpoonup> MemoryBudget"

definition empty_reservation :: MemoryReservation where
  "empty_reservation = \<lparr>mr_budget = None, mr_bytes = 0\<rparr>"

definition is_active :: "MemoryReservation \<Rightarrow> bool" where
  "is_active r \<longleftrightarrow> mr_budget r \<noteq> None"

text \<open>The constructor of a root budget.\<close>

definition root_budget :: "WorkerId \<Rightarrow> size_t \<Rightarrow> MemoryBudget" where
  "root_budget worker limit =
     \<lparr>mb_worker = worker, mb_limit = limit, mb_charged = 0, mb_live_reservations = 0,
      mb_live_children = 0, mb_parent = None\<rparr>"

definition register_child :: "MemoryBudget \<Rightarrow> MemoryBudget option" where
  "register_child b =
     (if mb_live_children b = umax then None
      else Some (b\<lparr>mb_live_children := mb_live_children b + 1\<rparr>))"

definition unregister_child :: "MemoryBudget \<Rightarrow> MemoryBudget option" where
  "unregister_child b =
     (if mb_live_children b = 0 then None
      else Some (b\<lparr>mb_live_children := mb_live_children b - 1\<rparr>))"

text \<open>The constructor of a child budget at the address \<open>this\<close>.\<close>

definition child_budget :: "addr \<Rightarrow> addr \<Rightarrow> size_t \<Rightarrow> budgets \<Rightarrow> budgets option" where
  "child_budget this parent limit h =
     do { p \<leftarrow> h parent;
          p' \<leftarrow> register_child p;
          Some (h(parent \<mapsto> p',
                  this \<mapsto> \<lparr>mb_worker = mb_worker p, mb_limit = limit, mb_charged = 0,
                           mb_live_reservations = 0, mb_live_children = 0,
                           mb_parent = Some parent\<rparr>)) }"

text \<open>The destructor.\<close>

definition destroy_budget :: "addr \<Rightarrow> budgets \<Rightarrow> budgets option" where
  "destroy_budget this h =
     do { b \<leftarrow> h this;
          if mb_live_reservations b \<noteq> 0 \<or> mb_live_children b \<noteq> 0 then None
          else (case mb_parent b of
                  None \<Rightarrow> Some (h(this := None))
                | Some parent \<Rightarrow>
                    do { p \<leftarrow> h parent;
                         p' \<leftarrow> unregister_child p;
                         Some (h(parent \<mapsto> p', this := None)) }) }"

definition owns :: "MemoryBudget \<Rightarrow> WorkerId \<Rightarrow> bool" where
  "owns b worker \<longleftrightarrow> sid_value (mb_worker b) = sid_value worker"

definition require_worker :: "MemoryBudget \<Rightarrow> WorkerId \<Rightarrow> unit Result" where
  "require_worker b worker =
     (if \<not> owns b worker
        then Inl (core_error EC_invalid_state ''memory budget accessed by a different worker'')
      else Inr ())"

definition lifetime_error :: Error where
  "lifetime_error =
     core_error EC_invalid_state ''memory budget still has live children or reservations''"

definition charged :: "MemoryBudget \<Rightarrow> WorkerId \<Rightarrow> size_t Result" where
  "charged b worker =
     (case require_worker b worker of Inl e \<Rightarrow> Inl e | Inr _ \<Rightarrow> Inr (mb_charged b))"

definition available :: "MemoryBudget \<Rightarrow> WorkerId \<Rightarrow> size_t Result" where
  "available b worker =
     (case require_worker b worker of Inl e \<Rightarrow> Inl e | Inr _ \<Rightarrow> Inr (mb_limit b - mb_charged b))"

definition ready_for_destruction :: "MemoryBudget \<Rightarrow> WorkerId \<Rightarrow> unit Result" where
  "ready_for_destruction b worker =
     (case require_worker b worker of
        Inl e \<Rightarrow> Inl e
      | Inr _ \<Rightarrow> if mb_live_reservations b \<noteq> 0 \<or> mb_live_children b \<noteq> 0
                 then Inl lifetime_error else Inr ())"

subsection \<open>Loops over a budget and its ancestors\<close>

text \<open>
  \<open>for (current = this; current != nullptr; current = current->parent_)\<close> with a body that
  replaces the current budget or terminates.
\<close>

partial_function (option) each_ancestor ::
    "(MemoryBudget \<Rightarrow> MemoryBudget option) \<Rightarrow> addr option \<Rightarrow> budgets \<Rightarrow> budgets option" where
  "each_ancestor body current h =
     (case current of
        None \<Rightarrow> Some h
      | Some a \<Rightarrow> do { b \<leftarrow> h a; b' \<leftarrow> body b; each_ancestor body (mb_parent b') (h(a \<mapsto> b')) })"

partial_function (option) preflight_reservation ::
    "addr option \<Rightarrow> size_t \<Rightarrow> budgets \<Rightarrow> unit Result option" where
  "preflight_reservation current bytes h =
     (case current of
        None \<Rightarrow> Some (Inr ())
      | Some a \<Rightarrow>
          do { b \<leftarrow> h a;
               if bytes > mb_limit b - mb_charged b
                 then Some (Inl (core_error EC_exhaustion ''memory budget capacity is exhausted''))
               else if mb_live_reservations b = umax
                 then Some (Inl (core_error EC_overflow ''memory budget reservation count overflow''))
               else preflight_reservation (mb_parent b) bytes h })"

definition charge_reservation :: "size_t \<Rightarrow> MemoryBudget \<Rightarrow> MemoryBudget option" where
  "charge_reservation bytes b =
     Some (b\<lparr>mb_charged := mb_charged b + bytes,
             mb_live_reservations := mb_live_reservations b + 1\<rparr>)"

definition release_charge :: "size_t \<Rightarrow> MemoryBudget \<Rightarrow> MemoryBudget option" where
  "release_charge bytes b =
     (if mb_charged b < bytes \<or> mb_live_reservations b = 0 then None
      else Some (b\<lparr>mb_charged := mb_charged b - bytes,
                   mb_live_reservations := mb_live_reservations b - 1\<rparr>))"

definition grow_charge :: "size_t \<Rightarrow> MemoryBudget \<Rightarrow> MemoryBudget option" where
  "grow_charge bytes b = Some (b\<lparr>mb_charged := mb_charged b + bytes\<rparr>)"

definition shrink_charge :: "size_t \<Rightarrow> MemoryBudget \<Rightarrow> MemoryBudget option" where
  "shrink_charge bytes b =
     (if mb_charged b < bytes then None else Some (b\<lparr>mb_charged := mb_charged b - bytes\<rparr>))"

subsection \<open>Reserving\<close>

definition reserve ::
    "addr \<Rightarrow> WorkerId \<Rightarrow> size_t \<Rightarrow> budgets \<Rightarrow> (MemoryReservation Result \<times> budgets) option" where
  "reserve this worker bytes h =
     do { b \<leftarrow> h this;
          case require_worker b worker of
            Inl e \<Rightarrow> Some (Inl e, h)
          | Inr _ \<Rightarrow>
              do { preflight \<leftarrow> preflight_reservation (Some this) bytes h;
                   case preflight of
                     Inl e \<Rightarrow> Some (Inl e, h)
                   | Inr _ \<Rightarrow>
                       do { h' \<leftarrow> each_ancestor (charge_reservation bytes) (Some this) h;
                            Some (Inr \<lparr>mr_budget = Some this, mr_bytes = bytes\<rparr>, h') } } }"

definition release :: "addr \<Rightarrow> size_t \<Rightarrow> budgets \<Rightarrow> budgets option" where
  "release this bytes h = each_ancestor (release_charge bytes) (Some this) h"

definition release_unchecked ::
    "MemoryReservation \<Rightarrow> budgets \<Rightarrow> (MemoryReservation \<times> budgets) option" where
  "release_unchecked r h =
     (case mr_budget r of
        None \<Rightarrow> Some (r, h)
      | Some budget \<Rightarrow>
          do { h' \<leftarrow> release budget (mr_bytes r) h;
               Some (r\<lparr>mr_budget := None, mr_bytes := 0\<rparr>, h') })"

text \<open>
  The charge-before-acquire path; the caller's callable \<open>acquire\<close> runs on the caller's state
  \<open>w\<close>, and only after the charge. On its failure the local reservation is destroyed, which
  releases the charge.
\<close>

definition reserve_for_allocation ::
    "addr \<Rightarrow> WorkerId \<Rightarrow> size_t \<Rightarrow> ('w \<Rightarrow> unit Result \<times> 'w) \<Rightarrow> budgets \<Rightarrow> 'w \<Rightarrow>
     (MemoryReservation Result \<times> budgets \<times> 'w) option" where
  "reserve_for_allocation this worker bytes acquire h w =
     do { (reservation, h) \<leftarrow> reserve this worker bytes h;
          case reservation of
            Inl e \<Rightarrow> Some (Inl e, h, w)
          | Inr r \<Rightarrow>
              (case acquire w of
                 (Inl e, w) \<Rightarrow> do { (_, h) \<leftarrow> release_unchecked r h; Some (Inl e, h, w) }
               | (Inr _, w) \<Rightarrow> Some (Inr r, h, w)) }"

definition grow_reservation ::
    "addr \<Rightarrow> MemoryReservation \<Rightarrow> size_t \<Rightarrow> budgets \<Rightarrow>
     (unit Result \<times> MemoryReservation \<times> budgets) option" where
  "grow_reservation this r additional_bytes h =
     (if mr_budget r \<noteq> Some this then Some (Inl lifetime_error, r, h)
      else do { preflight \<leftarrow> preflight_reservation (Some this) additional_bytes h;
                case preflight of
                  Inl e \<Rightarrow> Some (Inl e, r, h)
                | Inr _ \<Rightarrow>
                    if additional_bytes > umax - mr_bytes r
                      then Some (Inl (core_error EC_overflow
                                        ''memory budget reservation size overflow''), r, h)
                    else do { h' \<leftarrow> each_ancestor (grow_charge additional_bytes) (Some this) h;
                              Some (Inr (), r\<lparr>mr_bytes := mr_bytes r + additional_bytes\<rparr>, h') } })"

definition shrink_reservation ::
    "addr \<Rightarrow> MemoryReservation \<Rightarrow> size_t \<Rightarrow> budgets \<Rightarrow>
     (unit Result \<times> MemoryReservation \<times> budgets) option" where
  "shrink_reservation this r bytes h =
     (if mr_budget r \<noteq> Some this then Some (Inl lifetime_error, r, h)
      else if bytes > mr_bytes r
        then Some (Inl (core_error EC_invalid_range
                          ''memory reservation cannot shrink below zero''), r, h)
      else do { h' \<leftarrow> each_ancestor (shrink_charge bytes) (Some this) h;
                Some (Inr (), r\<lparr>mr_bytes := mr_bytes r - bytes\<rparr>, h') })"

subsection \<open>Reservations\<close>

definition reservation_release ::
    "MemoryReservation \<Rightarrow> WorkerId \<Rightarrow> budgets \<Rightarrow>
     (unit Result \<times> MemoryReservation \<times> budgets) option" where
  "reservation_release r worker h =
     (case mr_budget r of
        None \<Rightarrow> Some (Inr (), r, h)
      | Some budget \<Rightarrow>
          do { b \<leftarrow> h budget;
               case require_worker b worker of
                 Inl e \<Rightarrow> Some (Inl e, r, h)
               | Inr _ \<Rightarrow> do { (r', h') \<leftarrow> release_unchecked r h; Some (Inr (), r', h') } })"

definition reservation_grow ::
    "MemoryReservation \<Rightarrow> WorkerId \<Rightarrow> size_t \<Rightarrow> budgets \<Rightarrow>
     (unit Result \<times> MemoryReservation \<times> budgets) option" where
  "reservation_grow r worker additional_bytes h =
     (case mr_budget r of
        None \<Rightarrow> Some (Inl (core_error EC_invalid_state
                             ''inactive memory reservation cannot grow''), r, h)
      | Some budget \<Rightarrow>
          do { b \<leftarrow> h budget;
               case require_worker b worker of
                 Inl e \<Rightarrow> Some (Inl e, r, h)
               | Inr _ \<Rightarrow> grow_reservation budget r additional_bytes h })"

definition reservation_shrink ::
    "MemoryReservation \<Rightarrow> WorkerId \<Rightarrow> size_t \<Rightarrow> budgets \<Rightarrow>
     (unit Result \<times> MemoryReservation \<times> budgets) option" where
  "reservation_shrink r worker bytes h =
     (case mr_budget r of
        None \<Rightarrow> Some (Inl (core_error EC_invalid_state
                             ''inactive memory reservation cannot shrink''), r, h)
      | Some budget \<Rightarrow>
          do { b \<leftarrow> h budget;
               case require_worker b worker of
                 Inl e \<Rightarrow> Some (Inl e, r, h)
               | Inr _ \<Rightarrow> shrink_reservation budget r bytes h })"

text \<open>\<open>move_from\<close>: the new value of the target and what is left in the source.\<close>

definition move_from :: "MemoryReservation \<Rightarrow> MemoryReservation \<times> MemoryReservation" where
  "move_from other =
     (\<lparr>mr_budget = mr_budget other, mr_bytes = mr_bytes other\<rparr>,
      other\<lparr>mr_budget := None, mr_bytes := 0\<rparr>)"

text \<open>Move assignment between two different objects.\<close>

definition move_assign ::
    "MemoryReservation \<Rightarrow> MemoryReservation \<Rightarrow> budgets \<Rightarrow>
     ((MemoryReservation \<times> MemoryReservation) \<times> budgets) option" where
  "move_assign this other h =
     do { (_, h) \<leftarrow> release_unchecked this h; Some (move_from other, h) }"

subsection \<open>The emergency reserve\<close>

text \<open>
  The reserve holds a root budget of its own; \<open>this\<close> is the address of that member.
\<close>

definition emergency_reserve :: "WorkerId \<Rightarrow> size_t \<Rightarrow> MemoryBudget" where
  "emergency_reserve worker limit = root_budget worker limit"

definition reserve_emergency ::
    "addr \<Rightarrow> WorkerId \<Rightarrow> size_t \<Rightarrow> budgets \<Rightarrow> (MemoryReservation Result \<times> budgets) option" where
  "reserve_emergency this worker bytes h = reserve this worker bytes h"

definition reserve_emergency_for_allocation ::
    "addr \<Rightarrow> WorkerId \<Rightarrow> size_t \<Rightarrow> ('w \<Rightarrow> unit Result \<times> 'w) \<Rightarrow> budgets \<Rightarrow> 'w \<Rightarrow>
     (MemoryReservation Result \<times> budgets \<times> 'w) option" where
  "reserve_emergency_for_allocation this worker bytes acquire h w =
     reserve_for_allocation this worker bytes acquire h w"

definition emergency_charged :: "addr \<Rightarrow> WorkerId \<Rightarrow> budgets \<Rightarrow> size_t Result option" where
  "emergency_charged this worker h = map_option (\<lambda>b. charged b worker) (h this)"

definition emergency_ready_for_destruction :: "addr \<Rightarrow> WorkerId \<Rightarrow> budgets \<Rightarrow> unit Result option" where
  "emergency_ready_for_destruction this worker h =
     map_option (\<lambda>b. ready_for_destruction b worker) (h this)"

section \<open>Programs that use budgets\<close>

text \<open>
  The budgets and the reservation objects of a program. An object is named by its position; a
  destroyed reservation stays as an inactive entry.
\<close>

record BudgetSystem =
  sys_budgets :: budgets
  sys_reservations :: "MemoryReservation list"

datatype budget_op =
    New_Root addr WorkerId size_t
  | New_Child addr addr size_t
  | Reserve addr WorkerId size_t
  | Reserve_For_Allocation addr WorkerId size_t "unit Result"
  | Grow nat WorkerId size_t
  | Shrink nat WorkerId size_t
  | Release nat WorkerId
  | Move_Construct nat
  | Move_Assign nat nat
  | Destroy_Reservation nat
  | Destroy_Budget addr

definition add_reservation ::
    "(MemoryReservation Result \<times> budgets) \<Rightarrow> BudgetSystem \<Rightarrow> unit Result \<times> BudgetSystem" where
  "add_reservation res s =
     (case res of
        (Inl e, h) \<Rightarrow> (Inl e, s\<lparr>sys_budgets := h\<rparr>)
      | (Inr r, h) \<Rightarrow> (Inr (), \<lparr>sys_budgets = h, sys_reservations = sys_reservations s @ [r]\<rparr>))"

definition set_reservation ::
    "nat \<Rightarrow> (unit Result \<times> MemoryReservation \<times> budgets) \<Rightarrow> BudgetSystem \<Rightarrow>
     unit Result \<times> BudgetSystem" where
  "set_reservation i res s =
     (case res of (u, r, h) \<Rightarrow>
        (u, \<lparr>sys_budgets = h, sys_reservations = (sys_reservations s)[i := r]\<rparr>))"

primrec budget_exec :: "budget_op \<Rightarrow> BudgetSystem \<Rightarrow> (unit Result \<times> BudgetSystem) option" where
  "budget_exec (New_Root this worker limit) s =
     Some (Inr (), s\<lparr>sys_budgets := (sys_budgets s)(this \<mapsto> root_budget worker limit)\<rparr>)"
| "budget_exec (New_Child this parent limit) s =
     map_option (\<lambda>h. (Inr (), s\<lparr>sys_budgets := h\<rparr>)) (child_budget this parent limit (sys_budgets s))"
| "budget_exec (Reserve this worker bytes) s =
     map_option (\<lambda>res. add_reservation res s) (reserve this worker bytes (sys_budgets s))"
| "budget_exec (Reserve_For_Allocation this worker bytes acquire) s =
     map_option (\<lambda>(res, h, _). add_reservation (res, h) s)
       (reserve_for_allocation this worker bytes (Pair acquire) (sys_budgets s) ())"
| "budget_exec (Grow i worker bytes) s =
     map_option (\<lambda>res. set_reservation i res s)
       (reservation_grow (sys_reservations s ! i) worker bytes (sys_budgets s))"
| "budget_exec (Shrink i worker bytes) s =
     map_option (\<lambda>res. set_reservation i res s)
       (reservation_shrink (sys_reservations s ! i) worker bytes (sys_budgets s))"
| "budget_exec (Release i worker) s =
     map_option (\<lambda>res. set_reservation i res s)
       (reservation_release (sys_reservations s ! i) worker (sys_budgets s))"
| "budget_exec (Move_Construct i) s =
     (let (new, old) = move_from (sys_reservations s ! i)
      in Some (Inr (), s\<lparr>sys_reservations := (sys_reservations s)[i := old] @ [new]\<rparr>))"
| "budget_exec (Move_Assign i j) s =
     (if i = j then Some (Inr (), s)
      else map_option
             (\<lambda>((new, old), h). (Inr (), \<lparr>sys_budgets = h,
                sys_reservations = (sys_reservations s)[i := new, j := old]\<rparr>))
             (move_assign (sys_reservations s ! i) (sys_reservations s ! j) (sys_budgets s)))"
| "budget_exec (Destroy_Reservation i) s =
     map_option (\<lambda>(r, h). set_reservation i (Inr (), r, h) s)
       (release_unchecked (sys_reservations s ! i) (sys_budgets s))"
| "budget_exec (Destroy_Budget this) s =
     map_option (\<lambda>h. (Inr (), s\<lparr>sys_budgets := h\<rparr>)) (destroy_budget this (sys_budgets s))"

text \<open>
  The rules a program keeps: objects exist when they are used, a new budget has an address of
  its own in the address space, and a budget is destroyed only when nothing depends on it.
\<close>

fun budget_op_ok :: "budget_op \<Rightarrow> BudgetSystem \<Rightarrow> bool" where
  "budget_op_ok (New_Root this _ _) s \<longleftrightarrow> 0 < this \<and> this < 2 ^ 64 \<and> sys_budgets s this = None"
| "budget_op_ok (New_Child this parent _) s \<longleftrightarrow>
     0 < this \<and> this < 2 ^ 64 \<and> sys_budgets s this = None \<and> sys_budgets s parent \<noteq> None"
| "budget_op_ok (Reserve this _ _) s \<longleftrightarrow> sys_budgets s this \<noteq> None"
| "budget_op_ok (Reserve_For_Allocation this _ _ _) s \<longleftrightarrow> sys_budgets s this \<noteq> None"
| "budget_op_ok (Grow i _ _) s \<longleftrightarrow> i < length (sys_reservations s)"
| "budget_op_ok (Shrink i _ _) s \<longleftrightarrow> i < length (sys_reservations s)"
| "budget_op_ok (Release i _) s \<longleftrightarrow> i < length (sys_reservations s)"
| "budget_op_ok (Move_Construct i) s \<longleftrightarrow> i < length (sys_reservations s)"
| "budget_op_ok (Move_Assign i j) s \<longleftrightarrow>
     i < length (sys_reservations s) \<and> j < length (sys_reservations s)"
| "budget_op_ok (Destroy_Reservation i) s \<longleftrightarrow> i < length (sys_reservations s)"
| "budget_op_ok (Destroy_Budget this) s \<longleftrightarrow>
     (case sys_budgets s this of
        None \<Rightarrow> False
      | Some b \<Rightarrow> ready_for_destruction b (mb_worker b) = Inr ())"

definition budget_init :: BudgetSystem where
  "budget_init = \<lparr>sys_budgets = Map.empty, sys_reservations = []\<rparr>"

section \<open>Chains of ancestors\<close>

text \<open>The budget at a pointer followed by its ancestors.\<close>

partial_function (option) budget_chain :: "budgets \<Rightarrow> addr option \<Rightarrow> addr list option" where
  "budget_chain h current =
     (case current of
        None \<Rightarrow> Some []
      | Some a \<Rightarrow> do { b \<leftarrow> h a; xs \<leftarrow> budget_chain h (mb_parent b); Some (a # xs) })"

lemma budget_chain_None [simp]: "budget_chain h None = Some []"
  by (subst budget_chain.simps) simp

lemma budget_chain_Some:
  "budget_chain h (Some a) = Some xs \<longleftrightarrow>
     (\<exists>b ys. h a = Some b \<and> budget_chain h (mb_parent b) = Some ys \<and> xs = a # ys)"
  by (subst budget_chain.simps) (auto simp: bind_eq_Some_conv)

lemma budget_chain_Nil [simp]: "budget_chain h current = Some [] \<longleftrightarrow> current = None"
  by (cases current) (auto simp: budget_chain_Some)

lemma budget_chain_Cons:
  "budget_chain h current = Some (a # ys) \<longleftrightarrow>
     current = Some a \<and> (\<exists>b. h a = Some b \<and> budget_chain h (mb_parent b) = Some ys)"
  by (cases current) (auto simp: budget_chain_Some)

lemma budget_chain_dom: "budget_chain h current = Some xs \<Longrightarrow> x \<in> set xs \<Longrightarrow> h x \<noteq> None"
  by (induction xs arbitrary: current) (auto simp: budget_chain_Cons)

lemma budget_chain_suffix:
  "budget_chain h current = Some xs \<Longrightarrow> x \<in> set xs \<Longrightarrow>
   \<exists>ys. budget_chain h (Some x) = Some ys \<and> set ys \<subseteq> set xs \<and> length ys \<le> length xs"
proof (induction xs arbitrary: current)
  case Nil
  then show ?case by simp
next
  case (Cons a xs)
  show ?case
  proof (cases "x = a")
    case True
    then show ?thesis using Cons.prems(1) by (auto simp: budget_chain_Cons budget_chain_Some)
  next
    case False
    with Cons.prems obtain b :: MemoryBudget
      where "budget_chain h (mb_parent b) = Some xs" "x \<in> set xs"
      by (auto simp: budget_chain_Cons)
    from Cons.IH [OF this] show ?thesis by fastforce
  qed
qed

lemma budget_chain_distinct: "budget_chain h current = Some xs \<Longrightarrow> distinct xs"
proof (induction xs arbitrary: current)
  case Nil
  then show ?case by simp
next
  case (Cons a xs)
  then obtain b where b: "h a = Some b" "budget_chain h (mb_parent b) = Some xs"
      "budget_chain h (Some a) = Some (a # xs)"
    by (auto simp: budget_chain_Cons budget_chain_Some)
  have "a \<notin> set xs"
    using budget_chain_suffix [OF b(2), of a] b(3) by auto
  with Cons.IH [OF b(2)] show ?case by simp
qed

lemma budget_chain_cong:
  assumes "\<And>x. x \<in> set xs \<Longrightarrow> map_option mb_parent (h' x) = map_option mb_parent (h x)"
    and "budget_chain h current = Some xs"
  shows "budget_chain h' current = Some xs"
  using assms
proof (induction xs arbitrary: current)
  case Nil
  then show ?case by simp
next
  case (Cons a xs)
  from Cons.prems(2) obtain b
    where b: "current = Some a" "h a = Some b" "budget_chain h (mb_parent b) = Some xs"
    by (auto simp: budget_chain_Cons)
  with Cons.prems(1) [of a] obtain b' where b': "h' a = Some b'" "mb_parent b' = mb_parent b"
    by (auto simp: map_option_case split: option.splits)
  have "budget_chain h' (mb_parent b) = Some xs" using Cons.prems(1) b(3) by (intro Cons.IH) auto
  with b b' show ?case by (simp add: budget_chain_Cons)
qed

text \<open>The effect of a loop over the ancestors.\<close>

definition map_budgets :: "(MemoryBudget \<Rightarrow> MemoryBudget) \<Rightarrow> addr set \<Rightarrow> budgets \<Rightarrow> budgets" where
  "map_budgets f A h = (\<lambda>x. if x \<in> A then map_option f (h x) else h x)"

lemma each_ancestor_None [simp]: "each_ancestor body None h = Some h"
  by (subst each_ancestor.simps) simp

lemma each_ancestor_Some:
  "each_ancestor body (Some a) h =
     do { b \<leftarrow> h a; b' \<leftarrow> body b; each_ancestor body (mb_parent b') (h(a \<mapsto> b')) }"
  by (subst each_ancestor.simps) simp

lemma each_ancestor_eq:
  assumes "budget_chain h current = Some xs"
    and "\<And>x b. x \<in> set xs \<Longrightarrow> h x = Some b \<Longrightarrow> body b = Some (f b)"
    and parent: "\<And>b. mb_parent (f b) = mb_parent b"
  shows "each_ancestor body current h = Some (map_budgets f (set xs) h)"
  using assms(1,2)
proof (induction xs arbitrary: current h)
  case Nil
  then show ?case by (simp add: map_budgets_def)
next
  case (Cons a xs)
  then obtain b where b: "current = Some a" "h a = Some b" "budget_chain h (mb_parent b) = Some xs"
    by (auto simp: budget_chain_Cons)
  have distinct: "a \<notin> set xs" using budget_chain_distinct [OF Cons.prems(1)] by simp
  have "budget_chain (h(a \<mapsto> f b)) (mb_parent (f b)) = Some xs"
    using b(3) distinct unfolding parent by (rule_tac budget_chain_cong) auto
  moreover have "body b' = Some (f b')" if "x \<in> set xs" "(h(a \<mapsto> f b)) x = Some b'" for x b'
    using that Cons.prems(2) [of x] distinct by (auto split: if_splits)
  ultimately have "each_ancestor body (mb_parent (f b)) (h(a \<mapsto> f b))
      = Some (map_budgets f (set xs) (h(a \<mapsto> f b)))"
    by (rule Cons.IH)
  moreover have "map_budgets f (set xs) (h(a \<mapsto> f b)) = map_budgets f (set (a # xs)) h"
    using distinct b(2) by (auto simp: map_budgets_def fun_eq_iff)
  ultimately show ?case using b Cons.prems(2) [of a b] by (simp add: each_ancestor_Some)
qed

text \<open>What the preflight tests in each ancestor.\<close>

definition has_room :: "size_t \<Rightarrow> MemoryBudget \<Rightarrow> bool" where
  "has_room bytes b \<longleftrightarrow>
     bytes \<le> mb_limit b - mb_charged b \<and> mb_live_reservations b \<noteq> umax"

lemma preflight_None [simp]: "preflight_reservation None bytes h = Some (Inr ())"
  by (subst preflight_reservation.simps) simp

lemma preflight_Some:
  "preflight_reservation (Some a) bytes h =
     do { b \<leftarrow> h a;
          if bytes > mb_limit b - mb_charged b
            then Some (Inl (core_error EC_exhaustion ''memory budget capacity is exhausted''))
          else if mb_live_reservations b = umax
            then Some (Inl (core_error EC_overflow ''memory budget reservation count overflow''))
          else preflight_reservation (mb_parent b) bytes h }"
  by (subst preflight_reservation.simps) simp

lemma preflight_total:
  assumes "budget_chain h current = Some xs"
  shows "\<exists>res. preflight_reservation current bytes h = Some res \<and>
    ((\<exists>u. res = Inr u) \<longleftrightarrow> (\<forall>x \<in> set xs. has_room bytes (the (h x))))"
  using assms
proof (induction xs arbitrary: current)
  case Nil
  then show ?case by simp
next
  case (Cons a xs)
  then obtain b where b: "current = Some a" "h a = Some b" "budget_chain h (mb_parent b) = Some xs"
    by (auto simp: budget_chain_Cons)
  from Cons.IH [OF b(3)] obtain res
    where "preflight_reservation (mb_parent b) bytes h = Some res"
      "(\<exists>u. res = Inr u) \<longleftrightarrow> (\<forall>x \<in> set xs. has_room bytes (the (h x)))" by blast
  with b show ?case by (auto simp: preflight_Some has_room_def not_less)
qed

end
