(* ===== verification/Budget_Accounting.thy ===== *)
theory Budget_Accounting
  imports Memory_Budget
begin

text \<open>
  The accounting invariant of the memory budgets: what a budget has charged is the sum of the
  live reservations on it and on its descendants, never more than its limit, and its counters
  of reservations and children are exact. Every operation keeps it, and keeps it by returning.
\<close>

section \<open>The accounting invariant\<close>

definition covers :: "budgets \<Rightarrow> addr \<Rightarrow> MemoryReservation \<Rightarrow> bool" where
  "covers h a r = (case budget_chain h (mr_budget r) of None \<Rightarrow> False | Some xs \<Rightarrow> a \<in> set xs)"

text \<open>The sum of a weight over the live reservations of a budget and its descendants.\<close>

definition account ::
    "budgets \<Rightarrow> MemoryReservation list \<Rightarrow> addr \<Rightarrow> (MemoryReservation \<Rightarrow> nat) \<Rightarrow> nat" where
  "account h rs a w = sum_list (map (\<lambda>r. if covers h a r then w r else 0) rs)"

definition reserved_bytes :: "budgets \<Rightarrow> MemoryReservation list \<Rightarrow> addr \<Rightarrow> nat" where
  "reserved_bytes h rs a = account h rs a (\<lambda>r. unat (mr_bytes r))"

definition reservation_count :: "budgets \<Rightarrow> MemoryReservation list \<Rightarrow> addr \<Rightarrow> nat" where
  "reservation_count h rs a = account h rs a (\<lambda>_. 1)"

definition children :: "budgets \<Rightarrow> addr \<Rightarrow> addr set" where
  "children h a = {c. map_option mb_parent (h c) = Some (Some a)}"

definition budget_ok :: "budgets \<Rightarrow> MemoryReservation list \<Rightarrow> addr \<Rightarrow> MemoryBudget \<Rightarrow> bool" where
  "budget_ok h rs a b \<longleftrightarrow>
     0 < a \<and> a < 2 ^ 64 \<and> budget_chain h (Some a) \<noteq> None \<and>
     unat (mb_charged b) = reserved_bytes h rs a \<and> mb_charged b \<le> mb_limit b \<and>
     unat (mb_live_reservations b) = reservation_count h rs a \<and>
     unat (mb_live_children b) = card (children h a) \<and>
     (\<forall>p. mb_parent b = Some p \<longrightarrow> (\<exists>bp. h p = Some bp \<and> mb_worker bp = mb_worker b))"

definition reservation_ok :: "budgets \<Rightarrow> MemoryReservation \<Rightarrow> bool" where
  "reservation_ok h r \<longleftrightarrow>
     (case mr_budget r of None \<Rightarrow> mr_bytes r = 0 | Some a \<Rightarrow> h a \<noteq> None)"

definition budget_inv :: "BudgetSystem \<Rightarrow> bool" where
  "budget_inv s \<longleftrightarrow>
     (\<forall>a b. sys_budgets s a = Some b \<longrightarrow>
        budget_ok (sys_budgets s) (sys_reservations s) a b) \<and>
     (\<forall>r \<in> set (sys_reservations s). reservation_ok (sys_budgets s) r)"

lemma covers_inactive [simp]: "mr_budget r = None \<Longrightarrow> \<not> covers h a r"
  by (simp add: covers_def)

lemma covers_active:
  "mr_budget r = Some a \<Longrightarrow> budget_chain h (Some a) = Some xs \<Longrightarrow> covers h x r \<longleftrightarrow> x \<in> set xs"
  by (simp add: covers_def)

lemma account_append:
  "account h (rs @ [r]) a w = account h rs a w + (if covers h a r then w r else 0)"
  by (simp add: account_def)

lemma account_update:
  "i < length rs \<Longrightarrow>
   account h (rs[i := r]) a w + (if covers h a (rs ! i) then w (rs ! i) else 0)
     = account h rs a w + (if covers h a r then w r else 0)"
  unfolding account_def by (rule sum_list_map_update)

lemma account_member:
  assumes "i < length rs" and "covers h a (rs ! i)"
  shows "w (rs ! i) \<le> account h rs a w"
  using account_update [OF assms(1), of h empty_reservation a w] assms(2)
  by (simp add: empty_reservation_def)

lemma same_parents_chain:
  assumes "\<And>x. map_option mb_parent (h' x) = map_option mb_parent (h x)"
  shows "budget_chain h' current = budget_chain h current"
proof (cases "budget_chain h current")
  case (Some xs)
  then show ?thesis using budget_chain_cong [of xs h' h] assms by simp
next
  case None
  then show ?thesis
    using budget_chain_cong [of _ h h'] assms by (cases "budget_chain h' current") auto
qed

lemma same_parents:
  assumes "\<And>x. map_option mb_parent (h' x) = map_option mb_parent (h x)"
  shows "covers h' = covers h" "account h' = account h" "reserved_bytes h' = reserved_bytes h"
    "reservation_count h' = reservation_count h" "children h' = children h"
proof -
  show "covers h' = covers h"
    by (simp add: fun_eq_iff covers_def same_parents_chain [of h' h, OF assms])
  then show "account h' = account h" by (simp add: fun_eq_iff account_def)
  then show "reserved_bytes h' = reserved_bytes h" "reservation_count h' = reservation_count h"
    by (simp_all add: fun_eq_iff reserved_bytes_def reservation_count_def)
  show "children h' = children h" by (simp add: fun_eq_iff children_def assms)
qed

text \<open>
  A loop over the ancestors of one budget that changes only what they have charged, together
  with a change of the reservations, keeps the invariant if it keeps the accounts.
\<close>

definition charge_only :: "(MemoryBudget \<Rightarrow> MemoryBudget) \<Rightarrow> bool" where
  "charge_only f \<longleftrightarrow>
     (\<forall>b. mb_worker (f b) = mb_worker b \<and> mb_limit (f b) = mb_limit b \<and>
          mb_live_children (f b) = mb_live_children b \<and> mb_parent (f b) = mb_parent b)"

lemma map_budgets_parents:
  "charge_only f \<Longrightarrow>
   map_option mb_parent (map_budgets f A h x) = map_option mb_parent (h x)"
  by (cases "h x") (auto simp: map_budgets_def charge_only_def)

lemma map_budgets_Some:
  "map_budgets f A h x = Some b' \<longleftrightarrow>
     (\<exists>b. h x = Some b \<and> b' = (if x \<in> A then f b else b))"
  by (cases "h x") (auto simp: map_budgets_def)

lemma budget_inv_charge:
  assumes inv: "budget_inv \<lparr>sys_budgets = h, sys_reservations = rs\<rparr>" and f: "charge_only f"
    and res: "\<And>r. r \<in> set rs' \<Longrightarrow> reservation_ok h r"
    and inside: "\<And>x b. x \<in> A \<Longrightarrow> h x = Some b \<Longrightarrow>
      unat (mb_charged (f b)) = reserved_bytes h rs' x \<and> mb_charged (f b) \<le> mb_limit b \<and>
      unat (mb_live_reservations (f b)) = reservation_count h rs' x"
    and outside: "\<And>x w. x \<notin> A \<Longrightarrow> account h rs' x w = account h rs x w"
  shows "budget_inv \<lparr>sys_budgets = map_budgets f A h, sys_reservations = rs'\<rparr>"
proof -
  let ?h = "map_budgets f A h"
  note same = map_budgets_parents [OF f, of A h]
  note eqs = same_parents [of ?h h, OF same] same_parents_chain [of ?h h, OF same]
  have "budget_ok ?h rs' x b'" if "?h x = Some b'" for x b'
  proof -
    from that obtain b where b: "h x = Some b" "b' = (if x \<in> A then f b else b)"
      by (auto simp: map_budgets_Some)
    with inv have ok: "budget_ok h rs x b" by (simp add: budget_inv_def)
    have "\<exists>bp. ?h p = Some bp \<and> mb_worker bp = mb_worker b"
      if "h p = Some bp" "mb_worker bp = mb_worker b" for p bp
      using that f by (auto simp: map_budgets_Some charge_only_def)
    then show ?thesis
      using ok b inside [of x b] outside [of x] f
      by (auto simp: budget_ok_def eqs charge_only_def reserved_bytes_def reservation_count_def)
  qed
  moreover have "reservation_ok ?h r" if "r \<in> set rs'" for r
    using res [OF that] by (auto simp: reservation_ok_def map_budgets_Some split: option.splits)
  ultimately show ?thesis by (simp add: budget_inv_def)
qed

section \<open>Each operation keeps the invariant\<close>

definition add_charge :: "size_t \<Rightarrow> MemoryBudget \<Rightarrow> MemoryBudget" where
  "add_charge n b = b\<lparr>mb_charged := mb_charged b + n,
                      mb_live_reservations := mb_live_reservations b + 1\<rparr>"

definition sub_charge :: "size_t \<Rightarrow> MemoryBudget \<Rightarrow> MemoryBudget" where
  "sub_charge n b = b\<lparr>mb_charged := mb_charged b - n,
                      mb_live_reservations := mb_live_reservations b - 1\<rparr>"

lemma charge_only_simps [simp]:
  "charge_only (add_charge n)" "charge_only (sub_charge n)"
  "charge_only (\<lambda>b. b\<lparr>mb_charged := mb_charged b + n\<rparr>)"
  "charge_only (\<lambda>b. b\<lparr>mb_charged := mb_charged b - n\<rparr>)" "charge_only (\<lambda>b. b)"
  by (simp_all add: charge_only_def add_charge_def sub_charge_def)

lemma budget_inv_ok:
  "budget_inv \<lparr>sys_budgets = h, sys_reservations = rs\<rparr> \<Longrightarrow> h a = Some b \<Longrightarrow> budget_ok h rs a b"
  by (simp add: budget_inv_def)

lemma budget_inv_chain:
  "budget_inv \<lparr>sys_budgets = h, sys_reservations = rs\<rparr> \<Longrightarrow> h a = Some b \<Longrightarrow>
   \<exists>xs. budget_chain h (Some a) = Some xs"
  using budget_inv_ok [of h rs a b] by (auto simp: budget_ok_def)

lemma budget_inv_reservation:
  "budget_inv \<lparr>sys_budgets = h, sys_reservations = rs\<rparr> \<Longrightarrow> i < length rs \<Longrightarrow>
   reservation_ok h (rs ! i)"
  by (simp add: budget_inv_def)

lemma reservation_chain:
  assumes inv: "budget_inv \<lparr>sys_budgets = h, sys_reservations = rs\<rparr>" and "r \<in> set rs"
  shows "\<exists>xs. budget_chain h (mr_budget r) = Some xs"
proof (cases "mr_budget r")
  case (Some a)
  have "reservation_ok h r" using assms by (simp add: budget_inv_def)
  with Some obtain b where "h a = Some b" by (auto simp: reservation_ok_def)
  then show ?thesis using budget_inv_chain [OF inv] Some by simp
qed simp

text \<open>Reserving.\<close>

lemma reserve_cases:
  assumes "budget_chain h (Some a) = Some xs" and "h a = Some b"
  shows "if owns b worker \<and> (\<forall>x \<in> set xs. has_room n (the (h x)))
    then reserve a worker n h
           = Some (Inr \<lparr>mr_budget = Some a, mr_bytes = n\<rparr>, map_budgets (add_charge n) (set xs) h)
    else \<exists>e. reserve a worker n h = Some (Inl e, h)"
proof -
  obtain res where res: "preflight_reservation (Some a) n h = Some res"
      "(\<exists>u. res = Inr u) \<longleftrightarrow> (\<forall>x \<in> set xs. has_room n (the (h x)))"
    using preflight_total [OF assms(1)] by blast
  have loop: "each_ancestor (charge_reservation n) (Some a) h
      = Some (map_budgets (add_charge n) (set xs) h)"
    using assms(1) by (rule each_ancestor_eq) (simp_all add: charge_reservation_def add_charge_def)
  show ?thesis
    using res assms(2) loop
    by (cases res) (auto simp: reserve_def require_worker_def)
qed

lemma room_add:
  assumes "has_room n b" "mb_charged b \<le> mb_limit b"
  shows "unat (mb_charged b + n) = unat (mb_charged b) + unat n"
    "mb_charged b + n \<le> mb_limit b"
    "unat (mb_live_reservations b + 1) = unat (mb_live_reservations b) + 1"
proof -
  show sum: "unat (mb_charged b + n) = unat (mb_charged b) + unat n"
    using assms word_add_le_no_wrap [of "mb_charged b" "mb_limit b" n] by (simp add: has_room_def)
  have "unat (mb_charged b) + unat n \<le> unat (mb_limit b)"
    using assms by (simp add: has_room_def word_bounds)
  then show "mb_charged b + n \<le> mb_limit b" by (simp add: word_le_nat_alt sum)
  show "unat (mb_live_reservations b + 1) = unat (mb_live_reservations b) + 1"
    using assms by (intro unat_incr) (simp add: has_room_def)
qed

lemma reserve_inv:
  assumes inv: "budget_inv \<lparr>sys_budgets = h, sys_reservations = rs\<rparr>"
    and chain: "budget_chain h (Some a) = Some xs"
    and room: "\<forall>x \<in> set xs. has_room n (the (h x))"
  shows "budget_inv \<lparr>sys_budgets = map_budgets (add_charge n) (set xs) h,
                     sys_reservations = rs @ [\<lparr>mr_budget = Some a, mr_bytes = n\<rparr>]\<rparr>"
proof (rule budget_inv_charge [OF inv])
  let ?r = "\<lparr>mr_budget = Some a, mr_bytes = n\<rparr>"
  have covers: "covers h x ?r \<longleftrightarrow> x \<in> set xs" for x using chain by (simp add: covers_active)
  show "reservation_ok h r" if "r \<in> set (rs @ [?r])" for r
    using that inv budget_chain_dom [OF chain, of a] chain
    by (auto simp: budget_inv_def reservation_ok_def budget_chain_Some)
  show "unat (mb_charged (add_charge n b)) = reserved_bytes h (rs @ [?r]) x \<and>
      mb_charged (add_charge n b) \<le> mb_limit b \<and>
      unat (mb_live_reservations (add_charge n b)) = reservation_count h (rs @ [?r]) x"
    if "x \<in> set xs" "h x = Some b" for x b
    using budget_inv_ok [OF inv that(2)] room_add [of n b] room that
    by (auto simp: add_charge_def reserved_bytes_def reservation_count_def account_append covers
        budget_ok_def)
  show "account h (rs @ [?r]) x w = account h rs x w" if "x \<notin> set xs" for x w
    using that by (simp add: account_append covers)
qed simp

text \<open>Releasing.\<close>

lemma release_covered:
  assumes inv: "budget_inv \<lparr>sys_budgets = h, sys_reservations = rs\<rparr>"
    and i: "i < length rs" "mr_budget (rs ! i) = Some a"
    and chain: "budget_chain h (Some a) = Some xs" and x: "x \<in> set xs" "h x = Some b"
  shows "mr_bytes (rs ! i) \<le> mb_charged b" "mb_live_reservations b \<noteq> 0"
proof -
  have covers: "covers h x (rs ! i)" using i(2) chain x(1) by (simp add: covers_active)
  have "unat (mr_bytes (rs ! i)) \<le> unat (mb_charged b)"
    using account_member [OF i(1) covers, of "\<lambda>r. unat (mr_bytes r)"] budget_inv_ok [OF inv x(2)]
    by (simp add: budget_ok_def reserved_bytes_def)
  then show "mr_bytes (rs ! i) \<le> mb_charged b" by (simp add: word_le_nat_alt)
  have "1 \<le> unat (mb_live_reservations b)"
    using account_member [OF i(1) covers, of "\<lambda>_. 1"] budget_inv_ok [OF inv x(2)]
    by (simp add: budget_ok_def reservation_count_def)
  then show "mb_live_reservations b \<noteq> 0" by auto
qed

lemma empty_reservation_iff: "r = empty_reservation \<longleftrightarrow> mr_budget r = None \<and> mr_bytes r = 0"
  by (cases r) (auto simp: empty_reservation_def)

lemma empty_reservation_simps [simp]:
  "mr_budget empty_reservation = None" "mr_bytes empty_reservation = 0"
  "r\<lparr>mr_budget := None, mr_bytes := 0\<rparr> = empty_reservation"
  by (simp_all add: empty_reservation_def)

lemma in_set_updateD: "x \<in> set (xs[i := y]) \<Longrightarrow> x = y \<or> x \<in> set xs"
  using set_update_subset_insert [of xs i y] by auto

lemma unat_sub_le: "n \<le> m \<Longrightarrow> unat (m - n) = unat m - unat n" for m n :: "'a::len word"
  by (simp add: unat_sub)

lemma unat_decr: "m \<noteq> 0 \<Longrightarrow> unat (m - 1) = unat m - 1" for m :: "'a::len word"
  by (simp add: unat_minus_one)

lemma sub_charge_step:
  assumes "n \<le> mb_charged b" "mb_live_reservations b \<noteq> 0" "mb_charged b \<le> mb_limit b"
  shows "release_charge n b = Some (sub_charge n b)"
    "unat (mb_charged (sub_charge n b)) = unat (mb_charged b) - unat n"
    "mb_charged (sub_charge n b) \<le> mb_limit b"
    "unat (mb_live_reservations (sub_charge n b)) = unat (mb_live_reservations b) - 1"
proof -
  show charged: "unat (mb_charged (sub_charge n b)) = unat (mb_charged b) - unat n"
    using assms(1) by (simp add: sub_charge_def unat_sub_le)
  show "mb_charged (sub_charge n b) \<le> mb_limit b"
    using assms(3) unfolding word_le_nat_alt charged by linarith
qed (use assms in \<open>simp_all add: release_charge_def sub_charge_def unat_decr\<close>)

lemma release_inv:
  assumes inv: "budget_inv \<lparr>sys_budgets = h, sys_reservations = rs\<rparr>"
    and i: "i < length rs" "mr_budget (rs ! i) = Some a"
    and chain: "budget_chain h (Some a) = Some xs"
  shows "release a (mr_bytes (rs ! i)) h
      = Some (map_budgets (sub_charge (mr_bytes (rs ! i))) (set xs) h)" (is ?eq)
    and "budget_inv \<lparr>sys_budgets = map_budgets (sub_charge (mr_bytes (rs ! i))) (set xs) h,
                     sys_reservations = rs[i := empty_reservation]\<rparr>" (is ?inv)
proof -
  let ?n = "mr_bytes (rs ! i)"
  have covers: "covers h x (rs ! i) \<longleftrightarrow> x \<in> set xs" for x using i chain by (simp add: covers_active)
  have step: "release_charge ?n b = Some (sub_charge ?n b)"
      "unat (mb_charged (sub_charge ?n b)) = unat (mb_charged b) - unat ?n"
      "mb_charged (sub_charge ?n b) \<le> mb_limit b"
      "unat (mb_live_reservations (sub_charge ?n b)) = unat (mb_live_reservations b) - 1"
    if "x \<in> set xs" "h x = Some b" for x b
    using sub_charge_step release_covered [OF inv i chain that] budget_inv_ok [OF inv that(2)]
    by (simp_all add: budget_ok_def)
  show ?eq
    unfolding release_def using chain step(1)
    by (rule each_ancestor_eq) (simp_all add: sub_charge_def)
  show ?inv
  proof (rule budget_inv_charge [OF inv])
    show "reservation_ok h r" if "r \<in> set (rs[i := empty_reservation])" for r
      using in_set_updateD [OF that] inv by (auto simp: budget_inv_def reservation_ok_def)
    show "unat (mb_charged (sub_charge ?n b)) = reserved_bytes h (rs[i := empty_reservation]) x \<and>
        mb_charged (sub_charge ?n b) \<le> mb_limit b \<and>
        unat (mb_live_reservations (sub_charge ?n b))
          = reservation_count h (rs[i := empty_reservation]) x"
      if x: "x \<in> set xs" "h x = Some b" for x b
    proof -
      have "reserved_bytes h (rs[i := empty_reservation]) x + unat ?n = reserved_bytes h rs x"
          "reservation_count h (rs[i := empty_reservation]) x + 1 = reservation_count h rs x"
        using account_update [OF i(1), of h empty_reservation x "\<lambda>r. unat (mr_bytes r)"]
          account_update [OF i(1), of h empty_reservation x "\<lambda>_. 1"] x(1)
        by (simp_all add: reserved_bytes_def reservation_count_def covers)
      then show ?thesis
        using step [OF x] budget_inv_ok [OF inv x(2)] unfolding budget_ok_def by linarith
    qed
    show "account h (rs[i := empty_reservation]) x w = account h rs x w" if "x \<notin> set xs" for x w
      using account_update [OF i(1), of h empty_reservation x w] that by (simp add: covers)
  qed simp
qed

lemma release_unchecked_inv:
  assumes inv: "budget_inv \<lparr>sys_budgets = h, sys_reservations = rs\<rparr>" and i: "i < length rs"
  shows "\<exists>h'. release_unchecked (rs ! i) h = Some (empty_reservation, h') \<and>
    budget_inv \<lparr>sys_budgets = h', sys_reservations = rs[i := empty_reservation]\<rparr>"
proof (cases "mr_budget (rs ! i)")
  case None
  with budget_inv_reservation [OF inv i] have "rs ! i = empty_reservation"
    by (simp add: empty_reservation_iff reservation_ok_def)
  with inv show ?thesis
    using list_update_id [of rs i] by (simp add: release_unchecked_def)
next
  case (Some a)
  with budget_inv_reservation [OF inv i] obtain b where "h a = Some b"
    by (auto simp: reservation_ok_def)
  then obtain xs where "budget_chain h (Some a) = Some xs" using budget_inv_chain [OF inv] by blast
  from release_inv [OF inv i Some this] Some show ?thesis by (simp add: release_unchecked_def)
qed

text \<open>A reservation that is released at once leaves no trace.\<close>

lemma add_charge_invertible:
  assumes "has_room n b" "mb_charged b \<le> mb_limit b"
  shows "release_charge n (add_charge n b) = Some b"
proof -
  have "\<not> mb_charged b + n < n"
    using room_add(1) [OF assms] by (simp add: word_less_nat_alt)
  moreover have "mb_live_reservations b + 1 \<noteq> 0"
    using room_add(3) [OF assms] by auto
  ultimately show ?thesis by (simp add: release_charge_def add_charge_def)
qed

lemma release_after_reserve:
  assumes inv: "budget_inv \<lparr>sys_budgets = h, sys_reservations = rs\<rparr>"
    and chain: "budget_chain h (Some a) = Some xs"
    and room: "\<forall>x \<in> set xs. has_room n (the (h x))"
  shows "release_unchecked \<lparr>mr_budget = Some a, mr_bytes = n\<rparr> (map_budgets (add_charge n) (set xs) h)
    = Some (empty_reservation, h)"
proof -
  let ?h = "map_budgets (add_charge n) (set xs) h"
  have chain': "budget_chain ?h (Some a) = Some xs"
    using same_parents_chain [of ?h h] map_budgets_parents [of "add_charge n"] chain by simp
  have step: "release_charge n b' = Some (sub_charge n b') \<and> sub_charge n b' = the (h x)"
    if "x \<in> set xs" "?h x = Some b'" for x b'
  proof -
    from that obtain b where b: "h x = Some b" "b' = add_charge n b" by (auto simp: map_budgets_Some)
    then have "release_charge n b' = Some b"
      using add_charge_invertible [of n b] room that(1) budget_inv_ok [OF inv b(1)]
      by (auto simp: budget_ok_def)
    with b show ?thesis by (auto simp: release_charge_def sub_charge_def split: if_splits)
  qed
  have "release a n ?h = Some (map_budgets (sub_charge n) (set xs) ?h)"
    unfolding release_def using chain' conjunct1 [OF step]
    by (rule each_ancestor_eq) (simp_all add: sub_charge_def)
  moreover have "map_budgets (sub_charge n) (set xs) ?h = h"
  proof
    fix x
    show "map_budgets (sub_charge n) (set xs) ?h x = h x"
      using step [of x] by (cases "h x") (auto simp: map_budgets_def)
  qed
  ultimately show ?thesis by (simp add: release_unchecked_def)
qed

text \<open>Changing the size of a reservation.\<close>

lemma resize_inv:
  assumes inv: "budget_inv \<lparr>sys_budgets = h, sys_reservations = rs\<rparr>"
    and i: "i < length rs" "mr_budget (rs ! i) = Some a"
    and chain: "budget_chain h (Some a) = Some xs"
    and r': "mr_budget r' = Some a"
    and f: "charge_only f" "\<And>b. mb_live_reservations (f b) = mb_live_reservations b"
    and bytes: "\<And>x b. x \<in> set xs \<Longrightarrow> h x = Some b \<Longrightarrow> mb_charged (f b) \<le> mb_limit b \<and>
      unat (mb_charged (f b)) + unat (mr_bytes (rs ! i)) = unat (mb_charged b) + unat (mr_bytes r')"
  shows "budget_inv \<lparr>sys_budgets = map_budgets f (set xs) h, sys_reservations = rs[i := r']\<rparr>"
proof (rule budget_inv_charge [OF inv f(1)])
  have covers: "covers h x (rs ! i) \<longleftrightarrow> x \<in> set xs" "covers h x r' \<longleftrightarrow> x \<in> set xs" for x
    using i r' chain by (simp_all add: covers_active)
  show "reservation_ok h r" if "r \<in> set (rs[i := r'])" for r
    using in_set_updateD [OF that] inv r' chain
    by (auto simp: budget_inv_def reservation_ok_def budget_chain_Some)
  show "unat (mb_charged (f b)) = reserved_bytes h (rs[i := r']) x \<and>
      mb_charged (f b) \<le> mb_limit b \<and>
      unat (mb_live_reservations (f b)) = reservation_count h (rs[i := r']) x"
    if x: "x \<in> set xs" "h x = Some b" for x b
  proof -
    have "reserved_bytes h (rs[i := r']) x + unat (mr_bytes (rs ! i))
          = reserved_bytes h rs x + unat (mr_bytes r')"
        "reservation_count h (rs[i := r']) x = reservation_count h rs x"
      using account_update [OF i(1), of h r' x "\<lambda>r. unat (mr_bytes r)"]
        account_update [OF i(1), of h r' x "\<lambda>_. 1"] x(1)
      by (simp_all add: reserved_bytes_def reservation_count_def covers)
    then show ?thesis
      using bytes [OF x] f(2) [of b] budget_inv_ok [OF inv x(2)] unfolding budget_ok_def by simp
  qed
  show "account h (rs[i := r']) x w = account h rs x w" if "x \<notin> set xs" for x w
    using account_update [OF i(1), of h r' x w] that by (simp add: covers)
qed

lemma grow_inv:
  assumes inv: "budget_inv \<lparr>sys_budgets = h, sys_reservations = rs\<rparr>" and i: "i < length rs"
  shows "\<exists>u r' h'. reservation_grow (rs ! i) worker n h = Some (u, r', h') \<and>
    (\<forall>e. u = Inl e \<longrightarrow> r' = rs ! i \<and> h' = h) \<and>
    budget_inv \<lparr>sys_budgets = h', sys_reservations = rs[i := r']\<rparr>"
proof (cases "mr_budget (rs ! i)")
  case None
  with inv show ?thesis by (simp add: reservation_grow_def)
next
  case (Some a)
  let ?r' = "(rs ! i)\<lparr>mr_bytes := mr_bytes (rs ! i) + n\<rparr>"
  let ?f = "\<lambda>b. b\<lparr>mb_charged := mb_charged b + n\<rparr>"
  from Some budget_inv_reservation [OF inv i] obtain b where b: "h a = Some b"
    by (auto simp: reservation_ok_def)
  then obtain xs where chain: "budget_chain h (Some a) = Some xs" using budget_inv_chain [OF inv] by blast
  obtain res where res: "preflight_reservation (Some a) n h = Some res"
      "(\<exists>u. res = Inr u) \<longleftrightarrow> (\<forall>x \<in> set xs. has_room n (the (h x)))"
    using preflight_total [OF chain] by blast
  have loop: "each_ancestor (grow_charge n) (Some a) h = Some (map_budgets ?f (set xs) h)"
    using chain by (rule each_ancestor_eq) (simp_all add: grow_charge_def)
  have grown: "budget_inv \<lparr>sys_budgets = map_budgets ?f (set xs) h, sys_reservations = rs[i := ?r']\<rparr>"
    if room: "\<forall>x \<in> set xs. has_room n (the (h x))" and fits: "n \<le> umax - mr_bytes (rs ! i)"
  proof (rule resize_inv [OF inv i Some chain])
    fix x b assume x: "x \<in> set xs" "h x = Some b"
    have "unat (mr_bytes (rs ! i) + n) = unat (mr_bytes (rs ! i)) + unat n"
      using fits by (intro unat_add_no_wrap) (simp add: word_bounds)
    then show "mb_charged (?f b) \<le> mb_limit b \<and>
        unat (mb_charged (?f b)) + unat (mr_bytes (rs ! i)) = unat (mb_charged b) + unat (mr_bytes ?r')"
      using room_add [of n b] room x budget_inv_ok [OF inv x(2)] by (auto simp: budget_ok_def)
  qed (use Some in simp_all)
  show ?thesis
    using inv Some b res loop grown
    by (cases res) (auto simp: reservation_grow_def grow_reservation_def require_worker_def not_less)
qed

lemma shrink_inv:
  assumes inv: "budget_inv \<lparr>sys_budgets = h, sys_reservations = rs\<rparr>" and i: "i < length rs"
  shows "\<exists>u r' h'. reservation_shrink (rs ! i) worker n h = Some (u, r', h') \<and>
    (\<forall>e. u = Inl e \<longrightarrow> r' = rs ! i \<and> h' = h) \<and>
    budget_inv \<lparr>sys_budgets = h', sys_reservations = rs[i := r']\<rparr>"
proof (cases "mr_budget (rs ! i)")
  case None
  with inv show ?thesis by (simp add: reservation_shrink_def)
next
  case (Some a)
  let ?r' = "(rs ! i)\<lparr>mr_bytes := mr_bytes (rs ! i) - n\<rparr>"
  let ?f = "\<lambda>b. b\<lparr>mb_charged := mb_charged b - n\<rparr>"
  from Some budget_inv_reservation [OF inv i] obtain b where b: "h a = Some b"
    by (auto simp: reservation_ok_def)
  then obtain xs where chain: "budget_chain h (Some a) = Some xs" using budget_inv_chain [OF inv] by blast
  have le: "n \<le> mb_charged b \<and> mb_charged b \<le> mb_limit b"
    if "n \<le> mr_bytes (rs ! i)" "x \<in> set xs" "h x = Some b" for x b
    using release_covered(1) [OF inv i Some chain that(2,3)] that(1) budget_inv_ok [OF inv that(3)]
    by (auto simp: budget_ok_def)
  have loop: "each_ancestor (shrink_charge n) (Some a) h = Some (map_budgets ?f (set xs) h)"
    if "n \<le> mr_bytes (rs ! i)"
    using chain by (rule each_ancestor_eq) (use le [OF that] in \<open>auto simp: shrink_charge_def not_less\<close>)
  have shrunk: "budget_inv \<lparr>sys_budgets = map_budgets ?f (set xs) h, sys_reservations = rs[i := ?r']\<rparr>"
    if fits: "n \<le> mr_bytes (rs ! i)"
  proof (rule resize_inv [OF inv i Some chain])
    fix x b assume x: "x \<in> set xs" "h x = Some b"
    from le [OF fits x] fits have "unat (mb_charged b - n) = unat (mb_charged b) - unat n"
        "unat (mr_bytes (rs ! i) - n) = unat (mr_bytes (rs ! i)) - unat n"
        "unat n \<le> unat (mb_charged b)" "unat n \<le> unat (mr_bytes (rs ! i))"
        "unat (mb_charged b) \<le> unat (mb_limit b)"
      by (simp_all add: unat_sub_le word_le_nat_alt)
    then show "mb_charged (?f b) \<le> mb_limit b \<and>
        unat (mb_charged (?f b)) + unat (mr_bytes (rs ! i)) = unat (mb_charged b) + unat (mr_bytes ?r')"
      by (simp add: word_le_nat_alt)
  qed (use Some in simp_all)
  show ?thesis
    using inv Some b loop shrunk
    by (auto simp: reservation_shrink_def shrink_reservation_def require_worker_def not_less)
qed

text \<open>Moving reservations.\<close>

lemma budget_inv_reservations:
  assumes inv: "budget_inv \<lparr>sys_budgets = h, sys_reservations = rs\<rparr>"
    and res: "\<And>r. r \<in> set rs' \<Longrightarrow> r = empty_reservation \<or> r \<in> set rs"
    and acc: "\<And>x w. account h rs' x w = account h rs x w"
  shows "budget_inv \<lparr>sys_budgets = h, sys_reservations = rs'\<rparr>"
proof -
  have "reservation_ok h r" if "r \<in> set rs'" for r
    using res [OF that] inv by (auto simp: budget_inv_def reservation_ok_def)
  then have "budget_inv \<lparr>sys_budgets = map_budgets (\<lambda>b. b) {} h, sys_reservations = rs'\<rparr>"
    using acc by (intro budget_inv_charge [OF inv]) auto
  then show ?thesis by (simp add: map_budgets_def)
qed

lemma move_from_eq: "move_from r = (r, empty_reservation)"
  by (cases r) (simp add: move_from_def empty_reservation_def)

lemma move_construct_inv:
  assumes inv: "budget_inv \<lparr>sys_budgets = h, sys_reservations = rs\<rparr>" and i: "i < length rs"
  shows "budget_inv \<lparr>sys_budgets = h, sys_reservations = rs[i := empty_reservation] @ [rs ! i]\<rparr>"
proof (rule budget_inv_reservations [OF inv])
  show "r = empty_reservation \<or> r \<in> set rs"
    if "r \<in> set (rs[i := empty_reservation] @ [rs ! i])" for r
    using that in_set_updateD [of r rs i empty_reservation] i by auto
  show "account h (rs[i := empty_reservation] @ [rs ! i]) x w = account h rs x w" for x w
    using account_update [OF i, of h empty_reservation x w] by (simp add: account_append)
qed

lemma move_inactive_inv:
  assumes inv: "budget_inv \<lparr>sys_budgets = h, sys_reservations = rs\<rparr>"
    and ij: "i < length rs" "j < length rs" "i \<noteq> j" and "rs ! i = empty_reservation"
  shows "budget_inv \<lparr>sys_budgets = h, sys_reservations = rs[i := rs ! j, j := empty_reservation]\<rparr>"
proof (rule budget_inv_reservations [OF inv])
  show "r = empty_reservation \<or> r \<in> set rs"
    if "r \<in> set (rs[i := rs ! j, j := empty_reservation])" for r
    using in_set_updateD [OF that] in_set_updateD [of r rs i "rs ! j"] ij by auto
  show "account h (rs[i := rs ! j, j := empty_reservation]) x w = account h rs x w" for x w
    using account_update [of j "rs[i := rs ! j]" h empty_reservation x w]
      account_update [OF ij(1), of h "rs ! j" x w] assms(2-5)
    unfolding nth_list_update_neq [OF ij(3)] by simp
qed

text \<open>Constructing and destroying budgets.\<close>

lemma children_bound:
  assumes inv: "budget_inv \<lparr>sys_budgets = h, sys_reservations = rs\<rparr>"
    and "h this = None" "0 < this" "this < 2 ^ 64"
  shows "finite (children h a)" "card (children h a) < 2 ^ 64 - 1"
proof -
  have sub: "children h a \<subseteq> {1 ..< 2 ^ 64} - {this}"
    using budget_inv_ok [OF inv] assms(2) by (auto simp: children_def budget_ok_def Suc_le_eq)
  then show "finite (children h a)" by (rule finite_subset) simp
  have "card (children h a) \<le> card ({1 ..< 2 ^ 64 :: nat} - {this})"
    using sub by (intro card_mono) auto
  also have "\<dots> = 2 ^ 64 - 2" using assms(3,4) by simp
  finally show "card (children h a) < 2 ^ 64 - 1" by simp
qed

definition same_account :: "MemoryBudget \<Rightarrow> MemoryBudget \<Rightarrow> bool" where
  "same_account b b' \<longleftrightarrow>
     mb_worker b' = mb_worker b \<and> mb_limit b' = mb_limit b \<and> mb_charged b' = mb_charged b \<and>
     mb_live_reservations b' = mb_live_reservations b \<and> mb_parent b' = mb_parent b"

lemma budget_inv_member:
  "budget_inv \<lparr>sys_budgets = h, sys_reservations = rs\<rparr> \<Longrightarrow> r \<in> set rs \<Longrightarrow> reservation_ok h r"
  by (simp add: budget_inv_def)

text \<open>Two heaps that agree on all parents except at one address.\<close>

definition agree_except :: "addr \<Rightarrow> budgets \<Rightarrow> budgets \<Rightarrow> bool" where
  "agree_except this h h' \<longleftrightarrow>
     (\<forall>x. x \<noteq> this \<longrightarrow> map_option mb_parent (h' x) = map_option mb_parent (h x))"

lemma agree_except_chain:
  assumes "agree_except this h h'" "this \<notin> set xs" "budget_chain h current = Some xs"
  shows "budget_chain h' current = Some xs"
proof (rule budget_chain_cong [OF _ assms(3)])
  fix x assume "x \<in> set xs"
  with assms(2) have "x \<noteq> this" by auto
  with assms(1) show "map_option mb_parent (h' x) = map_option mb_parent (h x)"
    by (simp add: agree_except_def)
qed

lemma agree_except_account:
  assumes inv: "budget_inv \<lparr>sys_budgets = h, sys_reservations = rs\<rparr>"
    and agree: "agree_except this h h'" and free: "\<And>r. r \<in> set rs \<Longrightarrow> \<not> covers h this r"
  shows "reserved_bytes h' rs x = reserved_bytes h rs x"
    "reservation_count h' rs x = reservation_count h rs x"
    "reserved_bytes h rs this = 0" "reservation_count h rs this = 0"
proof -
  have "covers h' x r \<longleftrightarrow> covers h x r" if r: "r \<in> set rs" for r x
  proof -
    obtain xs where xs: "budget_chain h (mr_budget r) = Some xs"
      using reservation_chain [OF inv r] by blast
    moreover have "this \<notin> set xs" using free [OF r] xs by (simp add: covers_def)
    ultimately show ?thesis using agree_except_chain [OF agree] by (simp add: covers_def)
  qed
  then have "account h' rs x w = account h rs x w" for x w
    by (simp add: account_def cong: map_cong)
  then show "reserved_bytes h' rs x = reserved_bytes h rs x"
      "reservation_count h' rs x = reservation_count h rs x"
    by (simp_all add: reserved_bytes_def reservation_count_def)
  have "account h rs this w = 0" for w using free by (simp add: account_def cong: map_cong)
  then show "reserved_bytes h rs this = 0" "reservation_count h rs this = 0"
    by (simp_all add: reserved_bytes_def reservation_count_def)
qed

text \<open>The other budgets keep their accounts when one budget appears or disappears.\<close>

lemma budget_ok_transfer:
  assumes inv: "budget_inv \<lparr>sys_budgets = h, sys_reservations = rs\<rparr>"
    and agree: "agree_except this h h'" and free: "\<And>r. r \<in> set rs \<Longrightarrow> \<not> covers h this r"
    and x: "h x = Some b" "same_account b b'" "unat (mb_live_children b') = card (children h' x)"
    and apart: "\<And>xs. budget_chain h (Some x) = Some xs \<Longrightarrow> this \<notin> set xs"
    and kept: "\<And>p bp. h p = Some bp \<Longrightarrow> p \<noteq> this \<Longrightarrow> \<exists>bp'. h' p = Some bp' \<and> same_account bp bp'"
  shows "budget_ok h' rs x b'"
proof -
  have ok: "budget_ok h rs x b" using budget_inv_ok [OF inv x(1)] .
  obtain xs where xs: "budget_chain h (Some x) = Some xs" using budget_inv_chain [OF inv x(1)] ..
  then have "budget_chain h' (Some x) = Some xs" using agree_except_chain [OF agree apart] by blast
  moreover have "\<exists>bp. h' p = Some bp \<and> mb_worker bp = mb_worker b'"
    if par: "mb_parent b' = Some p" for p
  proof -
    have "mb_parent b = Some p" using par x(2) by (simp add: same_account_def)
    then obtain bp where bp: "h p = Some bp" "mb_worker bp = mb_worker b"
      using ok unfolding budget_ok_def by blast
    from xs x(1) \<open>mb_parent b = Some p\<close> have "p \<in> set xs"
      by (auto simp: budget_chain_Some)
    with apart [OF xs] have "p \<noteq> this" by auto
    with kept [OF bp(1)] bp(2) x(2) show ?thesis by (auto simp: same_account_def)
  qed
  ultimately show ?thesis
    using ok x(2,3) agree_except_account(1,2) [OF inv agree free, where x = x]
    unfolding budget_ok_def same_account_def by simp
qed

lemma children_unborn:
  assumes inv: "budget_inv \<lparr>sys_budgets = h, sys_reservations = rs\<rparr>" and new: "h this = None"
  shows "children h this = {}"
proof -
  have "map_option mb_parent (h c) \<noteq> Some (Some this)" for c
    using budget_inv_ok [OF inv, of c] new by (cases "h c") (auto simp: budget_ok_def)
  then show ?thesis by (simp add: children_def)
qed

lemma unborn_uncovered:
  assumes inv: "budget_inv \<lparr>sys_budgets = h, sys_reservations = rs\<rparr>" and new: "h this = None"
  shows "r \<in> set rs \<Longrightarrow> \<not> covers h this r"
    "h x = Some b \<Longrightarrow> budget_chain h (Some x) = Some xs \<Longrightarrow> this \<notin> set xs"
proof -
  have "this \<notin> set ys" if "budget_chain h current = Some ys" for current ys
    using budget_chain_dom [OF that, of this] new by auto
  then show "r \<in> set rs \<Longrightarrow> \<not> covers h this r"
      "h x = Some b \<Longrightarrow> budget_chain h (Some x) = Some xs \<Longrightarrow> this \<notin> set xs"
    by (auto simp: covers_def split: option.splits)
qed

lemma born_inv:
  assumes inv: "budget_inv \<lparr>sys_budgets = h, sys_reservations = rs\<rparr>"
    and new: "h this = None" "0 < this" "this < 2 ^ 64"
    and agree: "agree_except this h h'"
    and b: "h' this = Some b" "mb_charged b = 0" "mb_live_reservations b = 0" "mb_live_children b = 0"
    and parent: "\<And>p. mb_parent b = Some p \<Longrightarrow> \<exists>bp. h p = Some bp \<and> mb_worker bp = mb_worker b"
    and others: "\<And>x bx. h x = Some bx \<Longrightarrow> \<exists>b'. h' x = Some b' \<and> same_account bx b' \<and>
                   unat (mb_live_children b') = card (children h' x)"
  shows "budget_inv \<lparr>sys_budgets = h', sys_reservations = rs\<rparr>"
proof -
  note free = unborn_uncovered [OF inv new(1)]
  have "map_option mb_parent (h' c) \<noteq> Some (Some this)" for c
    using children_unborn [OF inv new(1)] agree parent [of this] new(1) b(1)
    by (cases "c = this") (auto simp: children_def agree_except_def)
  then have "children h' this = {}" by (simp add: children_def)
  moreover have "budget_chain h' (Some this) \<noteq> None"
  proof (cases "mb_parent b")
    case (Some p)
    then obtain bp where bp: "h p = Some bp" using parent by blast
    obtain ys where ys: "budget_chain h (Some p) = Some ys" using budget_inv_chain [OF inv bp] ..
    have "budget_chain h' (Some p) = Some ys"
      using agree_except_chain [OF agree free(2) [OF bp ys] ys] .
    with Some b(1) have "budget_chain h' (Some this) = Some (this # ys)"
      by (simp add: budget_chain_Some)
    then show ?thesis by simp
  next
    case None
    with b(1) have "budget_chain h' (Some this) = Some [this]" by (simp add: budget_chain_Some)
    then show ?thesis by simp
  qed
  moreover have "\<exists>bp. h' p = Some bp \<and> mb_worker bp = mb_worker b" if "mb_parent b = Some p" for p
    using parent [OF that] others by (fastforce simp: same_account_def)
  ultimately have "budget_ok h' rs this b"
    using new(2,3) b(2-) agree_except_account(3,4) [OF inv agree free(1)]
      agree_except_account(1,2) [OF inv agree free(1), where x = this]
    unfolding budget_ok_def by simp
  moreover have "budget_ok h' rs x b'" if x: "h' x = Some b'" "x \<noteq> this" for x b'
  proof -
    have "map_option mb_parent (h x) = map_option mb_parent (h' x)"
      using agree x(2) by (simp add: agree_except_def)
    with x(1) obtain bx where bx: "h x = Some bx" by (cases "h x") auto
    have acc: "same_account bx b'" "unat (mb_live_children b') = card (children h' x)"
      using others [OF bx] x(1) by simp_all
    show ?thesis
      using others by (rule_tac budget_ok_transfer [OF inv agree free(1) bx acc free(2) [OF bx]]) blast+
  qed
  moreover have "reservation_ok h' r" if "r \<in> set rs" for r
    using budget_inv_member [OF inv that] others
    by (fastforce simp: reservation_ok_def split: option.splits)
  ultimately show ?thesis
    unfolding budget_inv_def using b(1) by (metis BudgetSystem.select_convs option.inject)
qed

lemma new_root_inv:
  assumes inv: "budget_inv \<lparr>sys_budgets = h, sys_reservations = rs\<rparr>"
    and new: "h this = None" "0 < this" "this < 2 ^ 64"
  shows "budget_inv \<lparr>sys_budgets = h(this \<mapsto> root_budget worker limit), sys_reservations = rs\<rparr>"
    (is "budget_inv \<lparr>sys_budgets = ?h, sys_reservations = rs\<rparr>")
proof -
  have "children ?h x = children h x" for x
    using new(1) by (auto simp: children_def root_budget_def)
  then show ?thesis
    using budget_inv_ok [OF inv] new(1)
    by (rule_tac born_inv [OF inv new])
      (auto simp: agree_except_def root_budget_def same_account_def budget_ok_def)
qed

lemma new_child_inv:
  assumes inv: "budget_inv \<lparr>sys_budgets = h, sys_reservations = rs\<rparr>"
    and new: "h this = None" "0 < this" "this < 2 ^ 64" and parent: "h parent = Some p"
  shows "\<exists>h'. child_budget this parent limit h = Some h' \<and>
    budget_inv \<lparr>sys_budgets = h', sys_reservations = rs\<rparr>"
proof -
  let ?p = "p\<lparr>mb_live_children := mb_live_children p + 1\<rparr>"
  let ?b = "\<lparr>mb_worker = mb_worker p, mb_limit = limit, mb_charged = 0, mb_live_reservations = 0,
    mb_live_children = 0, mb_parent = Some parent\<rparr>"
  define h' where "h' = h(parent \<mapsto> ?p, this \<mapsto> ?b)"
  have ne: "parent \<noteq> this" using new(1) parent by auto
  have at: "h' parent = Some ?p" "h' this = Some ?b" "x \<noteq> parent \<Longrightarrow> x \<noteq> this \<Longrightarrow> h' x = h x" for x
    using ne by (simp_all add: h'_def)
  have count: "unat (mb_live_children p) = card (children h parent)"
    using budget_inv_ok [OF inv parent] by (simp add: budget_ok_def)
  have "unat (umax :: size_t) = 2 ^ 64 - 1" by (simp add: umax_unat)
  then have "mb_live_children p \<noteq> umax"
    using children_bound(2) [OF inv new, of parent] count by auto
  then have register: "register_child p = Some ?p"
    and incr: "unat (mb_live_children p + 1) = unat (mb_live_children p) + 1"
    by (simp_all add: register_child_def unat_incr)
  have children: "children h' x = (if x = parent then insert this (children h x) else children h x)"
    for x
    using new(1) parent ne by (auto simp: children_def h'_def)
  have "this \<notin> children h parent" using new(1) by (simp add: children_def)
  then have more: "card (insert this (children h parent)) = card (children h parent) + 1"
    using children_bound(1) [OF inv new] by simp
  have "\<exists>b'. h' x = Some b' \<and> same_account bx b' \<and> unat (mb_live_children b') = card (children h' x)"
    if x: "h x = Some bx" for x bx
  proof (cases "x = parent")
    case True
    then show ?thesis
      using x parent at(1) incr count more by (simp add: same_account_def children)
  next
    case False
    moreover have "x \<noteq> this" using x new(1) by auto
    ultimately show ?thesis
      using budget_inv_ok [OF inv x] x at(3) by (simp add: same_account_def budget_ok_def children)
  qed
  moreover have "agree_except this h h'" using parent ne by (auto simp: agree_except_def h'_def)
  ultimately have "budget_inv \<lparr>sys_budgets = h', sys_reservations = rs\<rparr>"
    using parent at(2) by (rule_tac born_inv [OF inv new, where b = ?b]) auto
  then show ?thesis using parent register by (simp add: child_budget_def h'_def)
qed

lemma chain_through:
  "budget_chain h current = Some xs \<Longrightarrow> this \<in> set xs \<Longrightarrow>
   current = Some this \<or> children h this \<noteq> {}"
proof (induction xs arbitrary: current)
  case Nil
  then show ?case by simp
next
  case (Cons a xs)
  then obtain b where b: "current = Some a" "h a = Some b" "budget_chain h (mb_parent b) = Some xs"
    by (auto simp: budget_chain_Cons)
  show ?case
  proof (cases "this = a")
    case False
    with Cons.prems(2) Cons.IH [OF b(3)] consider "mb_parent b = Some this" | "children h this \<noteq> {}"
      by auto
    then show ?thesis
    proof cases
      case 1
      with b(2) have "a \<in> children h this" by (simp add: children_def)
      then show ?thesis by blast
    qed simp
  qed (use b in simp)
qed

lemma children_finite:
  assumes inv: "budget_inv \<lparr>sys_budgets = h, sys_reservations = rs\<rparr>"
  shows "finite (children h a)"
proof (rule finite_subset)
  show "children h a \<subseteq> {..< 2 ^ 64}"
    using budget_inv_ok [OF inv] by (auto simp: children_def budget_ok_def)
qed simp

lemma unreserved:
  assumes "reservation_count h rs this = 0" and "r \<in> set rs"
  shows "\<not> covers h this r"
proof
  assume "covers h this r"
  with assms(2) obtain i where i: "i < length rs" "covers h this (rs ! i)"
    by (auto simp: in_set_conv_nth)
  from account_member [OF this, of "\<lambda>_. 1"] assms(1) show False
    by (simp add: reservation_count_def)
qed

text \<open>The heap without a budget that nothing depends on; its parent may count one child less.\<close>

lemma gone_inv:
  assumes inv: "budget_inv \<lparr>sys_budgets = h, sys_reservations = rs\<rparr>"
    and agree: "agree_except this h h'" and gone: "h' this = None"
    and idle: "reservation_count h rs this = 0" "children h this = {}"
    and others: "\<And>x bx. h x = Some bx \<Longrightarrow> x \<noteq> this \<Longrightarrow> \<exists>b'. h' x = Some b' \<and> same_account bx b' \<and>
                   unat (mb_live_children b') = card (children h' x)"
  shows "budget_inv \<lparr>sys_budgets = h', sys_reservations = rs\<rparr>"
proof -
  note free = unreserved [OF idle(1)]
  have "budget_ok h' rs x b'" if x: "h' x = Some b'" for x b'
  proof -
    have ne: "x \<noteq> this" using x gone by auto
    then have "map_option mb_parent (h x) = map_option mb_parent (h' x)"
      using agree by (simp add: agree_except_def)
    with x obtain bx where bx: "h x = Some bx" by (cases "h x") auto
    have acc: "same_account bx b'" "unat (mb_live_children b') = card (children h' x)"
      using others [OF bx ne] x by simp_all
    have apart: "this \<notin> set xs" if "budget_chain h (Some x) = Some xs" for xs
      using chain_through [OF that] idle(2) ne by blast
    show ?thesis
      using others by (rule_tac budget_ok_transfer [OF inv agree free bx acc apart]) blast+
  qed
  moreover have "reservation_ok h' r" if r: "r \<in> set rs" for r
  proof (cases "mr_budget r")
    case (Some a)
    obtain ba where ba: "h a = Some ba"
      using budget_inv_member [OF inv r] Some by (auto simp: reservation_ok_def)
    obtain xs where xs: "budget_chain h (Some a) = Some xs" using budget_inv_chain [OF inv ba] ..
    then have "a \<in> set xs" by (auto simp: budget_chain_Some)
    then have "a \<noteq> this" using free [OF r] covers_active [OF Some xs] by auto
    with others [OF ba] Some show ?thesis by (auto simp: reservation_ok_def)
  qed (use budget_inv_member [OF inv r] in \<open>simp add: reservation_ok_def\<close>)
  ultimately show ?thesis by (simp add: budget_inv_def)
qed

lemma gone_child_inv:
  assumes inv: "budget_inv \<lparr>sys_budgets = h, sys_reservations = rs\<rparr>"
    and b: "h this = Some b" "mb_parent b = Some parent" and p: "h parent = Some p"
    and idle: "reservation_count h rs this = 0" "children h this = {}"
  shows "mb_live_children p \<noteq> 0"
    and "budget_inv \<lparr>sys_budgets = h(parent \<mapsto> p\<lparr>mb_live_children := mb_live_children p - 1\<rparr>,
                                   this := None), sys_reservations = rs\<rparr>"
proof -
  let ?p = "p\<lparr>mb_live_children := mb_live_children p - 1\<rparr>"
  define h' where "h' = h(parent \<mapsto> ?p, this := None)"
  have child: "this \<in> children h parent" using b by (simp add: children_def)
  then have ne: "parent \<noteq> this" using idle(2) by auto
  have count: "unat (mb_live_children p) = card (children h parent)"
    using budget_inv_ok [OF inv p] by (simp add: budget_ok_def)
  have "card (children h parent) > 0" using child children_finite [OF inv] card_gt_0_iff by blast
  with count show pos: "mb_live_children p \<noteq> 0" by auto
  have children: "children h' x = (if x = parent then children h x - {this} else children h x)" for x
    using b p ne by (auto simp: children_def h'_def)
  have at: "h' parent = Some ?p" "x \<noteq> parent \<Longrightarrow> x \<noteq> this \<Longrightarrow> h' x = h x" for x
    using ne by (simp_all add: h'_def)
  have "budget_inv \<lparr>sys_budgets = h', sys_reservations = rs\<rparr>"
  proof (rule gone_inv [OF inv _ _ idle])
    fix x bx assume x: "h x = Some bx" "x \<noteq> this"
    show "\<exists>b'. h' x = Some b' \<and> same_account bx b' \<and>
        unat (mb_live_children b') = card (children h' x)"
    proof (cases "x = parent")
      case True
      then show ?thesis
        using x p at(1) count child unat_decr [OF pos] by (simp add: same_account_def children)
    next
      case False
      then show ?thesis
        using budget_inv_ok [OF inv x(1)] x at(2) by (simp add: same_account_def budget_ok_def children)
    qed
  qed (use p ne in \<open>auto simp: agree_except_def h'_def\<close>)
  then show "budget_inv \<lparr>sys_budgets = h(parent \<mapsto> ?p, this := None), sys_reservations = rs\<rparr>"
    by (simp add: h'_def)
qed

lemma destroy_budget_inv:
  assumes inv: "budget_inv \<lparr>sys_budgets = h, sys_reservations = rs\<rparr>"
    and b: "h this = Some b" "mb_live_reservations b = 0" "mb_live_children b = 0"
  shows "\<exists>h'. destroy_budget this h = Some h' \<and> h' this = None \<and>
    budget_inv \<lparr>sys_budgets = h', sys_reservations = rs\<rparr>"
proof -
  have ok: "budget_ok h rs this b" using budget_inv_ok [OF inv b(1)] .
  have idle: "reservation_count h rs this = 0" "children h this = {}"
    using ok b children_finite [OF inv, of this] by (auto simp: budget_ok_def)
  show ?thesis
  proof (cases "mb_parent b")
    case None
    let ?h = "h(this := None)"
    have "children ?h x = children h x" for x using b(1) None by (auto simp: children_def)
    then have "budget_inv \<lparr>sys_budgets = ?h, sys_reservations = rs\<rparr>"
      using budget_inv_ok [OF inv]
      by (rule_tac gone_inv [OF inv _ _ idle])
        (auto simp: agree_except_def same_account_def budget_ok_def)
    with None b show ?thesis by (simp add: destroy_budget_def)
  next
    case (Some parent)
    then obtain p where p: "h parent = Some p" using ok by (auto simp: budget_ok_def)
    from gone_child_inv [OF inv b(1) Some p idle] Some b p show ?thesis
      by (simp add: destroy_budget_def unregister_child_def)
  qed
qed

section \<open>Whole programs\<close>

lemma reserve_exec_inv:
  assumes inv: "budget_inv \<lparr>sys_budgets = h, sys_reservations = rs\<rparr>" and b: "h this = Some b"
  shows "\<exists>res h'. reserve this worker bytes h = Some (res, h') \<and>
    (\<forall>e. res = Inl e \<longrightarrow> h' = h) \<and>
    (\<forall>r. res = Inr r \<longrightarrow> release_unchecked r h' = Some (empty_reservation, h) \<and>
       budget_inv \<lparr>sys_budgets = h', sys_reservations = rs @ [r]\<rparr>)"
proof -
  obtain xs where xs: "budget_chain h (Some this) = Some xs" using budget_inv_chain [OF inv b] ..
  show ?thesis
    using reserve_cases [OF xs b, of worker bytes] reserve_inv [OF inv xs]
      release_after_reserve [OF inv xs] by (auto split: if_splits)
qed

lemma reservation_release_inv:
  assumes inv: "budget_inv \<lparr>sys_budgets = h, sys_reservations = rs\<rparr>" and i: "i < length rs"
  shows "\<exists>u r' h'. reservation_release (rs ! i) worker h = Some (u, r', h') \<and>
    (\<forall>e. u = Inl e \<longrightarrow> r' = rs ! i \<and> h' = h) \<and>
    budget_inv \<lparr>sys_budgets = h', sys_reservations = rs[i := r']\<rparr>"
proof (cases "mr_budget (rs ! i)")
  case None
  with inv show ?thesis by (simp add: reservation_release_def)
next
  case (Some a)
  then obtain b where b: "h a = Some b"
    using budget_inv_reservation [OF inv i] by (auto simp: reservation_ok_def)
  from release_unchecked_inv [OF inv i] obtain h'
    where "release_unchecked (rs ! i) h = Some (empty_reservation, h')"
      "budget_inv \<lparr>sys_budgets = h', sys_reservations = rs[i := empty_reservation]\<rparr>" by blast
  with Some b inv show ?thesis
    by (cases "require_worker b worker") (simp_all add: reservation_release_def)
qed

lemma move_assign_inv:
  assumes inv: "budget_inv \<lparr>sys_budgets = h, sys_reservations = rs\<rparr>"
    and ij: "i < length rs" "j < length rs" "i \<noteq> j"
  shows "\<exists>h'. move_assign (rs ! i) (rs ! j) h = Some ((rs ! j, empty_reservation), h') \<and>
    budget_inv \<lparr>sys_budgets = h', sys_reservations = rs[i := rs ! j, j := empty_reservation]\<rparr>"
proof -
  from release_unchecked_inv [OF inv ij(1)] obtain h'
    where h': "release_unchecked (rs ! i) h = Some (empty_reservation, h')"
      "budget_inv \<lparr>sys_budgets = h', sys_reservations = rs[i := empty_reservation]\<rparr>" by blast
  from move_inactive_inv [OF h'(2), of i j] ij h'(1) show ?thesis
    by (simp add: move_assign_def move_from_eq)
qed

text \<open>Shrinking by what was just added restores the reservation and every budget.\<close>

lemma reservation_grow_Inr:
  assumes "reservation_grow r worker n h = Some (Inr u, r', h')"
    and "mr_budget r = Some a" "h a = Some b" "budget_chain h (Some a) = Some xs"
  shows "owns b worker" "\<forall>x \<in> set xs. has_room n (the (h x))" "n \<le> umax - mr_bytes r"
    "r' = r\<lparr>mr_bytes := mr_bytes r + n\<rparr>"
    "h' = map_budgets (\<lambda>b. b\<lparr>mb_charged := mb_charged b + n\<rparr>) (set xs) h"
proof -
  obtain res where res: "preflight_reservation (Some a) n h = Some res"
      "(\<exists>u. res = Inr u) \<longleftrightarrow> (\<forall>x \<in> set xs. has_room n (the (h x)))"
    using preflight_total [OF assms(4)] by blast
  have loop: "each_ancestor (grow_charge n) (Some a) h
      = Some (map_budgets (\<lambda>b. b\<lparr>mb_charged := mb_charged b + n\<rparr>) (set xs) h)"
    using assms(4) by (rule each_ancestor_eq) (simp_all add: grow_charge_def)
  have "owns b worker \<and> (\<exists>u. res = Inr u) \<and> n \<le> umax - mr_bytes r \<and>
      r' = r\<lparr>mr_bytes := mr_bytes r + n\<rparr> \<and>
      h' = map_budgets (\<lambda>b. b\<lparr>mb_charged := mb_charged b + n\<rparr>) (set xs) h"
    using assms(1-3) loop res(1)
    by (cases res)
       (auto simp: reservation_grow_def grow_reservation_def require_worker_def not_less split: if_splits)
  with res(2) show "owns b worker" "\<forall>x \<in> set xs. has_room n (the (h x))" "n \<le> umax - mr_bytes r"
    "r' = r\<lparr>mr_bytes := mr_bytes r + n\<rparr>"
    "h' = map_budgets (\<lambda>b. b\<lparr>mb_charged := mb_charged b + n\<rparr>) (set xs) h"
    by blast+
qed

lemma shrink_after_grow:
  assumes inv: "budget_inv \<lparr>sys_budgets = h, sys_reservations = rs\<rparr>" and r: "r \<in> set rs"
    and grown: "reservation_grow r worker n h = Some (Inr u, r', h')"
  shows "reservation_shrink r' worker n h' = Some (Inr (), r, h)"
proof -
  let ?f = "\<lambda>b. b\<lparr>mb_charged := mb_charged b + n\<rparr>" and ?g = "\<lambda>b. b\<lparr>mb_charged := mb_charged b - n\<rparr>"
  from grown obtain a where a: "mr_budget r = Some a"
    by (cases "mr_budget r") (auto simp: reservation_grow_def)
  with budget_inv_member [OF inv r] obtain b where b: "h a = Some b" by (auto simp: reservation_ok_def)
  then obtain xs where chain: "budget_chain h (Some a) = Some xs" using budget_inv_chain [OF inv] by blast
  note grow = reservation_grow_Inr [OF grown a b chain]
  have chain': "budget_chain h' (Some a) = Some xs"
    using same_parents_chain [of h' h] map_budgets_parents [of ?f] chain grow(5) by simp
  have "unat (mr_bytes r + n) = unat (mr_bytes r) + unat n"
    using grow(3) by (intro unat_add_no_wrap) (simp add: word_bounds)
  then have fits: "n \<le> mr_bytes r'" using grow(4) by (simp add: word_le_nat_alt)
  have step: "shrink_charge n b' = Some (?g b') \<and> ?g b' = the (h x)"
    if "x \<in> set xs" "h' x = Some b'" for x b'
  proof -
    from that grow(5) obtain bx where bx: "h x = Some bx" "b' = ?f bx" by (auto simp: map_budgets_Some)
    then have "unat (mb_charged bx + n) = unat (mb_charged bx) + unat n"
      using room_add(1) [of n bx] grow(2) that(1) budget_inv_ok [OF inv bx(1)] by (auto simp: budget_ok_def)
    with bx show ?thesis by (simp add: shrink_charge_def word_less_nat_alt)
  qed
  have loop: "each_ancestor (shrink_charge n) (Some a) h' = Some (map_budgets ?g (set xs) h')"
    using chain' conjunct1 [OF step] by (rule each_ancestor_eq) simp_all
  have undo: "map_budgets ?g (set xs) h' = h"
  proof
    fix x
    show "map_budgets ?g (set xs) h' x = h x"
    proof (cases "x \<in> set xs")
      case True
      then have "h' x = map_option ?f (h x)" using grow(5) by (simp add: map_budgets_def)
      then show ?thesis using True step [of x] by (cases "h x") (simp_all add: map_budgets_def)
    next
      case False
      then show ?thesis using grow(5) by (simp add: map_budgets_def)
    qed
  qed
  have "h' a = Some (?f b)"
    using b grow(5) chain by (auto simp: map_budgets_Some budget_chain_Some)
  with a grow(1,4) fits loop undo show ?thesis
    by (simp add: reservation_shrink_def shrink_reservation_def require_worker_def owns_def)
qed

text \<open>
  A program that owns one reservation object, kept at the head of the list, and moves into it
  what \<open>reserve_for_allocation\<close> returns.
\<close>

lemma reserve_into_empty:
  assumes inv: "budget_inv \<lparr>sys_budgets = h, sys_reservations = empty_reservation # rs\<rparr>"
    and a: "h a = Some b"
  obtains (refused) e where "reserve_for_allocation a worker n acquire h w = Some (Inl e, h, w)"
  | (failed) e w' where "acquire w = (Inl e, w')"
      "reserve_for_allocation a worker n acquire h w = Some (Inl e, h, w')"
  | (taken) u w' r h' where "acquire w = (Inr u, w')"
      "reserve_for_allocation a worker n acquire h w = Some (Inr r, h', w')"
      "r = \<lparr>mr_budget = Some a, mr_bytes = n\<rparr>"
      "release_unchecked r h' = Some (empty_reservation, h)"
      "move_assign empty_reservation r h' = Some ((r, empty_reservation), h')"
      "budget_inv \<lparr>sys_budgets = h', sys_reservations = r # rs\<rparr>"
      "h' a \<noteq> None" "owns (the (h' a)) worker"
proof -
  obtain xs where xs: "budget_chain h (Some a) = Some xs" using budget_inv_chain [OF inv a] ..
  define r where "r = \<lparr>mr_budget = Some a, mr_bytes = n\<rparr>"
  show thesis
  proof (cases "owns b worker \<and> (\<forall>x \<in> set xs. has_room n (the (h x)))")
    case False
    with reserve_cases [OF xs a, of worker n] obtain e where "reserve a worker n h = Some (Inl e, h)"
      by (auto simp: if_split)
    then show ?thesis using refused by (simp add: reserve_for_allocation_def)
  next
    case True
    define h' where "h' = map_budgets (add_charge n) (set xs) h"
    from True have reserved: "reserve a worker n h = Some (Inr r, h')"
      using reserve_cases [OF xs a, of worker n] by (simp add: r_def h'_def)
    from True have undo: "release_unchecked r h' = Some (empty_reservation, h)"
      using release_after_reserve [OF inv xs] by (simp add: r_def h'_def)
    from True have "budget_inv \<lparr>sys_budgets = h', sys_reservations = (empty_reservation # rs) @ [r]\<rparr>"
      using reserve_inv [OF inv xs] by (simp add: r_def h'_def)
    then have "budget_inv \<lparr>sys_budgets = h', sys_reservations = r # rs\<rparr>"
      by (rule budget_inv_reservations) (auto simp: account_def)
    moreover have "move_assign empty_reservation r h' = Some ((r, empty_reservation), h')"
      by (simp add: move_assign_def move_from_eq release_unchecked_def)
    moreover have "h' a \<noteq> None" "owns (the (h' a)) worker"
      using True a by (simp_all add: h'_def map_budgets_def add_charge_def owns_def)
    ultimately show ?thesis
      using reserved undo failed taken [OF _ _ r_def]
      by (cases "acquire w"; cases "fst (acquire w)") (simp_all add: reserve_for_allocation_def)
  qed
qed

lemma budget_exec_inv:
  assumes "budget_inv s" and "budget_op_ok op s"
  shows "\<exists>r s'. budget_exec op s = Some (r, s') \<and> budget_inv s'"
proof -
  obtain h rs where s: "s = \<lparr>sys_budgets = h, sys_reservations = rs\<rparr>" by (cases s)
  note inv = assms(1) [unfolded s]
  show ?thesis
  proof (cases op)
    case (New_Root this worker limit)
    then show ?thesis using new_root_inv [OF inv] assms(2) by (simp add: s)
  next
    case (New_Child this parent limit)
    then show ?thesis using new_child_inv [OF inv, of this parent _ limit] assms(2) by (auto simp: s)
  next
    case (Reserve this worker bytes)
    then obtain b where "h this = Some b" using assms(2) by (auto simp: s)
    from reserve_exec_inv [OF inv this, of worker bytes] obtain res h'
      where "reserve this worker bytes h = Some (res, h')" "\<forall>e. res = Inl e \<longrightarrow> h' = h"
        "\<forall>r. res = Inr r \<longrightarrow> budget_inv \<lparr>sys_budgets = h', sys_reservations = rs @ [r]\<rparr>" by blast
    with Reserve inv show ?thesis by (cases res) (simp_all add: s add_reservation_def)
  next
    case (Reserve_For_Allocation this worker bytes acquire)
    then obtain b where "h this = Some b" using assms(2) by (auto simp: s)
    from reserve_exec_inv [OF inv this, of worker bytes] obtain res h'
      where "reserve this worker bytes h = Some (res, h')" "\<forall>e. res = Inl e \<longrightarrow> h' = h"
        "\<forall>r. res = Inr r \<longrightarrow> release_unchecked r h' = Some (empty_reservation, h) \<and>
           budget_inv \<lparr>sys_budgets = h', sys_reservations = rs @ [r]\<rparr>" by blast
    with Reserve_For_Allocation inv show ?thesis
      by (cases res; cases acquire) (simp_all add: s add_reservation_def reserve_for_allocation_def)
  next
    case (Grow i worker bytes)
    then show ?thesis
      using grow_inv [OF inv, of i worker bytes] assms(2) by (auto simp: s set_reservation_def)
  next
    case (Shrink i worker bytes)
    then show ?thesis
      using shrink_inv [OF inv, of i worker bytes] assms(2) by (auto simp: s set_reservation_def)
  next
    case (Release i worker)
    then show ?thesis
      using reservation_release_inv [OF inv, of i worker] assms(2)
      by (auto simp: s set_reservation_def)
  next
    case (Move_Construct i)
    then show ?thesis
      using move_construct_inv [OF inv] assms(2) by (simp add: s move_from_eq)
  next
    case (Move_Assign i j)
    then show ?thesis
      using move_assign_inv [OF inv, of i j] assms by (cases "i = j") (auto simp: s)
  next
    case (Destroy_Reservation i)
    then show ?thesis
      using release_unchecked_inv [OF inv, of i] assms(2) by (auto simp: s set_reservation_def)
  next
    case (Destroy_Budget this)
    then show ?thesis
      using destroy_budget_inv [OF inv, of this] assms(2)
      by (auto simp: s ready_for_destruction_def require_worker_def owns_def lifetime_error_def
          split: option.splits if_splits)
  qed
qed

interpretation budget_sys: guarded_system budget_exec budget_op_ok budget_init budget_inv
proof
  show "budget_inv budget_init" by (simp add: budget_inv_def budget_init_def)
qed (rule budget_exec_inv)

lemma budget_reachable_inv:
  assumes "reachable budget_exec budget_op_ok budget_init s"
  shows "budget_inv \<lparr>sys_budgets = sys_budgets s, sys_reservations = sys_reservations s\<rparr>"
  using budget_sys.reachable_inv [OF assms] by (cases s) simp

lemma budget_error_unchanged:
  assumes inv: "budget_inv s" and ok: "budget_op_ok op s"
    and "budget_exec op s = Some (Inl e, s')"
  shows "s' = s"
proof -
  obtain h rs where s: "s = \<lparr>sys_budgets = h, sys_reservations = rs\<rparr>" by (cases s)
  note inv' = inv [unfolded s]
  show ?thesis
  proof (cases op)
    case (Reserve this worker bytes)
    then obtain b where "h this = Some b" using ok by (auto simp: s)
    from reserve_exec_inv [OF inv' this, of worker bytes] obtain res h'
      where "reserve this worker bytes h = Some (res, h')" "\<forall>e. res = Inl e \<longrightarrow> h' = h" by blast
    with assms(3) Reserve show ?thesis by (cases res) (auto simp: s add_reservation_def)
  next
    case (Reserve_For_Allocation this worker bytes acquire)
    then obtain b where "h this = Some b" using ok by (auto simp: s)
    from reserve_exec_inv [OF inv' this, of worker bytes] obtain res h'
      where "reserve this worker bytes h = Some (res, h')" "\<forall>e. res = Inl e \<longrightarrow> h' = h"
        "\<forall>r. res = Inr r \<longrightarrow> release_unchecked r h' = Some (empty_reservation, h)" by blast
    with assms(3) Reserve_For_Allocation show ?thesis
      by (cases res; cases acquire) (auto simp: s add_reservation_def reserve_for_allocation_def)
  next
    case (Grow i worker bytes)
    then show ?thesis
      using grow_inv [OF inv', of i worker bytes] assms(3) ok by (auto simp: s set_reservation_def)
  next
    case (Shrink i worker bytes)
    then show ?thesis
      using shrink_inv [OF inv', of i worker bytes] assms(3) ok by (auto simp: s set_reservation_def)
  next
    case (Release i worker)
    then show ?thesis
      using reservation_release_inv [OF inv', of i worker] assms(3) ok
      by (auto simp: s set_reservation_def)
  qed (use assms(3) in \<open>auto simp: set_reservation_def split: if_splits prod.splits\<close>)
qed

text \<open>Evaluation on concrete programs.\<close>

lemmas budget_eval = budget_init_def root_budget_def child_budget_def register_child_def
  reserve_def require_worker_def owns_def preflight_Some each_ancestor_Some
  charge_reservation_def grow_charge_def reservation_grow_def grow_reservation_def
  add_reservation_def set_reservation_def move_from_def

definition one_budget :: BudgetSystem where
  "one_budget = \<lparr>sys_budgets = [1 \<mapsto> root_budget \<lparr>sid_value = 7\<rparr> 100], sys_reservations = []\<rparr>"

lemma one_budget_reachable: "reachable budget_exec budget_op_ok budget_init one_budget"
proof (rule reachable_step [OF reachable_start])
  show "budget_op_ok (New_Root 1 \<lparr>sid_value = 7\<rparr> 100) budget_init" by (simp add: budget_init_def)
  show "budget_exec (New_Root 1 \<lparr>sid_value = 7\<rparr> 100) budget_init = Some (Inr (), one_budget)"
    by (simp add: budget_init_def one_budget_def)
qed

section \<open>Properties\<close>

text \<open>
  C2: memory accounting is exact and never runs over. A program that keeps the lifetime rules
  can perform any sequence of constructions, reservations, growths, shrinkings, releases,
  moves and destructions: every call returns (no \<open>std::terminate\<close> is reached, no loop over
  the ancestors fails to end), and afterwards every budget has charged exactly the bytes of the
  live reservations made on it or on a descendant, stays within its limit, and counts exactly
  those reservations and its children.
\<close>

theorem budget_accounting_exact:
  assumes "run_ok budget_exec budget_op_ok ops budget_init"
  shows "\<exists>res s. run budget_exec ops budget_init = Some (res, s) \<and>
    (\<forall>a b. sys_budgets s a = Some b \<longrightarrow>
       unat (mb_charged b) = reserved_bytes (sys_budgets s) (sys_reservations s) a \<and>
       mb_charged b \<le> mb_limit b \<and>
       unat (mb_live_reservations b) = reservation_count (sys_budgets s) (sys_reservations s) a \<and>
       unat (mb_live_children b) = card (children (sys_budgets s) a))"
proof -
  obtain res s where "run budget_exec ops budget_init = Some (res, s)"
      "reachable budget_exec budget_op_ok budget_init s"
    using budget_sys.run_total [OF reachable_start assms] by blast
  then show ?thesis
    using budget_inv_ok [OF budget_reachable_inv] unfolding budget_ok_def by blast
qed

theorem budget_accounting_exact_witness:
  "\<exists>res s. run budget_exec
      [New_Root 1 \<lparr>sid_value = 7\<rparr> 100, New_Child 2 1 50, Reserve 2 \<lparr>sid_value = 7\<rparr> 30,
       Grow 0 \<lparr>sid_value = 7\<rparr> 10, Reserve 1 \<lparr>sid_value = 7\<rparr> 90, Move_Construct 0] budget_init
      = Some (res, s) \<and>
    (\<forall>a b. sys_budgets s a = Some b \<longrightarrow>
       unat (mb_charged b) = reserved_bytes (sys_budgets s) (sys_reservations s) a \<and>
       mb_charged b \<le> mb_limit b \<and>
       unat (mb_live_reservations b) = reservation_count (sys_budgets s) (sys_reservations s) a \<and>
       unat (mb_live_children b) = card (children (sys_budgets s) a))"
  by (rule budget_accounting_exact) (simp add: budget_eval)

text \<open>
  C7: reserving charges a budget and all its ancestors, or nobody. In every state a program can
  reach, the ancestors of a budget form a finite list without repetition; a reservation is
  granted exactly if the caller is the owning worker and each of these budgets has room for it,
  and then each of them, and no other budget, is charged with the bytes and one more
  reservation. Otherwise an error is returned and every budget is as before.
\<close>

theorem reserve_charges_ancestors:
  assumes "reachable budget_exec budget_op_ok budget_init s"
    and "sys_budgets s this = Some b"
  shows "\<exists>xs. budget_chain (sys_budgets s) (Some this) = Some xs \<and> distinct xs \<and>
    (if owns b worker \<and> (\<forall>x \<in> set xs. has_room bytes (the (sys_budgets s x)))
     then reserve this worker bytes (sys_budgets s)
            = Some (Inr \<lparr>mr_budget = Some this, mr_bytes = bytes\<rparr>,
                    map_budgets (add_charge bytes) (set xs) (sys_budgets s))
     else \<exists>e. reserve this worker bytes (sys_budgets s) = Some (Inl e, sys_budgets s))"
proof -
  obtain xs where xs: "budget_chain (sys_budgets s) (Some this) = Some xs"
    using budget_inv_chain [OF budget_reachable_inv [OF assms(1)] assms(2)] ..
  then show ?thesis
    using reserve_cases [OF xs assms(2), of worker bytes] budget_chain_distinct [OF xs] by blast
qed

theorem reserve_charges_ancestors_witness:
  "\<exists>xs. budget_chain (sys_budgets one_budget) (Some 1) = Some xs \<and> distinct xs \<and>
    (if owns (root_budget \<lparr>sid_value = 7\<rparr> 100) \<lparr>sid_value = 7\<rparr> \<and>
        (\<forall>x \<in> set xs. has_room 30 (the (sys_budgets one_budget x)))
     then reserve 1 \<lparr>sid_value = 7\<rparr> 30 (sys_budgets one_budget)
            = Some (Inr \<lparr>mr_budget = Some 1, mr_bytes = 30\<rparr>,
                    map_budgets (add_charge 30) (set xs) (sys_budgets one_budget))
     else \<exists>e. reserve 1 \<lparr>sid_value = 7\<rparr> 30 (sys_budgets one_budget)
            = Some (Inl e, sys_budgets one_budget))"
  by (rule reserve_charges_ancestors [OF one_budget_reachable]) (simp add: one_budget_def)

text \<open>
  C8: operations are all-or-nothing. Whenever an operation of a reachable program reports an
  error, no budget and no reservation has changed. In particular an allocation whose acquisition
  fails is rolled back completely.
\<close>

theorem budget_operations_atomic:
  assumes "reachable budget_exec budget_op_ok budget_init s"
    and "budget_op_ok op s" and "budget_exec op s = Some (Inl e, s')"
  shows "s' = s"
  using budget_error_unchanged [OF budget_sys.reachable_inv [OF assms(1)] assms(2,3)] .

theorem budget_operations_atomic_witness:
  "\<exists>e s'. budget_exec (Reserve 1 \<lparr>sid_value = 7\<rparr> 101) one_budget = Some (Inl e, s') \<and>
     s' = one_budget"
proof -
  have "\<exists>e s'. budget_exec (Reserve 1 \<lparr>sid_value = 7\<rparr> 101) one_budget = Some (Inl e, s')"
    by (simp add: budget_eval one_budget_def)
  moreover have "budget_op_ok (Reserve 1 \<lparr>sid_value = 7\<rparr> 101) one_budget"
    by (simp add: one_budget_def)
  ultimately show ?thesis
    using budget_operations_atomic [OF one_budget_reachable] by blast
qed

end
