(* ===== verification/Io_Slices.thy ===== *)
theory Io_Slices
  imports Memory_Model Guarded_Systems
begin

text \<open>
  The scatter/gather lists of \<open>src/core/contract/laghu/core/bounded_buffer.hpp\<close> (\<open>IoSlice\<close> and
  \<open>IoSliceList\<close>), their translation to POSIX vectors in \<open>src/os/io_slices.cpp\<close>, and the single
  reads and writes of \<open>src/os/io_operations.cpp\<close>. A list of slices is a queue of bytes:
  appending adds at the end, consuming drops from the front, whatever the cuts between the
  slices. The locale \<open>byte_queue\<close> is what a writer relies on.
\<close>

section \<open>Definitions\<close>

record IoSlice =
  io_bytes :: ByteView

record IoSliceList =
  isl_storage :: "IoSlice list"
  isl_count :: size_t
  isl_bytes :: size_t

definition io_slice :: "ByteView \<Rightarrow> IoSlice" where
  "io_slice bytes = \<lparr>io_bytes = bytes\<rparr>"

definition io_slice_size :: "IoSlice \<Rightarrow> size_t" where
  "io_slice_size s = sp_size (io_bytes s)"

definition io_slice_consume :: "IoSlice \<Rightarrow> size_t \<Rightarrow> unit Result \<times> IoSlice" where
  "io_slice_consume s bytes =
     (if bytes > sp_size (io_bytes s)
        then (Inl (core_error EC_invalid_range ''I/O slice consume exceeds readable region''), s)
      else case byte_view_slice (io_bytes s) bytes (sp_size (io_bytes s) - bytes) of
        Inl e \<Rightarrow> (Inl e, s)
      | Inr remaining \<Rightarrow> (Inr (), s\<lparr>io_bytes := remaining\<rparr>))"

definition io_slice_list :: "IoSlice list \<Rightarrow> IoSliceList" where
  "io_slice_list storage = \<lparr>isl_storage = storage, isl_count = 0, isl_bytes = 0\<rparr>"

definition isl_slices :: "IoSliceList \<Rightarrow> IoSlice list" where
  "isl_slices l = take (unat (isl_count l)) (isl_storage l)"

definition isl_append :: "ByteView \<Rightarrow> IoSliceList \<Rightarrow> unit Result \<times> IoSliceList" where
  "isl_append bytes l =
     (if sp_size bytes = 0 then (Inr (), l)
      else if unat (isl_count l) = length (isl_storage l)
        then (Inl (core_error EC_exhaustion ''I/O slice list capacity is exhausted''), l)
      else case checked_add (isl_bytes l) (sp_size bytes) of
        Inl e \<Rightarrow> (Inl e, l)
      | Inr sum_bytes \<Rightarrow>
          (Inr (), l\<lparr>isl_storage := (isl_storage l)[unat (isl_count l) := io_slice bytes],
                     isl_count := isl_count l + 1, isl_bytes := sum_bytes\<rparr>))"

text \<open>
  The loop that counts the slices consumed entirely: the slices not yet passed, the bytes still
  to consume and the number passed.
\<close>

primrec skip_slices :: "IoSlice list \<Rightarrow> size_t \<Rightarrow> nat \<Rightarrow> size_t \<times> nat" where
  "skip_slices [] remaining removed = (remaining, removed)"
| "skip_slices (s # rest) remaining removed =
     (if remaining \<ge> io_slice_size s
      then skip_slices rest (remaining - io_slice_size s) (removed + 1)
      else (remaining, removed))"

text \<open>The loop that moves the remaining slices to the front.\<close>

definition shift_slices :: "IoSlice list \<Rightarrow> nat \<Rightarrow> nat \<Rightarrow> IoSlice list" where
  "shift_slices storage removed count =
     foldl (\<lambda>st index. st[index - removed := st ! index]) storage [removed ..< count]"

definition isl_consume :: "size_t \<Rightarrow> IoSliceList \<Rightarrow> (unit Result \<times> IoSliceList) option" where
  "isl_consume bytes l =
     (if bytes > isl_bytes l
        then Some (Inl (core_error EC_invalid_range
                          ''I/O slice list consume exceeds readable regions''), l)
      else
        let (remaining, removed) = skip_slices (isl_slices l) bytes 0;
            partial = (if remaining \<noteq> 0
                       then (case io_slice_consume (isl_storage l ! removed) remaining of
                               (Inl _, _) \<Rightarrow> None
                             | (Inr _, s) \<Rightarrow> Some ((isl_storage l)[removed := s]))
                       else Some (isl_storage l))
        in map_option
             (\<lambda>storage.
                (Inr (),
                 if removed \<noteq> 0
                 then l\<lparr>isl_storage := shift_slices storage removed (unat (isl_count l)),
                        isl_count := isl_count l - of_nat removed,
                        isl_bytes := isl_bytes l - bytes\<rparr>
                 else l\<lparr>isl_storage := storage, isl_bytes := isl_bytes l - bytes\<rparr>))
             partial)"

subsection \<open>POSIX vectors and transfers\<close>

record iovec =
  iov_base :: addr
  iov_len :: size_t

definition translate_iovecs :: "IoSliceList \<Rightarrow> iovec list \<Rightarrow> size_t Result \<times> iovec list" where
  "translate_iovecs slices output =
     (if unat (isl_count slices) > length output
        then (Inl (core_error EC_exhaustion ''POSIX I/O vector storage is exhausted''), output)
      else
        let (index, output) =
              foldl (\<lambda>(index, out) s.
                       (index + 1, out[unat index := \<lparr>iov_base = sp_data (io_bytes s),
                                                     iov_len = io_slice_size s\<rparr>]))
                (0, output) (isl_slices slices)
        in (Inr index, output))"

definition consume_written :: "IoSliceList \<Rightarrow> size_t \<Rightarrow> (unit Result \<times> IoSliceList) option" where
  "consume_written slices bytes = isl_consume bytes slices"

text \<open>
  The system calls are parameters: given descriptor, pointer and size they return a count, or a
  negative number and an error number.
\<close>

type_synonym 'w io_function = "int \<Rightarrow> addr \<Rightarrow> size_t \<Rightarrow> memory \<times> 'w \<Rightarrow> (int \<times> int) \<times> memory \<times> 'w"

record 'w IoOperations =
  ops_read :: "'w io_function option"
  ops_write :: "'w io_function option"

definition transfer_result :: "(int \<times> int) \<times> memory \<times> 'w \<Rightarrow> string \<Rightarrow> size_t Result \<times> memory \<times> 'w" where
  "transfer_result call diagnostic =
     (case call of ((result, errno), s) \<Rightarrow>
        (if result < 0 then Inl (from_errno errno diagnostic) else Inr (of_int result), s))"

definition read_once ::
    "int \<Rightarrow> MutableByteView \<Rightarrow> 'w IoOperations \<Rightarrow> memory \<times> 'w \<Rightarrow> size_t Result \<times> memory \<times> 'w" where
  "read_once descriptor output operations s =
     (case ops_read operations of
        None \<Rightarrow> (Inl (core_error EC_invalid_input ''read operation is invalid''), s)
      | Some read \<Rightarrow>
          if descriptor < 0 then (Inl (core_error EC_invalid_input ''read operation is invalid''), s)
          else transfer_result (read descriptor (sp_data output) (sp_size output) s) ''read operation failed'')"

definition write_once ::
    "int \<Rightarrow> ByteView \<Rightarrow> 'w IoOperations \<Rightarrow> memory \<times> 'w \<Rightarrow> size_t Result \<times> memory \<times> 'w" where
  "write_once descriptor input operations s =
     (case ops_write operations of
        None \<Rightarrow> (Inl (core_error EC_invalid_input ''write operation is invalid''), s)
      | Some write \<Rightarrow>
          if descriptor < 0 then (Inl (core_error EC_invalid_input ''write operation is invalid''), s)
          else transfer_result (write descriptor (sp_data input) (sp_size input) s) ''write operation failed'')"

text \<open>
  What POSIX says of \<open>read\<close> for these uses: no more bytes than asked for, and these only at the
  start of the buffer. Then \<open>read_once\<close> returns the number of bytes at the start of its
  view that may have changed.
\<close>

definition reads_within :: "'w io_function \<Rightarrow> bool" where
  "reads_within read \<longleftrightarrow> (\<forall>fd a n m w. case read fd a n (m, w) of ((result, errno), m', w') \<Rightarrow>
     result \<le> uint n \<and> (\<forall>x. \<not> (a \<le> x \<and> int x < int a + result) \<longrightarrow> m' x = m x))"

lemma read_once_within:
  assumes "reads_within read" and "ops_read operations = Some read" and "0 \<le> descriptor"
    and run: "read_once descriptor output operations (m, w) = (r, m', w')"
  shows "case r of Inl e \<Rightarrow> m' = m
    | Inr n \<Rightarrow> n \<le> sp_size output \<and> (\<forall>x. x \<notin> {sp_data output..<sp_data output + unat n} \<longrightarrow> m' x = m x)"
proof -
  obtain result errno where c: "read descriptor (sp_data output) (sp_size output) (m, w) = ((result, errno), m', w')"
    and r: "r = (if result < 0 then Inl (from_errno errno ''read operation failed'') else Inr (of_int result))"
    using run assms(2,3) by (auto simp: read_once_def transfer_result_def split: prod.splits)
  have le: "result \<le> uint (sp_size output)"
    and frame: "\<And>x. \<not> (sp_data output \<le> x \<and> int x < int (sp_data output) + result) \<Longrightarrow> m' x = m x"
    using assms(1) [unfolded reads_within_def, THEN spec, of descriptor, THEN spec, of "sp_data output", THEN spec,
      of "sp_size output", THEN spec, of m, THEN spec, of w] by (simp_all add: c)
  show ?thesis
  proof (cases "result < 0")
    case True
    then show ?thesis using frame by (simp add: r fun_eq_iff)
  next
    case False
    then have u: "uint (of_int result :: size_t) = result"
      using le uint_lt2p [of "sp_size output"] by (simp add: uint_word_of_int_eq take_bit_int_eq_self)
    then have n: "int (unat (of_int result :: size_t)) = result" by simp
    have "m' x = m x" if "x \<notin> {sp_data output..<sp_data output + unat (of_int result :: size_t)}" for x
      using that n by (intro frame, unfold atLeastLessThan_iff) linarith
    then show ?thesis using False le u by (auto simp: r word_le_def)
  qed
qed

section \<open>What a reader of queued bytes relies on\<close>

text \<open>Consuming again and again, and the bytes that pass by.\<close>

primrec consume_chunks ::
    "(size_t \<Rightarrow> 's \<Rightarrow> (unit Result \<times> 's) option) \<Rightarrow> size_t list \<Rightarrow> 's \<Rightarrow> 's option" where
  "consume_chunks consume [] s = Some s"
| "consume_chunks consume (n # ns) s =
     (case consume n s of
        Some (Inr _, s') \<Rightarrow> consume_chunks consume ns s'
      | _ \<Rightarrow> None)"

locale byte_queue =
  fixes content :: "'s \<Rightarrow> byte list"
    and ok :: "'s \<Rightarrow> bool"
    and consume :: "size_t \<Rightarrow> 's \<Rightarrow> (unit Result \<times> 's) option"
  assumes consume_ok: "ok s \<Longrightarrow> unat n \<le> length (content s) \<Longrightarrow>
      \<exists>s'. consume n s = Some (Inr (), s') \<and> ok s' \<and> content s' = drop (unat n) (content s)"
    and consume_error: "ok s \<Longrightarrow> length (content s) < unat n \<Longrightarrow> \<exists>e. consume n s = Some (Inl e, s)"
begin

lemma consume_returns: "ok s \<Longrightarrow> \<exists>r s'. consume n s = Some (r, s') \<and> ok s'"
  using consume_ok [of s n] consume_error [of s n] by (cases "unat n \<le> length (content s)") auto

lemma consume_chunks_content:
  "ok s \<Longrightarrow> sum_list (map unat ns) \<le> length (content s) \<Longrightarrow>
   \<exists>s'. consume_chunks consume ns s = Some s' \<and> ok s' \<and>
        content s' = drop (sum_list (map unat ns)) (content s)"
proof (induction ns arbitrary: s)
  case Nil
  then show ?case by simp
next
  case (Cons n ns)
  then obtain s1 where s1: "consume n s = Some (Inr (), s1)" "ok s1"
      "content s1 = drop (unat n) (content s)"
    using consume_ok [of s n] by auto
  moreover have "sum_list (map unat ns) \<le> length (content s1)"
    using Cons.prems(2) s1(3) by simp
  ultimately obtain s2 where "consume_chunks consume ns s1 = Some s2" "ok s2"
      "content s2 = drop (sum_list (map unat ns)) (content s1)"
    using Cons.IH by blast
  with s1 show ?case by (simp add: add.commute)
qed

lemma consume_all:
  assumes "ok s" and "sum_list (map unat ns) = length (content s)"
  shows "\<exists>s'. consume_chunks consume ns s = Some s' \<and> ok s' \<and> content s' = []"
  using consume_chunks_content [OF assms(1), of ns] assms(2) by simp

end

section \<open>The slice list is a byte queue\<close>

definition isl_content :: "memory \<Rightarrow> IoSliceList \<Rightarrow> byte list" where
  "isl_content m l = concat (map (\<lambda>s. span_bytes m (io_bytes s)) (isl_slices l))"

definition slices_size :: "IoSlice list \<Rightarrow> nat" where
  "slices_size ss = sum_list (map (\<lambda>s. unat (io_slice_size s)) ss)"

definition isl_ok :: "IoSliceList \<Rightarrow> bool" where
  "isl_ok l \<longleftrightarrow> unat (isl_count l) \<le> length (isl_storage l)
     \<and> length (isl_storage l) < 2 ^ 64
     \<and> unat (isl_bytes l) = slices_size (isl_slices l)"

lemma slices_size_simps [simp]:
  "slices_size [] = 0"
  "slices_size (s # ss) = unat (io_slice_size s) + slices_size ss"
  "slices_size (ss @ ts) = slices_size ss + slices_size ts"
  by (simp_all add: slices_size_def)

lemma length_concat_slices:
  "length (concat (map (\<lambda>s. span_bytes m (io_bytes s)) ss)) = slices_size ss"
  by (induction ss) (simp_all add: io_slice_size_def)

lemma length_isl_content: "isl_ok l \<Longrightarrow> length (isl_content m l) = unat (isl_bytes l)"
  by (simp add: isl_content_def isl_ok_def length_concat_slices)

lemma drop_concat_slices:
  "drop (slices_size (take j ss) + k) (concat (map (\<lambda>s. span_bytes m (io_bytes s)) ss))
   = drop k (concat (map (\<lambda>s. span_bytes m (io_bytes s)) (drop j ss)))"
proof -
  have "concat (map (\<lambda>s. span_bytes m (io_bytes s)) ss)
      = concat (map (\<lambda>s. span_bytes m (io_bytes s)) (take j ss))
        @ concat (map (\<lambda>s. span_bytes m (io_bytes s)) (drop j ss))"
    by (simp flip: concat_append map_append)
  then show ?thesis by (simp add: length_concat_slices)
qed

lemma skip_slices_spec:
  "skip_slices ss n k = (r, j) \<Longrightarrow>
   \<exists>i \<le> length ss. j = k + i \<and> unat n = slices_size (take i ss) + unat r
     \<and> (i < length ss \<longrightarrow> r < io_slice_size (ss ! i))"
proof (induction ss arbitrary: n k)
  case Nil
  then show ?case by simp
next
  case (Cons s ss)
  show ?case
  proof (cases "io_slice_size s \<le> n")
    case True
    with Cons.prems have "skip_slices ss (n - io_slice_size s) (k + 1) = (r, j)" by simp
    from Cons.IH [OF this] obtain i where "i \<le> length ss" "j = k + 1 + i"
      "unat (n - io_slice_size s) = slices_size (take i ss) + unat r"
      "i < length ss \<longrightarrow> r < io_slice_size (ss ! i)" by blast
    with True show ?thesis
      by (intro exI [of _ "Suc i"]) (simp add: unat_sub word_le_nat_alt)
  next
    case False
    with Cons.prems show ?thesis by (intro exI [of _ 0]) auto
  qed
qed

lemma shift_slices_nth:
  assumes "removed \<le> count" and "count \<le> length st"
  shows "length (shift_slices st removed count) = length st"
    and "i < length st \<Longrightarrow> shift_slices st removed count ! i
           = (if i < count - removed then st ! (i + removed) else st ! i)"
proof -
  have "length (shift_slices st removed count) = length st \<and>
    (\<forall>i < length st. shift_slices st removed count ! i
           = (if i < count - removed then st ! (i + removed) else st ! i))"
    using assms
  proof (induction count rule: dec_induct)
    case base
    then show ?case by (simp add: shift_slices_def)
  next
    case (step c)
    have "shift_slices st removed (Suc c)
        = (shift_slices st removed c)[c - removed := shift_slices st removed c ! c]"
      using step.hyps by (simp add: shift_slices_def)
    with step show ?case by (auto simp: nth_list_update less_Suc_eq)
  qed
  then show "length (shift_slices st removed count) = length st"
    and "i < length st \<Longrightarrow> shift_slices st removed count ! i
           = (if i < count - removed then st ! (i + removed) else st ! i)"
    by auto
qed

lemma take_shift_slices:
  assumes "removed \<le> count" and "count \<le> length st"
  shows "take (count - removed) (shift_slices st removed count) = drop removed (take count st)"
  using assms by (intro nth_equalityI) (simp_all add: shift_slices_nth add.commute)

text \<open>The list after consuming, whether or not slices were removed.\<close>

lemma consumed_slices:
  assumes ok: "isl_ok l" and le: "removed \<le> unat (isl_count l)"
    and len: "length storage = length (isl_storage l)"
    and l': "l' = (if removed \<noteq> 0
               then l\<lparr>isl_storage := shift_slices storage removed (unat (isl_count l)),
                      isl_count := isl_count l - of_nat removed, isl_bytes := b\<rparr>
               else l\<lparr>isl_storage := storage, isl_bytes := b\<rparr>)"
  shows "isl_slices l' = drop removed (take (unat (isl_count l)) storage)"
    and "unat (isl_count l') = unat (isl_count l) - removed"
    and "length (isl_storage l') = length (isl_storage l)"
proof -
  have bound: "unat (isl_count l) \<le> length storage" "removed < 2 ^ 64"
    using ok le len unat_bound [of "isl_count l"] by (simp_all add: isl_ok_def)
  then have "unat (of_nat removed :: size_t) = removed" by (simp add: unat_of_nat_small)
  with le have "unat (isl_count l - of_nat removed) = unat (isl_count l) - removed"
    by (simp add: unat_sub word_le_nat_alt)
  with bound le len l' show "isl_slices l' = drop removed (take (unat (isl_count l)) storage)"
    and "unat (isl_count l') = unat (isl_count l) - removed"
    and "length (isl_storage l') = length (isl_storage l)"
    by (auto simp: isl_slices_def take_shift_slices shift_slices_nth(1))
qed

lemma io_slice_consume_ok:
  "n \<le> io_slice_size s \<Longrightarrow>
   io_slice_consume s n = (Inr (), s\<lparr>io_bytes := subspan (io_bytes s) n (io_slice_size s - n)\<rparr>)"
  by (simp add: io_slice_consume_def io_slice_size_def byte_view_slice_eq word_le_nat_alt
      unat_sub not_less)

lemma span_bytes_skip:
  "n \<le> sp_size v \<Longrightarrow> span_bytes m (subspan v n (sp_size v - n)) = drop (unat n) (span_bytes m v)"
  by (simp add: span_bytes_load drop_load unat_sub)

lemma isl_consume_ok:
  assumes ok: "isl_ok l" and n: "unat n \<le> unat (isl_bytes l)"
  shows "\<exists>l'. isl_consume n l = Some (Inr (), l') \<and> isl_ok l' \<and>
           length (isl_storage l') = length (isl_storage l) \<and>
           (\<forall>m. isl_content m l' = drop (unat n) (isl_content m l))"
proof -
  obtain r j where skip: "skip_slices (isl_slices l) n 0 = (r, j)"
    by (cases "skip_slices (isl_slices l) n 0")
  define ss where "ss = isl_slices l"
  have len: "length ss = unat (isl_count l)" and nth: "i < length ss \<Longrightarrow> ss ! i = isl_storage l ! i" for i
    using ok by (simp_all add: ss_def isl_slices_def isl_ok_def)
  from skip_slices_spec [OF skip] have j: "j \<le> length ss" "unat n = slices_size (take j ss) + unat r"
    "j < length ss \<Longrightarrow> r < io_slice_size (ss ! j)" by (auto simp: ss_def)
  define rest where "rest = (if r \<noteq> 0 then (ss ! j)\<lparr>io_bytes := subspan (io_bytes (ss ! j)) r
      (io_slice_size (ss ! j) - r)\<rparr> # drop (Suc j) ss else drop j ss)"
  define st where "st = (if r \<noteq> 0 then (isl_storage l)[j := hd rest] else isl_storage l)"
  define l' where "l' = (if j \<noteq> 0
               then l\<lparr>isl_storage := shift_slices st j (unat (isl_count l)),
                      isl_count := isl_count l - of_nat j, isl_bytes := isl_bytes l - n\<rparr>
               else l\<lparr>isl_storage := st, isl_bytes := isl_bytes l - n\<rparr>)"
  have "unat (isl_bytes l) = slices_size (take j ss) + slices_size (drop j ss)"
    using ok by (simp add: isl_ok_def ss_def flip: slices_size_simps(3))
  with n j have room: "unat r \<le> slices_size (drop j ss)" by simp
  have jless: "j < length ss" if "r \<noteq> 0"
    using that room by (cases "j < length ss") (auto simp: unat_eq_0)
  have cons: "drop j ss = ss ! j # drop (Suc j) ss" if "r \<noteq> 0"
    using jless [OF that] by (simp add: Cons_nth_drop_Suc)
  have within: "r \<le> io_slice_size (ss ! j)" if "r \<noteq> 0"
    using j(3) jless [OF that] by simp
  have st_len: "length st = length (isl_storage l)" by (simp add: st_def)
  have "drop j (take (unat (isl_count l)) st) = rest"
  proof (cases "r = 0")
    case True
    then show ?thesis by (simp add: st_def rest_def ss_def isl_slices_def)
  next
    case False
    have "take (unat (isl_count l)) st = ss[j := hd rest]"
      using False by (simp add: st_def ss_def isl_slices_def take_update_swap)
    then show ?thesis
      using False jless cons by (simp add: drop_update_swap rest_def)
  qed
  with consumed_slices [OF ok _ st_len l'_def] j(1) len
  have slices: "isl_slices l' = rest" and count: "unat (isl_count l') = unat (isl_count l) - j"
    and length: "length (isl_storage l') = length (isl_storage l)" by simp_all
  have content: "concat (map (\<lambda>s. span_bytes m (io_bytes s)) rest)
      = drop (unat r) (concat (map (\<lambda>s. span_bytes m (io_bytes s)) (drop j ss)))" for m
    using within cons by (simp add: rest_def io_slice_size_def span_bytes_skip word_le_nat_alt)
  have drop_all: "isl_content m l' = drop (unat n) (isl_content m l)" for m
    by (simp add: isl_content_def slices content j(2) drop_concat_slices flip: ss_def)
  have "slices_size rest = length (isl_content (\<lambda>_. 0) l')"
    by (simp add: isl_content_def slices length_concat_slices)
  then have "slices_size rest = unat (isl_bytes l) - unat n"
    by (simp add: drop_all length_isl_content [OF ok])
  moreover have "isl_bytes l' = isl_bytes l - n" by (simp add: l'_def)
  ultimately have ok': "isl_ok l'"
    using ok n count length slices by (auto simp: isl_ok_def unat_sub word_le_nat_alt)
  have partial: "(if r \<noteq> 0
       then (case io_slice_consume (isl_storage l ! j) r of
               (Inl _, _) \<Rightarrow> None | (Inr _, s) \<Rightarrow> Some ((isl_storage l)[j := s]))
       else Some (isl_storage l)) = Some st"
    using within jless nth by (simp add: io_slice_consume_ok st_def rest_def)
  have "isl_consume n l = Some (Inr (), l')"
    using n unfolding isl_consume_def skip Let_def prod.case partial
    by (simp add: l'_def word_le_nat_alt not_less)
  with ok' length drop_all show ?thesis by blast
qed

lemma isl_consume_error:
  "isl_bytes l < n \<Longrightarrow> isl_consume n l
     = Some (Inl (core_error EC_invalid_range ''I/O slice list consume exceeds readable regions''), l)"
  by (simp add: isl_consume_def)

interpretation isl: byte_queue "isl_content m"
    "\<lambda>l. isl_ok l \<and> length (isl_storage l) = cap" isl_consume for m cap
proof
  show "\<exists>l'. isl_consume n l = Some (Inr (), l') \<and>
      (isl_ok l' \<and> length (isl_storage l') = cap) \<and>
      isl_content m l' = drop (unat n) (isl_content m l)"
    if "isl_ok l \<and> length (isl_storage l) = cap" "unat n \<le> length (isl_content m l)" for l n
    using isl_consume_ok [of l n] that by (auto simp: length_isl_content)
  show "\<exists>e. isl_consume n l = Some (Inl e, l)"
    if "isl_ok l \<and> length (isl_storage l) = cap" "length (isl_content m l) < unat n" for l n
    using that by (auto simp: length_isl_content isl_consume_error word_less_nat_alt)
qed

lemma isl_append_fits:
  assumes ok: "isl_ok l" and room: "unat (isl_count l) < length (isl_storage l)"
    and size: "sp_size v \<noteq> 0" and fits: "unat (isl_bytes l) + unat (sp_size v) < 2 ^ 64"
    and l': "l' = l\<lparr>isl_storage := (isl_storage l)[unat (isl_count l) := io_slice v],
                    isl_count := isl_count l + 1, isl_bytes := isl_bytes l + sp_size v\<rparr>"
  shows "isl_append v l = (Inr (), l')" and "isl_ok l'"
    and "isl_content m l' = isl_content m l @ span_bytes m v"
proof -
  have add: "checked_add (isl_bytes l) (sp_size v) = Inr (isl_bytes l + sp_size v)"
    using fits by (simp add: checked_add_eq)
  then show "isl_append v l = (Inr (), l')"
    using room size by (simp add: isl_append_def l' del: checked_add_Inr)
  have count: "unat (isl_count l + 1) = Suc (unat (isl_count l))"
    using ok room by (intro unat_Suc) (simp add: isl_ok_def)
  then have slices: "isl_slices l' = isl_slices l @ [io_slice v]"
    using room by (simp add: isl_slices_def l' take_Suc_conv_app_nth)
  then show "isl_content m l' = isl_content m l @ span_bytes m v"
    by (simp add: isl_content_def io_slice_def)
  show "isl_ok l'"
    using ok room count slices unat_add_no_wrap [of "isl_bytes l" "sp_size v"] fits
    by (simp add: isl_ok_def l' io_slice_size_def io_slice_def)
qed

lemma isl_append_cases:
  assumes ok: "isl_ok l"
  obtains (empty) "sp_size v = 0" and "isl_append v l = (Inr (), l)"
  | (full) "unat (isl_count l) = length (isl_storage l)"
      and "isl_append v l = (Inl (core_error EC_exhaustion ''I/O slice list capacity is exhausted''), l)"
  | (overflow) e where "2 ^ 64 \<le> unat (isl_bytes l) + unat (sp_size v)" and "isl_append v l = (Inl e, l)"
  | (appended) l' where "isl_append v l = (Inr (), l')" and "isl_ok l'"
      and "\<And>m. isl_content m l' = isl_content m l @ span_bytes m v"
proof -
  have "unat (isl_count l) \<le> length (isl_storage l)" using ok by (simp add: isl_ok_def)
  then consider (a) "sp_size v = 0"
    | (b) "sp_size v \<noteq> 0" "unat (isl_count l) = length (isl_storage l)"
    | (c) "sp_size v \<noteq> 0" "unat (isl_count l) < length (isl_storage l)"
        "2 ^ 64 \<le> unat (isl_bytes l) + unat (sp_size v)"
    | (d) "sp_size v \<noteq> 0" "unat (isl_count l) < length (isl_storage l)"
        "unat (isl_bytes l) + unat (sp_size v) < 2 ^ 64"
    using le_less_linear [of "2 ^ 64"] le_neq_implies_less by metis
  then show thesis
  proof cases
    case a
    then show ?thesis using empty by (simp add: isl_append_def)
  next
    case b
    then show ?thesis using full by (simp add: isl_append_def)
  next
    case c
    then have "\<exists>e. checked_add (isl_bytes l) (sp_size v) = Inl e"
      by (simp add: checked_add_eq)
    with c show ?thesis using overflow by (auto simp: isl_append_def)
  next
    case d
    show ?thesis by (rule appended) (rule isl_append_fits [OF ok d(2) d(1) d(3) refl])+
  qed
qed

section \<open>Sequences of operations\<close>

datatype isl_op = ISL_append ByteView | ISL_consume size_t

definition isl_exec :: "isl_op \<Rightarrow> IoSliceList \<Rightarrow> (unit Result \<times> IoSliceList) option" where
  "isl_exec op l = (case op of ISL_append v \<Rightarrow> Some (isl_append v l) | ISL_consume n \<Rightarrow> isl_consume n l)"

text \<open>The specification: a list of bytes that an operation which reports success changes.\<close>

definition queue_step :: "memory \<Rightarrow> isl_op \<Rightarrow> unit Result \<Rightarrow> byte list \<Rightarrow> byte list" where
  "queue_step m op r q =
     (case r of
        Inl _ \<Rightarrow> q
      | Inr _ \<Rightarrow> (case op of ISL_append v \<Rightarrow> q @ span_bytes m v | ISL_consume n \<Rightarrow> drop (unat n) q))"

lemma isl_exec_step:
  assumes "isl_ok l"
  shows "\<exists>r l'. isl_exec op l = Some (r, l') \<and> isl_ok l' \<and>
           isl_content m l' = queue_step m op r (isl_content m l)"
proof (cases op)
  case (ISL_append v)
  then show ?thesis
    by (cases rule: isl_append_cases [OF assms, of v])
       (auto simp: isl_exec_def queue_step_def assms span_bytes_load)
next
  case (ISL_consume n)
  then show ?thesis
    using isl_consume_ok [OF assms, of n] isl_consume_error [of l n] assms
    by (cases "unat n \<le> unat (isl_bytes l)")
       (auto simp: isl_exec_def queue_step_def word_less_nat_alt not_le)
qed

interpretation isl_queue: refined_system isl_exec "\<lambda>_. True" isl_ok "isl_content m" "queue_step m" for m
  by unfold_locales (rule isl_exec_step)

lemma isl_ok_empty:
  "length storage < 2 ^ 64 \<Longrightarrow> isl_ok (io_slice_list storage)"
  "isl_content m (io_slice_list storage) = []"
  by (simp_all add: isl_ok_def io_slice_list_def isl_slices_def isl_content_def)

text \<open>
  C10: A slice list over any storage is a queue of bytes. Whatever sequence of appends and
  consumes is performed, none reaches the \<open>std::terminate\<close> of \<open>consume\<close>; the bytes named by the
  list are those of the specification in which a successful append adds the region's bytes at the
  end, a successful consume drops from the front across slice boundaries, and a refused operation
  changes nothing; and \<open>bytes()\<close> is their number.
\<close>

theorem slice_list_refines_queue:
  assumes "length storage < 2 ^ 64"
  shows "\<exists>rs l. run isl_exec ops (io_slice_list storage) = Some (rs, l) \<and> length rs = length ops \<and>
           isl_content m l = fold (\<lambda>(op, r). queue_step m op r) (zip ops rs) [] \<and>
           unat (isl_bytes l) = length (isl_content m l)"
  using isl_queue.run_refines [OF isl_ok_empty(1) [OF assms], of ops m] length_isl_content [of _ m]
  by (metis isl_ok_empty(2) list.pred_True)

theorem slice_list_refines_queue_witness:
  "\<exists>rs l. run isl_exec [ISL_append \<lparr>sp_data = 10, sp_size = 2\<rparr>, ISL_append \<lparr>sp_data = 20, sp_size = 2\<rparr>,
                  ISL_consume 3] (io_slice_list (replicate 2 (io_slice empty_span))) = Some (rs, l) \<and>
     rs = [Inr (), Inr (), Inr ()] \<and> isl_content of_nat l = [21]"
proof -
  let ?ops = "[ISL_append \<lparr>sp_data = 10, sp_size = 2\<rparr>, ISL_append \<lparr>sp_data = 20, sp_size = 2\<rparr>,
                  ISL_consume 3]"
  have "map_option fst (run isl_exec ?ops (io_slice_list (replicate 2 (io_slice empty_span))))
      = Some [Inr (), Inr (), Inr ()]"
    by code_simp
  moreover have "fold (\<lambda>(op, r). queue_step of_nat op r) (zip ?ops [Inr (), Inr (), Inr ()]) [] = [21]"
    by code_simp
  ultimately show ?thesis
    using slice_list_refines_queue [of "replicate 2 (io_slice empty_span)" ?ops of_nat] by auto
qed

section \<open>Vectored output\<close>

text \<open>The bytes a vectored write takes from its vectors.\<close>

definition gather :: "memory \<Rightarrow> iovec list \<Rightarrow> byte list" where
  "gather m vs = concat (map (\<lambda>v. load m (iov_base v) (unat (iov_len v))) vs)"

definition to_iovec :: "IoSlice \<Rightarrow> iovec" where
  "to_iovec s = \<lparr>iov_base = sp_data (io_bytes s), iov_len = io_slice_size s\<rparr>"

lemma translate_loop:
  "unat k + length ss \<le> length out \<Longrightarrow> length out < 2 ^ 64 \<Longrightarrow>
   foldl (\<lambda>(index, out) s. (index + 1, out[unat index := \<lparr>iov_base = sp_data (io_bytes s),
                                                     iov_len = io_slice_size s\<rparr>])) (k, out) ss
   = (k + of_nat (length ss),
      take (unat k) out @ map to_iovec ss @ drop (unat k + length ss) out)" for k :: size_t
proof (induction ss arbitrary: k out)
  case Nil
  then show ?case by simp
next
  case (Cons s ss)
  then have Suc: "unat (k + 1) = Suc (unat k)" by (intro unat_Suc) simp
  have less: "unat k < length out" using Cons.prems by simp
  have "take (Suc (unat k)) (out[unat k := to_iovec s]) = take (unat k) out @ [to_iovec s]"
    using less by (simp add: take_Suc_conv_app_nth)
  moreover have "unat (k + 1) + length ss \<le> length (out[unat k := to_iovec s])"
    "length (out[unat k := to_iovec s]) < 2 ^ 64"
    using Cons.prems Suc by simp_all
  ultimately show ?case
    using Cons.IH [of "k + 1" "out[unat k := to_iovec s]"] Suc less
    by (simp add: to_iovec_def add.assoc)
qed

lemma translate_iovecs_eq:
  assumes "isl_ok l" and "unat (isl_count l) \<le> length out" and "length out < 2 ^ 64"
  shows "translate_iovecs l out
    = (Inr (isl_count l), map to_iovec (isl_slices l) @ drop (unat (isl_count l)) out)"
proof -
  have "length (isl_slices l) = unat (isl_count l)"
    using assms(1) by (simp add: isl_ok_def isl_slices_def)
  with assms(2,3) translate_loop [of 0 "isl_slices l" out] show ?thesis
    by (simp add: translate_iovecs_def)
qed

lemma gather_slices: "gather m (map to_iovec (isl_slices l)) = isl_content m l"
  by (simp add: gather_def isl_content_def to_iovec_def span_bytes_load io_slice_size_def comp_def)

text \<open>
  C34: Partial writes send the queued bytes once and in order. After any sequence of accepted
  partial writes, \<open>translate_iovecs\<close> fills one vector per remaining slice, the vectors gather exactly the
  bytes not yet sent, and the vectors beyond them are untouched; when the counts add up to the
  queued total the list is empty.
\<close>

theorem partial_writes_send_rest:
  assumes ok: "isl_ok l" and sent: "sum_list (map unat ns) \<le> unat (isl_bytes l)"
    and room: "length (isl_storage l) \<le> length out" "length out < 2 ^ 64"
  shows "\<exists>l' out'. consume_chunks (\<lambda>n l. consume_written l n) ns l = Some l' \<and>
     translate_iovecs l' out = (Inr (isl_count l'), out') \<and>
     gather m (take (unat (isl_count l')) out') = drop (sum_list (map unat ns)) (isl_content m l) \<and>
     drop (unat (isl_count l')) out' = drop (unat (isl_count l')) out \<and>
     (sum_list (map unat ns) = unat (isl_bytes l) \<longrightarrow> isl_content m l' = [])"
proof -
  have "consume_chunks (\<lambda>n l. consume_written l n) = consume_chunks isl_consume"
    by (simp add: consume_written_def)
  moreover obtain l' where "consume_chunks isl_consume ns l = Some l'" "isl_ok l'"
      "length (isl_storage l') = length (isl_storage l)"
      "isl_content m l' = drop (sum_list (map unat ns)) (isl_content m l)"
    using isl.consume_chunks_content [of l "length (isl_storage l)" ns m] ok sent
    by (auto simp: length_isl_content)
  moreover from this have "unat (isl_count l') = length (isl_slices l')"
      "unat (isl_count l') \<le> length out"
    using room by (auto simp: isl_ok_def isl_slices_def)
  ultimately show ?thesis
    using translate_iovecs_eq [of l' out] room ok by (simp add: gather_slices length_isl_content)
qed

text \<open>A list of two slices of which five bytes are queued; three are sent in two writes.\<close>

definition two_slices :: IoSliceList where
  "two_slices = \<lparr>isl_storage = [io_slice \<lparr>sp_data = 10, sp_size = 2\<rparr>, io_slice \<lparr>sp_data = 20, sp_size = 3\<rparr>],
     isl_count = 2, isl_bytes = 5\<rparr>"

theorem partial_writes_send_rest_witness:
  "isl_ok two_slices \<and> isl_content of_nat two_slices = [10, 11, 20, 21, 22] \<and>
   (\<exists>l' out'. consume_chunks (\<lambda>n l. consume_written l n) [1, 2] two_slices = Some l' \<and>
     translate_iovecs l' (replicate 2 \<lparr>iov_base = 0, iov_len = 0\<rparr>) = (Inr (isl_count l'), out') \<and>
     gather of_nat (take (unat (isl_count l')) out') = [21, 22])"
proof -
  let ?out = "replicate 2 \<lparr>iov_base = 0, iov_len = 0\<rparr>"
  have ok: "isl_ok two_slices"
    by (simp add: isl_ok_def two_slices_def isl_slices_def io_slice_def io_slice_size_def)
  have content: "isl_content of_nat two_slices = [10, 11, 20, 21, 22]" by code_simp
  have sent: "sum_list (map unat [1, 2 :: size_t]) \<le> unat (isl_bytes two_slices)"
    by (simp add: two_slices_def)
  have room: "length (isl_storage two_slices) \<le> length ?out" "length ?out < 2 ^ 64"
    by (simp_all add: two_slices_def)
  have "drop (sum_list (map unat [1, 2 :: size_t])) (isl_content of_nat two_slices) = [21, 22]"
    by (simp add: content)
  with partial_writes_send_rest [OF ok sent room, of of_nat] ok content show ?thesis by auto
qed

end
