(* ===== verification/Bounded_Buffer.thy ===== *)
theory Bounded_Buffer
  imports Budget_Accounting Io_Slices
begin

text \<open>
  \<open>BoundedBuffer\<close> of \<open>src/core/contract/laghu/core/bounded_buffer.hpp\<close>: a growing byte queue
  over blocks that a source lends, charged to a memory budget. The source is code outside the
  library, so its two functions are values of the model; they run on the source's own state and
  on the memory. An operation returns \<open>None\<close> where the code terminates the process or does not
  return. The lemmas show that the buffer is a byte queue, whatever the blocks and the moves
  between them, and that the budget is charged exactly its capacity.
\<close>

section \<open>Definitions\<close>

record 'c BufferBlockSource =
  src_acquire :: "(size_t \<Rightarrow> 'c \<times> memory \<Rightarrow> MutableByteView Result \<times> 'c \<times> memory) option"
  src_release :: "(MutableByteView \<Rightarrow> 'c \<times> memory \<Rightarrow> 'c \<times> memory) option"

record 'c BoundedBuffer =
  bb_worker :: WorkerId
  bb_budget :: addr
  bb_source :: "'c BufferBlockSource"
  bb_block :: MutableByteView
  bb_storage :: MutableByteView
  bb_reservation :: MemoryReservation
  bb_initial_capacity :: size_t
  bb_maximum_capacity :: size_t
  bb_capacity :: size_t
  bb_read_offset :: size_t
  bb_write_offset :: size_t

text \<open>The buffer, the budgets, the source's state and the memory.\<close>

type_synonym 'c buffer_state = "'c BoundedBuffer \<times> budgets \<times> 'c \<times> memory"

definition bounded_buffer ::
    "WorkerId \<Rightarrow> addr \<Rightarrow> 'c BufferBlockSource \<Rightarrow> size_t \<Rightarrow> size_t \<Rightarrow> 'c BoundedBuffer" where
  "bounded_buffer worker budget source initial_capacity maximum_capacity =
     \<lparr>bb_worker = worker, bb_budget = budget, bb_source = source, bb_block = empty_span,
      bb_storage = empty_span, bb_reservation = empty_reservation,
      bb_initial_capacity = initial_capacity, bb_maximum_capacity = maximum_capacity,
      bb_capacity = 0, bb_read_offset = 0, bb_write_offset = 0\<rparr>"

definition bb_size :: "'c BoundedBuffer \<Rightarrow> size_t" where
  "bb_size b = bb_write_offset b - bb_read_offset b"

definition bb_require_worker :: "'c BoundedBuffer \<Rightarrow> WorkerId \<Rightarrow> unit Result" where
  "bb_require_worker b worker =
     (if sid_value worker \<noteq> sid_value (bb_worker b)
        then Inl (core_error EC_invalid_state ''bounded buffer accessed by a different worker'')
      else Inr ())"

definition validate_source :: "'c BoundedBuffer \<Rightarrow> unit Result" where
  "validate_source b =
     (if bb_budget b = nullptr \<or> src_acquire (bb_source b) = None \<or> src_release (bb_source b) = None
         \<or> bb_initial_capacity b = 0 \<or> bb_initial_capacity b > bb_maximum_capacity b
        then Inl (core_error EC_invalid_input
                    ''bounded buffer has an invalid block source or capacity'')
      else Inr ())"

partial_function (option) grow_target :: "size_t \<Rightarrow> size_t \<Rightarrow> size_t \<Rightarrow> size_t option" where
  "grow_target maximum required target =
     (if target < required
      then if target > maximum - target then grow_target maximum required maximum
           else grow_target maximum required (target * 2)
      else Some target)"

definition next_capacity :: "'c BoundedBuffer \<Rightarrow> size_t \<Rightarrow> size_t Result option" where
  "next_capacity b required =
     map_option Inr
       (grow_target (bb_maximum_capacity b) required
          (if bb_capacity b = 0 then bb_initial_capacity b else bb_capacity b))"

definition bb_readable :: "WorkerId \<Rightarrow> 'c BoundedBuffer \<Rightarrow> ByteView Result" where
  "bb_readable worker b =
     (case bb_require_worker b worker of
        Inl e \<Rightarrow> Inl e
      | Inr _ \<Rightarrow> byte_view_from (subspan (bb_storage b) (bb_read_offset b) (bb_size b)))"

definition bb_writable :: "WorkerId \<Rightarrow> 'c BoundedBuffer \<Rightarrow> MutableByteView Result" where
  "bb_writable worker b =
     (case bb_require_worker b worker of
        Inl e \<Rightarrow> Inl e
      | Inr _ \<Rightarrow> mutable_byte_view_from
                   (subspan (bb_storage b) (bb_write_offset b) (bb_capacity b - bb_write_offset b)))"

text \<open>The callable passed to \<open>reserve_for_allocation\<close>; it keeps the block it accepts.\<close>

definition acquire_first_block ::
    "'c BufferBlockSource \<Rightarrow> size_t \<Rightarrow> MutableByteView \<times> 'c \<times> memory \<Rightarrow>
     unit Result \<times> MutableByteView \<times> 'c \<times> memory" where
  "acquire_first_block source target = (\<lambda>(acquired, w).
     (case the (src_acquire source) target w of
        (Inl e, w) \<Rightarrow> (Inl e, acquired, w)
      | (Inr block, w) \<Rightarrow>
          if sp_size block < target
          then (Inl (core_error EC_exhaustion ''bounded buffer block source is too small''),
                acquired, the (src_release source) block w)
          else (Inr (), block, w)))"

definition grow_first ::
    "WorkerId \<Rightarrow> size_t \<Rightarrow> 'c buffer_state \<Rightarrow> (unit Result \<times> 'c buffer_state) option" where
  "grow_first worker target = (\<lambda>(b, h, w).
     do { (reservation, h, acquired, w) \<leftarrow>
            reserve_for_allocation (bb_budget b) worker target
              (acquire_first_block (bb_source b) target) h (empty_span, w);
          case reservation of
            Inl e \<Rightarrow> Some (Inl e, b, h, w)
          | Inr r \<Rightarrow>
              (case mutable_byte_view_slice acquired 0 target of
                 Inl e \<Rightarrow>
                   do { (_, h) \<leftarrow> release_unchecked r h;
                        Some (Inl e, b, h, the (src_release (bb_source b)) acquired w) }
               | Inr storage \<Rightarrow>
                   do { ((r', _), h) \<leftarrow> move_assign (bb_reservation b) r h;
                        Some (Inr (), b\<lparr>bb_block := acquired, bb_storage := storage,
                                        bb_reservation := r', bb_capacity := target\<rparr>, h, w) }) })"

text \<open>The charge for a replacement that is not taken is rolled back.\<close>

definition rollback_growth ::
    "WorkerId \<Rightarrow> size_t \<Rightarrow> Error \<Rightarrow> 'c buffer_state \<Rightarrow> (unit Result \<times> 'c buffer_state) option" where
  "rollback_growth worker additional e = (\<lambda>(b, h, w).
     do { (rollback, r, h) \<leftarrow> reservation_shrink (bb_reservation b) worker additional h;
          case rollback of
            Inl _ \<Rightarrow> None
          | Inr _ \<Rightarrow> Some (Inl e, b\<lparr>bb_reservation := r\<rparr>, h, w) })"

definition install_replacement ::
    "MutableByteView \<Rightarrow> MutableByteView \<Rightarrow> size_t \<Rightarrow> 'c buffer_state \<Rightarrow> 'c buffer_state" where
  "install_replacement block replacement target = (\<lambda>(b, h, c, m).
     let readable_bytes = bb_size b;
         m = copy_loop (sp_data replacement) (sp_data (bb_storage b) + unat (bb_read_offset b))
               (unat readable_bytes) m;
         w = the (src_release (bb_source b)) (bb_block b) (c, m)
     in (b\<lparr>bb_block := block, bb_storage := replacement, bb_capacity := target,
           bb_read_offset := 0, bb_write_offset := readable_bytes\<rparr>, h, w))"

definition grow_again ::
    "WorkerId \<Rightarrow> size_t \<Rightarrow> 'c buffer_state \<Rightarrow> (unit Result \<times> 'c buffer_state) option" where
  "grow_again worker target = (\<lambda>(b, h, w).
     let additional = target - bb_capacity b in
     do { (grown, r, h) \<leftarrow> reservation_grow (bb_reservation b) worker additional h;
          let b = b\<lparr>bb_reservation := r\<rparr> in
          case grown of
            Inl e \<Rightarrow> Some (Inl e, b, h, w)
          | Inr _ \<Rightarrow>
              (case the (src_acquire (bb_source b)) target w of
                 (Inl e, w) \<Rightarrow> rollback_growth worker additional e (b, h, w)
               | (Inr block, w) \<Rightarrow>
                   if sp_size block < target
                   then rollback_growth worker additional
                          (core_error EC_exhaustion ''bounded buffer block source is too small'')
                          (b, h, the (src_release (bb_source b)) block w)
                   else case mutable_byte_view_slice block 0 target of
                     Inl e \<Rightarrow> rollback_growth worker additional e
                                (b, h, the (src_release (bb_source b)) block w)
                   | Inr replacement \<Rightarrow>
                       Some (Inr (), install_replacement block replacement target (b, h, w))) })"

definition bb_grow ::
    "WorkerId \<Rightarrow> size_t \<Rightarrow> 'c buffer_state \<Rightarrow> (unit Result \<times> 'c buffer_state) option" where
  "bb_grow worker required = (\<lambda>(b, h, w).
     case validate_source b of
       Inl e \<Rightarrow> Some (Inl e, b, h, w)
     | Inr _ \<Rightarrow>
         do { target \<leftarrow> next_capacity b required;
              case target of
                Inl e \<Rightarrow> Some (Inl e, b, h, w)
              | Inr target \<Rightarrow>
                  if target > bb_maximum_capacity b
                    then Some (Inl (core_error EC_exhaustion
                                      ''bounded buffer maximum capacity is exhausted''), b, h, w)
                  else if \<not> is_active (bb_reservation b) then grow_first worker target (b, h, w)
                  else grow_again worker target (b, h, w) })"

definition compact_unchecked :: "'c buffer_state \<Rightarrow> 'c buffer_state" where
  "compact_unchecked = (\<lambda>(b, h, c, m).
     if bb_read_offset b = 0 then (b, h, c, m)
     else
       let readable_bytes = bb_size b;
           m = copy_loop (sp_data (bb_storage b)) (sp_data (bb_storage b) + unat (bb_read_offset b))
                 (unat readable_bytes) m
       in (b\<lparr>bb_read_offset := 0, bb_write_offset := readable_bytes\<rparr>, h, c, m))"

definition bb_reserve ::
    "WorkerId \<Rightarrow> size_t \<Rightarrow> 'c buffer_state \<Rightarrow> (MutableByteView Result \<times> 'c buffer_state) option" where
  "bb_reserve worker minimum_writable = (\<lambda>(b, h, w).
     case bb_require_worker b worker of
       Inl e \<Rightarrow> Some (Inl e, b, h, w)
     | Inr _ \<Rightarrow>
         if minimum_writable = 0 then Some (Inr empty_span, b, h, w)
         else if minimum_writable > bb_maximum_capacity b - bb_size b
           then Some (Inl (core_error EC_exhaustion
                             ''bounded buffer maximum capacity is exhausted''), b, h, w)
         else
           do { (ready, s) \<leftarrow>
                  (if minimum_writable > bb_capacity b - bb_write_offset b
                   then case checked_add (bb_size b) minimum_writable of
                          Inl e \<Rightarrow> Some (Inl e, b, h, w)
                        | Inr required \<Rightarrow>
                            if required \<le> bb_capacity b then Some (Inr (), compact_unchecked (b, h, w))
                            else bb_grow worker required (b, h, w)
                   else Some (Inr (), b, h, w));
                case ready of
                  Inl e \<Rightarrow> Some (Inl e, s)
                | Inr _ \<Rightarrow>
                    (case mutable_byte_view_from
                            (subspan (bb_storage (fst s)) (bb_write_offset (fst s)) minimum_writable) of
                       Inl _ \<Rightarrow> None
                     | Inr region \<Rightarrow> Some (Inr region, s)) })"

definition bb_commit :: "WorkerId \<Rightarrow> size_t \<Rightarrow> 'c buffer_state \<Rightarrow> unit Result \<times> 'c buffer_state" where
  "bb_commit worker bytes = (\<lambda>(b, s).
     case bb_require_worker b worker of
       Inl e \<Rightarrow> (Inl e, b, s)
     | Inr _ \<Rightarrow>
         if bytes > bb_capacity b - bb_write_offset b
           then (Inl (core_error EC_invalid_range ''bounded buffer commit exceeds writable region''), b, s)
         else case checked_add (bb_write_offset b) bytes of
           Inl e \<Rightarrow> (Inl e, b, s)
         | Inr next_offset \<Rightarrow> (Inr (), b\<lparr>bb_write_offset := next_offset\<rparr>, s))"

definition bb_consume :: "WorkerId \<Rightarrow> size_t \<Rightarrow> 'c buffer_state \<Rightarrow> unit Result \<times> 'c buffer_state" where
  "bb_consume worker bytes = (\<lambda>(b, s).
     case bb_require_worker b worker of
       Inl e \<Rightarrow> (Inl e, b, s)
     | Inr _ \<Rightarrow>
         if bytes > bb_size b
           then (Inl (core_error EC_invalid_range ''bounded buffer consume exceeds readable region''), b, s)
         else case checked_add (bb_read_offset b) bytes of
           Inl e \<Rightarrow> (Inl e, b, s)
         | Inr next_offset \<Rightarrow>
             (Inr (), if next_offset = bb_write_offset b
                      then b\<lparr>bb_read_offset := 0, bb_write_offset := 0\<rparr>
                      else b\<lparr>bb_read_offset := next_offset\<rparr>, s))"

definition bb_compact :: "WorkerId \<Rightarrow> 'c buffer_state \<Rightarrow> unit Result \<times> 'c buffer_state" where
  "bb_compact worker s =
     (case bb_require_worker (fst s) worker of
        Inl e \<Rightarrow> (Inl e, s)
      | Inr _ \<Rightarrow> (Inr (), compact_unchecked s))"

text \<open>
  The move assignment of an empty reservation releases the charge. A block with a non-null
  pointer came from \<open>grow\<close>, which needs the release function to be present.
\<close>

definition bb_release_unchecked :: "'c buffer_state \<Rightarrow> 'c buffer_state option" where
  "bb_release_unchecked = (\<lambda>(b, h, w).
     let w = (if sp_data (bb_block b) \<noteq> nullptr
              then the (src_release (bb_source b)) (bb_block b) w else w)
     in do { ((r, _), h) \<leftarrow> move_assign (bb_reservation b) empty_reservation h;
             Some (b\<lparr>bb_block := empty_span, bb_storage := empty_span, bb_capacity := 0,
                     bb_read_offset := 0, bb_write_offset := 0, bb_reservation := r\<rparr>, h, w) })"

definition bb_release :: "WorkerId \<Rightarrow> 'c buffer_state \<Rightarrow> (unit Result \<times> 'c buffer_state) option" where
  "bb_release worker s =
     (case bb_require_worker (fst s) worker of
        Inl e \<Rightarrow> Some (Inl e, s)
      | Inr _ \<Rightarrow> map_option (\<lambda>s. (Inr (), s)) (bb_release_unchecked s))"

section \<open>The doubling loop\<close>

lemma grow_target_simps:
  "\<not> target < required \<Longrightarrow> grow_target maximum required target = Some target"
  "target < required \<Longrightarrow> grow_target maximum required target =
     grow_target maximum required (if target > maximum - target then maximum else target * 2)"
  by (subst grow_target.simps, simp)+

lemma grow_target_spec:
  "target \<noteq> 0 \<Longrightarrow> target \<le> maximum \<Longrightarrow> required \<le> maximum \<Longrightarrow>
   \<exists>u k. grow_target maximum required target = Some u \<and> required \<le> u \<and> u \<le> maximum \<and>
     unat u = min (unat maximum) (unat target * 2 ^ k) \<and> (\<forall>j < k. unat target * 2 ^ j < unat required)"
proof (induction "unat maximum - unat target" arbitrary: target rule: less_induct)
  case less
  show ?case
  proof (cases "target < required")
    case False
    then show ?thesis
      using less.prems
      by (intro exI [of _ target] exI [of _ 0]) 
         (simp add: grow_target_simps(1) not_less word_le_nat_alt min_absorb2)
  next
    case True
    then have room: "unat (maximum - target) = unat maximum - unat target"
      using less.prems(2) by (simp add: unat_sub)
    show ?thesis
    proof (cases "target > maximum - target")
      case big: True
      then have "unat maximum \<le> unat target * 2" using room by (simp add: word_less_nat_alt)
      moreover have "grow_target maximum required maximum = Some maximum"
        using less.prems(3) by (simp add: grow_target_simps(1) not_less)
      ultimately show ?thesis
        using True big less.prems
        by (intro exI [of _ maximum] exI [of _ 1])
           (simp add: grow_target_simps(2) min_absorb1 word_less_nat_alt)
    next
      case False
      then have le: "unat target * 2 \<le> unat maximum"
        using room less.prems(2) by (simp add: word_less_nat_alt word_le_nat_alt)
      then have "unat target * unat (2 :: size_t) < 2 ^ LENGTH(64)"
        using unat_bound [of maximum] by simp
      then have twice: "unat (target * 2) = unat target * 2"
        using unat_mult_lem [of target "2 :: size_t"] by simp
      have "0 < unat target" using less.prems(1) by (simp add: unat_gt_0)
      with le twice have "unat maximum - unat (target * 2) < unat maximum - unat target"
          "target * 2 \<noteq> 0" "target * 2 \<le> maximum"
        by (auto simp: word_le_nat_alt unat_eq_0)
      from less.hyps [OF this less.prems(3)] obtain u k where
        "grow_target maximum required (target * 2) = Some u" "required \<le> u" "u \<le> maximum"
        "unat u = min (unat maximum) (unat (target * 2) * 2 ^ k)"
        "\<forall>j < k. unat (target * 2) * 2 ^ j < unat required" by blast
      with True False twice show ?thesis
        by (intro exI [of _ u] exI [of _ "Suc k"])
           (auto simp: grow_target_simps(2) word_less_nat_alt less_Suc_eq_0_disj ac_simps)
    qed
  qed
qed

section \<open>Invariant and contents\<close>

definition region :: "span \<Rightarrow> addr set" where
  "region v = {sp_data v ..< sp_data v + unat (sp_size v)}"

text \<open>
  What the buffer relies on of its block source: \<open>lent\<close> names the bytes the source has handed
  out. A block handed out is fresh, handing out and taking back leaves the bytes that remain
  lent alone, and a non-empty block has an address.
\<close>

definition source_ok :: "('c \<Rightarrow> addr set) \<Rightarrow> 'c BufferBlockSource \<Rightarrow> bool" where
  "source_ok lent source \<longleftrightarrow>
     (\<forall>acquire n c m res c' m'. src_acquire source = Some acquire \<longrightarrow> acquire n (c, m) = (res, c', m') \<longrightarrow>
        lent c \<subseteq> lent c' \<and> (\<forall>a \<in> lent c. m' a = m a) \<and>
        (\<forall>block. res = Inr block \<longrightarrow> region block \<inter> lent c = {} \<and> region block \<subseteq> lent c' \<and>
           (sp_size block \<noteq> 0 \<longrightarrow> sp_data block \<noteq> nullptr))) \<and>
     (\<forall>release block c m c' m'. src_release source = Some release \<longrightarrow> release block (c, m) = (c', m') \<longrightarrow>
        lent c - region block \<subseteq> lent c' \<and> (\<forall>a \<in> lent c - region block. m' a = m a))"

definition bb_shape :: "'c BoundedBuffer \<Rightarrow> bool" where
  "bb_shape b \<longleftrightarrow>
     bb_read_offset b \<le> bb_write_offset b \<and> bb_write_offset b \<le> bb_capacity b \<and>
     bb_capacity b \<le> bb_maximum_capacity b \<and>
     (if bb_capacity b = 0
      then bb_block b = empty_span \<and> bb_storage b = empty_span \<and> bb_reservation b = empty_reservation
      else bb_reservation b = \<lparr>mr_budget = Some (bb_budget b), mr_bytes = bb_capacity b\<rparr> \<and>
           sp_data (bb_block b) \<noteq> nullptr \<and> bb_capacity b \<le> sp_size (bb_block b) \<and>
           bb_storage b = \<lparr>sp_data = sp_data (bb_block b), sp_size = bb_capacity b\<rparr> \<and>
           src_acquire (bb_source b) \<noteq> None \<and> src_release (bb_source b) \<noteq> None)"

definition buffer_inv ::
    "('c \<Rightarrow> addr set) \<Rightarrow> MemoryReservation list \<Rightarrow> 'c buffer_state \<Rightarrow> bool" where
  "buffer_inv lent others = (\<lambda>(b, h, c, m).
     bb_shape b \<and> source_ok lent (bb_source b) \<and> region (bb_block b) \<subseteq> lent c \<and>
     h (bb_budget b) \<noteq> None \<and>
     budget_inv \<lparr>sys_budgets = h, sys_reservations = bb_reservation b # others\<rparr>)"

definition bb_content :: "'c buffer_state \<Rightarrow> byte list" where
  "bb_content = (\<lambda>(b, h, c, m).
     load m (sp_data (bb_storage b) + unat (bb_read_offset b)) (unat (bb_size b)))"

definition same_config :: "'c BoundedBuffer \<Rightarrow> 'c BoundedBuffer \<Rightarrow> bool" where
  "same_config b b' \<longleftrightarrow>
     bb_worker b' = bb_worker b \<and> bb_budget b' = bb_budget b \<and> bb_source b' = bb_source b \<and>
     bb_initial_capacity b' = bb_initial_capacity b \<and> bb_maximum_capacity b' = bb_maximum_capacity b"

lemma same_config_refl [simp]: "same_config b b"
  by (simp add: same_config_def)

lemma same_config_worker: "same_config b b' \<Longrightarrow> bb_require_worker b' worker = bb_require_worker b worker"
  by (simp add: same_config_def bb_require_worker_def)

lemma same_config_trans: "same_config a b \<Longrightarrow> same_config b c \<Longrightarrow> same_config a c"
  by (simp add: same_config_def)

lemma source_acquire:
  assumes "source_ok lent source" "src_acquire source \<noteq> None"
    "the (src_acquire source) n (c, m) = (res, c', m')"
  shows "lent c \<subseteq> lent c'" "\<forall>a \<in> lent c. m' a = m a"
    "res = Inr block \<Longrightarrow> region block \<inter> lent c = {} \<and> region block \<subseteq> lent c' \<and>
       (sp_size block \<noteq> 0 \<longrightarrow> sp_data block \<noteq> nullptr)"
  using assms unfolding source_ok_def by (metis option.collapse)+

lemma source_release:
  assumes "source_ok lent source" "src_release source \<noteq> None"
    "the (src_release source) block (c, m) = (c', m')"
  shows "lent c - region block \<subseteq> lent c'" "\<forall>a \<in> lent c - region block. m' a = m a"
  using assms unfolding source_ok_def by (metis option.collapse)+

text \<open>A block that is handed out and given back at once leaves what was lent alone.\<close>

lemma source_reject:
  assumes "source_ok lent source" "src_acquire source \<noteq> None" "src_release source \<noteq> None"
    "the (src_acquire source) n (c, m) = (Inr block, c1, m1)"
    "the (src_release source) block (c1, m1) = (c2, m2)"
  shows "lent c \<subseteq> lent c2" "\<forall>a \<in> lent c. m2 a = m a"
proof -
  note acquired = source_acquire [OF assms(1,2,4)] and released = source_release [OF assms(1,3,5)]
  from acquired have apart: "lent c \<subseteq> lent c1 - region block" by auto
  then show "lent c \<subseteq> lent c2" using released(1) by blast
  show "\<forall>a \<in> lent c. m2 a = m a" using apart acquired(2) released(2) by (metis subsetD)
qed

lemma bb_size_unat: "bb_shape b \<Longrightarrow> unat (bb_size b) = unat (bb_write_offset b) - unat (bb_read_offset b)"
  by (simp add: bb_size_def bb_shape_def unat_sub)

lemma bb_shape_offsets:
  assumes "bb_shape b"
  shows "unat (bb_read_offset b) + unat (bb_size b) = unat (bb_write_offset b)"
    "unat (bb_write_offset b) \<le> unat (bb_capacity b)" "unat (bb_capacity b) \<le> unat (bb_maximum_capacity b)"
  using assms bb_size_unat [OF assms] by (simp_all add: bb_shape_def word_le_nat_alt)

lemma bb_active: "bb_shape b \<Longrightarrow> is_active (bb_reservation b) \<longleftrightarrow> bb_capacity b \<noteq> 0"
  by (auto simp: bb_shape_def is_active_def split: if_splits)

text \<open>The readable bytes are lent, so the source leaves them alone.\<close>

lemma content_in_block:
  assumes "bb_shape b" "i < unat (bb_size b)"
  shows "sp_data (bb_storage b) + unat (bb_read_offset b) + i \<in> region (bb_block b)"
proof -
  have "bb_capacity b \<noteq> 0" using assms bb_shape_offsets [OF assms(1)] by (auto simp: unat_eq_0)
  then have "unat (bb_capacity b) \<le> unat (sp_size (bb_block b))"
      "sp_data (bb_storage b) = sp_data (bb_block b)"
    using assms(1) by (simp_all add: bb_shape_def word_le_nat_alt)
  then show ?thesis using assms bb_shape_offsets [OF assms(1)] by (simp add: region_def)
qed

lemma content_frame:
  assumes "bb_shape b" "\<forall>a \<in> region (bb_block b). m' a = m a"
  shows "bb_content (b, h', c', m') = bb_content (b, h, c, m)"
  using assms content_in_block [OF assms(1)] by (simp add: bb_content_def load_eq_iff)

section \<open>Every operation keeps the invariant\<close>

lemma compact_inv:
  assumes inv: "buffer_inv lent others (b, h, c, m)"
    and s': "compact_unchecked (b, h, c, m) = (b', h', c', m')"
  shows "buffer_inv lent others (b', h', c', m')"
    "bb_content (b', h', c', m') = bb_content (b, h, c, m)"
    "bb_read_offset b' = 0" "bb_write_offset b' = bb_size b" "bb_capacity b' = bb_capacity b"
    "same_config b b'"
proof -
  have shape: "bb_shape b" using inv by (simp add: buffer_inv_def)
  have le: "bb_size b \<le> bb_capacity b"
    using bb_shape_offsets [OF shape] by (simp add: word_le_nat_alt)
  show b': "bb_read_offset b' = 0" "bb_write_offset b' = bb_size b" "bb_capacity b' = bb_capacity b"
    "same_config b b'"
    using s' by (auto simp: compact_unchecked_def Let_def same_config_def bb_size_def split: if_splits)
  show "buffer_inv lent others (b', h', c', m')"
    using inv s' le shape
    by (auto simp: buffer_inv_def bb_shape_def compact_unchecked_def Let_def split: if_splits)
  have "bb_storage b' = bb_storage b" "bb_size b' = bb_size b"
    using s' by (auto simp: compact_unchecked_def Let_def bb_size_def split: if_splits)
  then show "bb_content (b', h', c', m') = bb_content (b, h, c, m)"
    using s' b'(1)
    by (auto simp: bb_content_def compact_unchecked_def Let_def load_copy_same split: if_splits)
qed

lemma mutable_slice_front:
  "n \<le> sp_size v \<Longrightarrow> mutable_byte_view_slice v 0 n = Inr \<lparr>sp_data = sp_data v, sp_size = n\<rparr>"
  by (simp add: mutable_byte_view_slice_def range_slice_Inr subspan_def word_le_nat_alt)

text \<open>What an operation on the buffer does when it fails, and when it makes room.\<close>

definition grow_outcome ::
    "('c \<Rightarrow> addr set) \<Rightarrow> MemoryReservation list \<Rightarrow> size_t \<Rightarrow> 'c buffer_state \<Rightarrow> unit Result \<Rightarrow> 'c buffer_state \<Rightarrow> bool" where
  "grow_outcome lent others target = (\<lambda>(b, h, c, m) res (b', h', c', m').
     buffer_inv lent others (b', h', c', m') \<and>
     bb_content (b', h', c', m') = bb_content (b, h, c, m) \<and> same_config b b' \<and>
     (case res of
        Inl _ \<Rightarrow> b' = b \<and> h' = h
      | Inr _ \<Rightarrow> bb_capacity b' = target \<and> bb_write_offset b' = bb_size b))"

lemma unchanged_outcome:
  assumes inv: "buffer_inv lent others (b, h, c, m)"
    and source: "lent c \<inter> region (bb_block b) \<subseteq> lent c'" "\<forall>a \<in> lent c \<inter> region (bb_block b). m' a = m a"
  shows "grow_outcome lent others target (b, h, c, m) (Inl e) (b, h, c', m')"
proof -
  have "region (bb_block b) \<subseteq> lent c" "bb_shape b" using inv by (simp_all add: buffer_inv_def)
  then show ?thesis
    using inv source content_frame [of b m' m h c' h c]
    by (auto simp: grow_outcome_def buffer_inv_def)
qed

text \<open>The first block.\<close>

lemma acquire_first_block_ok:
  assumes source: "source_ok lent source" "src_acquire source \<noteq> None" "src_release source \<noteq> None"
    and run: "acquire_first_block source target (v, c, m) = (res, acquired, c', m')"
  shows "lent c \<subseteq> lent c'" "\<forall>a \<in> lent c. m' a = m a"
    "res = Inr u \<Longrightarrow> target \<le> sp_size acquired \<and> region acquired \<subseteq> lent c' \<and>
       (sp_size acquired \<noteq> 0 \<longrightarrow> sp_data acquired \<noteq> nullptr)"
proof -
  obtain r c1 m1 where acq: "the (src_acquire source) target (c, m) = (r, c1, m1)"
    by (metis prod_cases3)
  note acquired = source_acquire [OF source(1,2) acq]
  have "lent c \<subseteq> lent c' \<and> (\<forall>a \<in> lent c. m' a = m a) \<and>
    (res = Inr u \<longrightarrow> target \<le> sp_size acquired \<and> region acquired \<subseteq> lent c' \<and>
       (sp_size acquired \<noteq> 0 \<longrightarrow> sp_data acquired \<noteq> nullptr))"
  proof (cases r)
    case (Inl e)
    then show ?thesis using run acq acquired by (auto simp: acquire_first_block_def)
  next
    case (Inr block)
    obtain c2 m2 where rel: "the (src_release source) block (c1, m1) = (c2, m2)" by fastforce
    show ?thesis
    proof (cases "sp_size block < target")
      case True
      then have "c' = c2" "m' = m2" "res \<noteq> Inr u"
        using run acq Inr rel by (auto simp: acquire_first_block_def)
      then show ?thesis using source_reject [OF source, of target c m block] acq Inr rel by blast
    next
      case False
      then have "c' = c1" "m' = m1" "acquired = block"
        using run acq Inr by (auto simp: acquire_first_block_def)
      then show ?thesis using acquired(1,2) acquired(3) [OF Inr] False
        by (auto simp: not_less word_gt_0)
    qed
  qed
  then show "lent c \<subseteq> lent c'" "\<forall>a \<in> lent c. m' a = m a"
    "res = Inr u \<Longrightarrow> target \<le> sp_size acquired \<and> region acquired \<subseteq> lent c' \<and>
       (sp_size acquired \<noteq> 0 \<longrightarrow> sp_data acquired \<noteq> nullptr)" by blast+
qed

lemma grow_first_ok:
  assumes inv: "buffer_inv lent others (b, h, c, m)" and idle: "bb_capacity b = 0"
    and source: "src_acquire (bb_source b) \<noteq> None" "src_release (bb_source b) \<noteq> None"
    and target: "target \<noteq> 0" "target \<le> bb_maximum_capacity b"
  shows "\<exists>res s'. grow_first worker target (b, h, c, m) = Some (res, s') \<and>
           grow_outcome lent others target (b, h, c, m) res s'"
proof -
  have shape: "bb_shape b" and ok: "source_ok lent (bb_source b)" using inv by (simp_all add: buffer_inv_def)
  have empty: "bb_block b = empty_span" "bb_reservation b = empty_reservation"
      "bb_read_offset b = 0" "bb_write_offset b = 0"
    using shape idle by (auto simp: bb_shape_def)
  obtain bb where bb: "h (bb_budget b) = Some bb" using inv by (auto simp: buffer_inv_def)
  have binv: "budget_inv \<lparr>sys_budgets = h, sys_reservations = empty_reservation # others\<rparr>"
    using inv empty by (simp add: buffer_inv_def)
  let ?acq = "acquire_first_block (bb_source b) target"
  note frame = acquire_first_block_ok [OF ok source]
  show ?thesis
  proof (cases rule: reserve_into_empty [OF binv bb, where worker = worker and n = target
        and acquire = ?acq and w = "(empty_span, c, m)", case_names refused failed taken])
    case (refused e)
    with unchanged_outcome [OF inv, of c m target e] show ?thesis
      by (simp add: grow_first_def)
  next
    case (failed e w')
    obtain v c' m' where w': "w' = (v, c', m')" by (cases w')
    with frame [of target empty_span c m] failed(1) have "lent c \<subseteq> lent c'" "\<forall>a \<in> lent c. m' a = m a"
      by blast+
    with unchanged_outcome [OF inv, of c' m' target e] failed w' show ?thesis
      by (auto simp: grow_first_def)
  next
    case (taken u w' r h')
    obtain v c' m' where w': "w' = (v, c', m')" by (cases w')
    with frame [of target empty_span c m] taken(1) have v: "target \<le> sp_size v" "region v \<subseteq> lent c'"
        "sp_data v \<noteq> nullptr"
      using target(1) by (metis (no_types, lifting) word_le_0_iff)+
    let ?b' = "b\<lparr>bb_block := v, bb_storage := \<lparr>sp_data = sp_data v, sp_size = target\<rparr>,
                 bb_reservation := r, bb_capacity := target\<rparr>"
    have "h' (bb_budget b) \<noteq> None"
      using taken(3,6) by (simp add: budget_inv_def reservation_ok_def)
    then have "grow_outcome lent others target (b, h, c, m) (Inr ()) (?b', h', c', m')"
      using taken(3,6) v target empty ok source
      by (simp add: grow_outcome_def buffer_inv_def bb_shape_def bb_content_def bb_size_def same_config_def)
    moreover have "grow_first worker target (b, h, c, m) = Some (Inr (), ?b', h', c', m')"
      using taken(2,5) w' v empty by (simp add: grow_first_def mutable_slice_front)
    ultimately show ?thesis by blast
  qed
qed

text \<open>A larger block: the bytes move, and a block that is not taken is paid back.\<close>

lemma intervals_apart:
  "(\<And>i. i < n \<Longrightarrow> q + i \<notin> {p ..< p + n}) \<Longrightarrow> p \<le> q \<or> q + n \<le> p" for p q n :: nat
proof (rule ccontr)
  assume *: "\<And>i. i < n \<Longrightarrow> q + i \<notin> {p ..< p + n}" and "\<not> (p \<le> q \<or> q + n \<le> p)"
  then have "q < p" "p < q + n" "p - q < n" by auto
  with * [of "p - q"] show False by simp
qed

lemma install_replacement_ok:
  assumes shape: "bb_shape b" "bb_capacity b \<noteq> 0" and ok: "source_ok lent (bb_source b)"
    and lent: "region (bb_block b) \<subseteq> lent c"
    and acq: "the (src_acquire (bb_source b)) target (c, m) = (Inr block, c1, m1)"
    and target: "bb_capacity b < target" "target \<le> sp_size block"
    and s': "install_replacement block \<lparr>sp_data = sp_data block, sp_size = target\<rparr> target
               (b\<lparr>bb_reservation := r\<rparr>, h, c1, m1) = (b', h', c', m')"
  shows "b' = b\<lparr>bb_reservation := r, bb_block := block,
             bb_storage := \<lparr>sp_data = sp_data block, sp_size = target\<rparr>, bb_capacity := target,
             bb_read_offset := 0, bb_write_offset := bb_size b\<rparr>"
    and "h' = h" and "region block \<subseteq> lent c'" and "sp_data block \<noteq> nullptr"
    and "load m' (sp_data block) (unat (bb_size b))
       = load m (sp_data (bb_storage b) + unat (bb_read_offset b)) (unat (bb_size b))"
proof -
  let ?src = "sp_data (bb_storage b) + unat (bb_read_offset b)" and ?n = "unat (bb_size b)"
  let ?m2 = "copy_loop (sp_data block) ?src ?n m1"
  have fns: "src_acquire (bb_source b) \<noteq> None" "src_release (bb_source b) \<noteq> None"
    using shape by (simp_all add: bb_shape_def)
  note acquired = source_acquire [OF ok fns(1) acq] source_acquire(3) [OF ok fns(1) acq refl]
  obtain c3 m3 where rel: "the (src_release (bb_source b)) (bb_block b) (c1, ?m2) = (c3, m3)" by fastforce
  note released = source_release [OF ok fns(2) rel]
  from s' rel show "h' = h" and "b' = b\<lparr>bb_reservation := r, bb_block := block,
             bb_storage := \<lparr>sp_data = sp_data block, sp_size = target\<rparr>, bb_capacity := target,
             bb_read_offset := 0, bb_write_offset := bb_size b\<rparr>"
    by (auto simp: install_replacement_def bb_size_def)
  from s' rel have w': "c' = c3" "m' = m3" by (auto simp: install_replacement_def bb_size_def)
  have apart: "region block \<inter> region (bb_block b) = {}" using acquired(4) lent by blast
  then have kept: "region block \<subseteq> lent c1 - region (bb_block b)" using acquired(4) by blast
  then show "region block \<subseteq> lent c'" using released(1) w' by blast
  have "sp_size block \<noteq> 0" using target by auto
  then show "sp_data block \<noteq> nullptr" using acquired(4) by blast
  have n: "?n \<le> unat (sp_size block)"
    using bb_shape_offsets [OF shape(1)] target by (simp add: word_less_nat_alt word_le_nat_alt)
  have "?src + i \<notin> {sp_data block ..< sp_data block + ?n}" if "i < ?n" for i
    using content_in_block [OF shape(1) that] apart n by (auto simp: region_def)
  then have place: "sp_data block \<le> ?src \<or> ?src + ?n \<le> sp_data block" by (rule intervals_apart)
  have "sp_data block + i \<in> region block" if "i < ?n" for i using that n by (simp add: region_def)
  then have "load m3 (sp_data block) ?n = load ?m2 (sp_data block) ?n"
    unfolding load_eq_iff using released(2) kept by (meson subsetD)
  also have "\<dots> = load m1 ?src ?n" using place by (rule load_copy_same)
  also have "\<dots> = load m ?src ?n"
    using acquired(2) lent content_in_block [OF shape(1)] by (auto simp: load_eq_iff)
  finally show "load m' (sp_data block) ?n = load m ?src ?n" by (simp add: w')
qed

lemma rollback_growth_eq:
  "reservation_shrink r' worker n h' = Some (Inr (), r, h) \<Longrightarrow>
   rollback_growth worker n e (b\<lparr>bb_reservation := r'\<rparr>, h', w) = Some (Inl e, b\<lparr>bb_reservation := r\<rparr>, h, w)"
  by (simp add: rollback_growth_def)

lemma grow_again_ok:
  assumes inv: "buffer_inv lent others (b, h, c, m)" and active: "bb_capacity b \<noteq> 0"
    and target: "bb_capacity b < target" "target \<le> bb_maximum_capacity b"
  shows "\<exists>res s'. grow_again worker target (b, h, c, m) = Some (res, s') \<and>
           grow_outcome lent others target (b, h, c, m) res s'"
proof -
  let ?r = "bb_reservation b" and ?n = "target - bb_capacity b"
  have shape: "bb_shape b" and ok: "source_ok lent (bb_source b)" and lent: "region (bb_block b) \<subseteq> lent c"
    and binv: "budget_inv \<lparr>sys_budgets = h, sys_reservations = ?r # others\<rparr>"
    using inv by (simp_all add: buffer_inv_def)
  have fns: "src_acquire (bb_source b) \<noteq> None" "src_release (bb_source b) \<noteq> None"
    and r: "?r = \<lparr>mr_budget = Some (bb_budget b), mr_bytes = bb_capacity b\<rparr>"
    using shape active by (simp_all add: bb_shape_def)
  obtain bb where bb: "h (bb_budget b) = Some bb" using inv by (auto simp: buffer_inv_def)
  obtain xs where xs: "budget_chain h (Some (bb_budget b)) = Some xs"
    using budget_inv_chain [OF binv bb] by blast
  from grow_inv [OF binv, of 0 worker ?n] obtain u r' h' where grown:
    "reservation_grow ?r worker ?n h = Some (u, r', h')" "\<forall>e. u = Inl e \<longrightarrow> r' = ?r \<and> h' = h"
    "budget_inv \<lparr>sys_budgets = h', sys_reservations = r' # others\<rparr>" by auto
  show ?thesis
  proof (cases u)
    case (Inl e)
    with grown unchanged_outcome [OF inv, of c m target e] show ?thesis by (simp add: grow_again_def)
  next
    case (Inr v)
    have r': "r' = \<lparr>mr_budget = Some (bb_budget b), mr_bytes = target\<rparr>"
      using reservation_grow_Inr(4) [OF grown(1) [unfolded Inr] _ bb xs] r by simp
    have "rollback_growth worker ?n e (b\<lparr>bb_reservation := r'\<rparr>, h', w) = Some (Inl e, b, h, w)" for e w
      using rollback_growth_eq [OF shrink_after_grow [OF binv _ grown(1) [unfolded Inr]], of e b w] by simp
    note undo = this
    obtain res c1 m1 where acq: "the (src_acquire (bb_source b)) target (c, m) = (res, c1, m1)"
      by (metis prod_cases3)
    show ?thesis
    proof (cases res)
      case (Inl e)
      with source_acquire [OF ok fns(1) acq] unchanged_outcome [OF inv, of c1 m1 target e]
      have "grow_outcome lent others target (b, h, c, m) (Inl e) (b, h, c1, m1)" by auto
      with Inl Inr grown(1) acq undo show ?thesis by (simp add: grow_again_def)
    next
      case block: (Inr block)
      show ?thesis
      proof (cases "sp_size block < target")
        case True
        let ?e = "core_error EC_exhaustion ''bounded buffer block source is too small''"
        obtain c2 m2 where rel: "the (src_release (bb_source b)) block (c1, m1) = (c2, m2)" by fastforce
        with source_reject [OF ok fns acq [unfolded block]] unchanged_outcome [OF inv, of c2 m2 target ?e]
        have "grow_outcome lent others target (b, h, c, m) (Inl ?e) (b, h, c2, m2)" by auto
        with True block Inr grown(1) acq rel undo show ?thesis by (simp add: grow_again_def)
      next
        case False
        let ?s = "(b\<lparr>bb_reservation := r'\<rparr>, h', c1, m1)"
        obtain b2 h2 c2 m2 where s': "install_replacement block
            \<lparr>sp_data = sp_data block, sp_size = target\<rparr> target ?s = (b2, h2, c2, m2)"
          by (metis prod_cases4)
        have le: "target \<le> sp_size block" using False by simp
        note new = install_replacement_ok [OF shape active ok lent acq [unfolded block] target(1) le s']
        have "grow_again worker target (b, h, c, m) = Some (Inr (), b2, h2, c2, m2)"
          using False le block Inr grown(1) acq s' by (simp add: grow_again_def mutable_slice_front Let_def)
        moreover have "bb_size b \<le> target" "target \<noteq> 0"
          using bb_shape_offsets [OF shape] target by (auto simp: word_less_nat_alt word_le_nat_alt)
        moreover have "h' (bb_budget b) \<noteq> None"
          using grown(3) r' by (simp add: budget_inv_def reservation_ok_def)
        moreover have "bb_size b2 = bb_size b" by (simp add: new(1) bb_size_def)
        ultimately have "grow_again worker target (b, h, c, m) = Some (Inr (), b2, h2, c2, m2)"
            "grow_outcome lent others target (b, h, c, m) (Inr ()) (b2, h2, c2, m2)"
          using new(2-5) le r' grown(3) fns ok target(2)
          by (simp_all add: new(1) grow_outcome_def buffer_inv_def bb_shape_def bb_content_def same_config_def)
        then show ?thesis by blast
      qed
    qed
  qed
qed

lemma bb_grow_ok:
  assumes inv: "buffer_inv lent others (b, h, c, m)"
    and required: "bb_capacity b < required" "required \<le> bb_maximum_capacity b"
  shows "\<exists>res s' target. bb_grow worker required (b, h, c, m) = Some (res, s') \<and> required \<le> target \<and>
           grow_outcome lent others target (b, h, c, m) res s'"
proof (cases "validate_source b")
  case (Inl e)
  with unchanged_outcome [OF inv, of c m required e] show ?thesis
    by (intro exI [of _ "Inl e"] exI [of _ "(b, h, c, m)"] exI [of _ required]) (simp add: bb_grow_def)
next
  case (Inr u)
  then have valid: "src_acquire (bb_source b) \<noteq> None" "src_release (bb_source b) \<noteq> None"
      "bb_initial_capacity b \<noteq> 0" "bb_initial_capacity b \<le> bb_maximum_capacity b"
    by (auto simp: validate_source_def split: if_splits)
  have shape: "bb_shape b" using inv by (simp add: buffer_inv_def)
  define start where "start = (if bb_capacity b = 0 then bb_initial_capacity b else bb_capacity b)"
  have "start \<noteq> 0" "start \<le> bb_maximum_capacity b"
    using valid shape by (simp_all add: start_def bb_shape_def)
  from grow_target_spec [OF this required(2)] obtain target where target:
    "grow_target (bb_maximum_capacity b) required start = Some target"
    "required \<le> target" "target \<le> bb_maximum_capacity b" by blast
  have "target \<noteq> 0" "bb_capacity b < target" using required(1) target(2) by auto
  then have "\<exists>res s'. (if is_active (bb_reservation b) then grow_again worker target (b, h, c, m)
        else grow_first worker target (b, h, c, m)) = Some (res, s') \<and>
      grow_outcome lent others target (b, h, c, m) res s'"
    using grow_first_ok [OF inv _ valid(1,2) _ target(3)] grow_again_ok [OF inv _ _ target(3)]
    by (simp add: bb_active [OF shape])
  then show ?thesis
    using Inr target by (auto simp: bb_grow_def next_capacity_def not_less simp flip: start_def)
qed

lemma storage_region:
  assumes "bb_shape b" "n \<noteq> 0" "unat (bb_write_offset b) + unat n \<le> unat (bb_capacity b)"
  shows "mutable_byte_view_from (subspan (bb_storage b) (bb_write_offset b) n)
    = Inr \<lparr>sp_data = sp_data (bb_storage b) + unat (bb_write_offset b), sp_size = n\<rparr>"
proof -
  have "bb_capacity b \<noteq> 0" using assms(2,3) by (auto simp: unat_eq_0)
  then show ?thesis using assms(1) by (simp add: mutable_byte_view_from_def subspan_def bb_shape_def)
qed

text \<open>What \<open>reserve\<close> gives: room directly behind the readable bytes, or nothing changed.\<close>

definition reserve_outcome ::
    "('c \<Rightarrow> addr set) \<Rightarrow> MemoryReservation list \<Rightarrow> size_t \<Rightarrow> 'c buffer_state \<Rightarrow>
     MutableByteView Result \<Rightarrow> 'c buffer_state \<Rightarrow> bool" where
  "reserve_outcome lent others n = (\<lambda>(b, h, c, m) res (b', h', c', m').
     buffer_inv lent others (b', h', c', m') \<and>
     bb_content (b', h', c', m') = bb_content (b, h, c, m) \<and> same_config b b' \<and>
     (case res of
        Inl _ \<Rightarrow> b' = b \<and> h' = h
      | Inr v \<Rightarrow> unat (bb_write_offset b') + unat n \<le> unat (bb_capacity b') \<and>
                 (n \<noteq> 0 \<longrightarrow> v = \<lparr>sp_data = sp_data (bb_storage b') + unat (bb_write_offset b'), sp_size = n\<rparr>)))"

definition free_region :: "size_t \<Rightarrow> 'c BoundedBuffer \<Rightarrow> MutableByteView" where
  "free_region n b = \<lparr>sp_data = sp_data (bb_storage b) + unat (bb_write_offset b), sp_size = n\<rparr>"

lemma make_room_ok:
  assumes inv: "buffer_inv lent others (b, h, c, m)" and n: "n \<noteq> 0"
    and room: "unat (bb_size b) + unat n \<le> unat (bb_maximum_capacity b)"
  shows "\<exists>res s'. (case checked_add (bb_size b) n of
          Inl e \<Rightarrow> Some (Inl e, b, h, c, m)
        | Inr required \<Rightarrow>
            if required \<le> bb_capacity b then Some (Inr (), compact_unchecked (b, h, c, m))
            else bb_grow worker required (b, h, c, m)) = Some (res, s') \<and>
      reserve_outcome lent others n (b, h, c, m) (map_sum id (\<lambda>_. free_region n (fst s')) res) s'"
proof -
  have fits: "unat (bb_size b) + unat n < 2 ^ LENGTH(64)"
    using room unat_bound [of "bb_maximum_capacity b"] by simp
  then have add: "checked_add (bb_size b) n = Inr (bb_size b + n)"
    and sum: "unat (bb_size b + n) = unat (bb_size b) + unat n"
    by (simp_all add: checked_add_eq unat_add_no_wrap)
  show ?thesis
  proof (cases "bb_size b + n \<le> bb_capacity b")
    case True
    obtain b' h' c' m' where s': "compact_unchecked (b, h, c, m) = (b', h', c', m')"
      by (metis prod_cases4)
    have "reserve_outcome lent others n (b, h, c, m) (Inr (free_region n b')) (b', h', c', m')"
      using True sum compact_inv [OF inv s'] by (simp add: reserve_outcome_def free_region_def word_le_nat_alt)
    with True s' show ?thesis
      unfolding add sum.case by (intro exI [of _ "Inr ()"] exI [of _ "(b', h', c', m')"]) simp
  next
    case False
    then have "bb_capacity b < bb_size b + n" "bb_size b + n \<le> bb_maximum_capacity b"
      using room sum by (simp_all add: word_le_nat_alt word_less_nat_alt)
    from bb_grow_ok [OF inv this] obtain res s' target where grown:
      "bb_grow worker (bb_size b + n) (b, h, c, m) = Some (res, s')" "bb_size b + n \<le> target"
      "grow_outcome lent others target (b, h, c, m) res s'" by blast
    obtain b' h' c' m' where eq: "s' = (b', h', c', m')" by (metis prod_cases4)
    have "reserve_outcome lent others n (b, h, c, m) (map_sum id (\<lambda>_. free_region n (fst s')) res) s'"
      using grown(2,3) sum
      by (cases res) (auto simp: eq grow_outcome_def reserve_outcome_def free_region_def word_le_nat_alt)
    with False grown(1) show ?thesis unfolding add sum.case by auto
  qed
qed

lemma bb_reserve_ok:
  assumes inv: "buffer_inv lent others (b, h, c, m)"
  shows "\<exists>res s'. bb_reserve worker n (b, h, c, m) = Some (res, s') \<and>
           reserve_outcome lent others n (b, h, c, m) res s'"
proof -
  have shape: "bb_shape b" using inv by (simp add: buffer_inv_def)
  note off = bb_shape_offsets [OF shape]
  have same: "reserve_outcome lent others n (b, h, c, m) (Inl e) (b, h, c, m)" for e
    using inv by (simp add: reserve_outcome_def)
  have room: "unat (bb_maximum_capacity b - bb_size b) = unat (bb_maximum_capacity b) - unat (bb_size b)"
      "unat (bb_capacity b - bb_write_offset b) = unat (bb_capacity b) - unat (bb_write_offset b)"
    using off by (simp_all add: unat_sub word_le_nat_alt)
  let ?full = "core_error EC_exhaustion ''bounded buffer maximum capacity is exhausted''"
  consider (owner) e where "bb_require_worker b worker = Inl e"
    | (zero) "bb_require_worker b worker = Inr ()" "n = 0"
    | (full) "bb_require_worker b worker = Inr ()" "n \<noteq> 0" "n > bb_maximum_capacity b - bb_size b"
    | (fits) "bb_require_worker b worker = Inr ()" "n \<noteq> 0" "n \<le> bb_capacity b - bb_write_offset b"
        "n \<le> bb_maximum_capacity b - bb_size b"
    | (move) "bb_require_worker b worker = Inr ()" "n \<noteq> 0" "n > bb_capacity b - bb_write_offset b"
        "n \<le> bb_maximum_capacity b - bb_size b"
    by (cases "bb_require_worker b worker") (blast, metis old.unit.exhaust linorder_not_le)
  then show ?thesis
  proof cases
    case (owner e)
    with same [of e] show ?thesis by (simp add: bb_reserve_def)
  next
    case zero
    with inv off show ?thesis by (simp add: bb_reserve_def reserve_outcome_def)
  next
    case full
    with same [of ?full] show ?thesis by (simp add: bb_reserve_def)
  next
    case fits
    then have "unat (bb_write_offset b) + unat n \<le> unat (bb_capacity b)"
      using off room by (simp add: word_le_nat_alt)
    with fits(1,2) leD [OF fits(3)] leD [OF fits(4)] inv storage_region [OF shape fits(2)] show ?thesis
      by (simp add: bb_reserve_def reserve_outcome_def)
  next
    case move
    then have "unat (bb_size b) + unat n \<le> unat (bb_maximum_capacity b)"
      using off room by (simp add: word_le_nat_alt)
    with make_room_ok [OF inv move(2)] obtain res s' where s':
      "(case checked_add (bb_size b) n of
          Inl e \<Rightarrow> Some (Inl e, b, h, c, m)
        | Inr required \<Rightarrow>
            if required \<le> bb_capacity b then Some (Inr (), compact_unchecked (b, h, c, m))
            else bb_grow worker required (b, h, c, m)) = Some (res, s')"
      "reserve_outcome lent others n (b, h, c, m) (map_sum id (\<lambda>_. free_region n (fst s')) res) s'"
      by blast
    obtain b' h' c' m' where eq: "s' = (b', h', c', m')" by (metis prod_cases4)
    have "mutable_byte_view_from (subspan (bb_storage b') (bb_write_offset b') n) = Inr (free_region n b')"
      if "res = Inr ()"
      using that s'(2) move(2) storage_region [of b' n]
      by (simp add: eq reserve_outcome_def buffer_inv_def free_region_def)
    with s' move(1-3) leD [OF move(4)] show ?thesis
      by (cases res) (auto simp: bb_reserve_def eq)
  qed
qed

lemma bb_commit_ok:
  assumes inv: "buffer_inv lent others (b, h, c, m)"
    and n: "unat (bb_write_offset b) + unat n \<le> unat (bb_capacity b)"
    and owner: "bb_require_worker b worker = Inr ()"
  shows "\<exists>b'. bb_commit worker n (b, h, c, m) = (Inr (), b', h, c, m) \<and>
      buffer_inv lent others (b', h, c, m) \<and> same_config b b' \<and>
      bb_content (b', h, c, m) = bb_content (b, h, c, m) @ load m (sp_data (free_region n b)) (unat n)"
proof -
  let ?b' = "b\<lparr>bb_write_offset := bb_write_offset b + n\<rparr>"
  have shape: "bb_shape b" using inv by (simp add: buffer_inv_def)
  note off = bb_shape_offsets [OF shape]
  have fits: "unat (bb_write_offset b) + unat n < 2 ^ LENGTH(64)"
    using n unat_bound [of "bb_capacity b"] by simp
  then have add: "checked_add (bb_write_offset b) n = Inr (bb_write_offset b + n)"
    and sum: "unat (bb_write_offset b + n) = unat (bb_write_offset b) + unat n"
    by (simp_all add: checked_add_eq unat_add_no_wrap)
  have "\<not> n > bb_capacity b - bb_write_offset b"
    using n off by (simp add: unat_sub word_le_nat_alt word_less_nat_alt)
  then have "bb_commit worker n (b, h, c, m) = (Inr (), ?b', h, c, m)"
    unfolding bb_commit_def prod.case owner sum.case add by simp
  moreover have shape': "bb_shape ?b'"
    using shape n off sum by (auto simp: bb_shape_def word_le_nat_alt)
  then have "buffer_inv lent others (?b', h, c, m)" using inv by (simp add: buffer_inv_def)
  moreover have "unat (bb_size ?b') = unat (bb_size b) + unat n"
    using bb_size_unat [OF shape'] off sum by simp
  then have "bb_content (?b', h, c, m)
      = bb_content (b, h, c, m) @ load m (sp_data (free_region n b)) (unat n)"
    using off by (simp add: bb_content_def free_region_def load_add add.assoc)
  ultimately show ?thesis by (auto simp: same_config_def)
qed

lemma bb_consume_ok:
  assumes inv: "buffer_inv lent others (b, h, c, m)"
    and n: "unat n \<le> unat (bb_size b)" and owner: "bb_require_worker b worker = Inr ()"
  shows "\<exists>b'. bb_consume worker n (b, h, c, m) = (Inr (), b', h, c, m) \<and>
      buffer_inv lent others (b', h, c, m) \<and> same_config b b' \<and>
      bb_content (b', h, c, m) = drop (unat n) (bb_content (b, h, c, m))"
proof -
  let ?next = "bb_read_offset b + n"
  have shape: "bb_shape b" using inv by (simp add: buffer_inv_def)
  note off = bb_shape_offsets [OF shape]
  have fits: "unat (bb_read_offset b) + unat n < 2 ^ LENGTH(64)"
    using n off unat_bound [of "bb_write_offset b"] by simp
  then have add: "checked_add (bb_read_offset b) n = Inr ?next"
    and sum: "unat ?next = unat (bb_read_offset b) + unat n"
    by (simp_all add: checked_add_eq unat_add_no_wrap)
  define b' where "b' = (if ?next = bb_write_offset b then b\<lparr>bb_read_offset := 0, bb_write_offset := 0\<rparr>
                         else b\<lparr>bb_read_offset := ?next\<rparr>)"
  have "\<not> n > bb_size b" using n by (simp add: word_less_nat_alt)
  then have "bb_consume worker n (b, h, c, m) = (Inr (), b', h, c, m)"
    unfolding bb_consume_def prod.case owner sum.case add by (simp add: b'_def)
  moreover have shape': "bb_shape b'"
    using shape n off sum by (auto simp: b'_def bb_shape_def word_le_nat_alt)
  then have "buffer_inv lent others (b', h, c, m)" using inv by (simp add: buffer_inv_def b'_def)
  moreover have "unat (bb_size b') = unat (bb_size b) - unat n"
    using bb_size_unat [OF shape'] bb_size_unat [OF shape] off sum n by (auto simp: b'_def)
  then have "bb_content (b', h, c, m) = drop (unat n) (bb_content (b, h, c, m))"
    using sum off by (auto simp: b'_def bb_content_def drop_load add.assoc)
  ultimately show ?thesis by (auto simp: same_config_def b'_def)
qed

lemma release_keeps_budgets:
  assumes inv: "budget_inv \<lparr>sys_budgets = h, sys_reservations = rs\<rparr>" and i: "i < length rs"
    and "release_unchecked (rs ! i) h = Some (r, h')"
  shows "h' x = None \<longleftrightarrow> h x = None"
proof (cases "mr_budget (rs ! i)")
  case None
  with assms(3) show ?thesis by (simp add: release_unchecked_def)
next
  case (Some a)
  with budget_inv_reservation [OF inv i] obtain b where "h a = Some b" by (auto simp: reservation_ok_def)
  then obtain xs where "budget_chain h (Some a) = Some xs" using budget_inv_chain [OF inv] by blast
  from release_inv(1) [OF inv i Some this] Some assms(3) show ?thesis
    by (cases "x \<in> set xs") (auto simp: release_unchecked_def map_budgets_def)
qed

lemma bb_release_ok:
  assumes inv: "buffer_inv lent others (b, h, c, m)"
  shows "\<exists>b' h' c' m'. bb_release_unchecked (b, h, c, m) = Some (b', h', c', m') \<and>
      buffer_inv lent others (b', h', c', m') \<and> same_config b b' \<and> bb_capacity b' = 0 \<and>
      bb_content (b', h', c', m') = []"
proof -
  obtain c' m' where w: "(if sp_data (bb_block b) \<noteq> nullptr
      then the (src_release (bb_source b)) (bb_block b) (c, m) else (c, m)) = (c', m')" by fastforce
  have shape: "bb_shape b" and binv: "budget_inv \<lparr>sys_budgets = h, sys_reservations = bb_reservation b # others\<rparr>"
    using inv by (simp_all add: buffer_inv_def)
  from release_unchecked_inv [OF binv, of 0] obtain h' where h':
    "release_unchecked (bb_reservation b) h = Some (empty_reservation, h')"
    "budget_inv \<lparr>sys_budgets = h', sys_reservations = empty_reservation # others\<rparr>" by auto
  have "h' (bb_budget b) \<noteq> None"
    using inv release_keeps_budgets [OF binv, of 0] h'(1) by (simp add: buffer_inv_def)
  moreover have "bb_release_unchecked (b, h, c, m)
      = Some (b\<lparr>bb_block := empty_span, bb_storage := empty_span, bb_capacity := 0,
                bb_read_offset := 0, bb_write_offset := 0, bb_reservation := empty_reservation\<rparr>, h', c', m')"
    using h'(1) w by (simp add: bb_release_unchecked_def move_assign_def move_from_eq)
  ultimately show ?thesis
    using inv h'(2) by (simp add: buffer_inv_def bb_shape_def bb_content_def bb_size_def
        same_config_def region_def empty_span_def)
qed

section \<open>The buffer is a byte queue\<close>

text \<open>A client that appends bytes: reserve, fill the region, commit.\<close>

definition bb_append ::
    "WorkerId \<Rightarrow> byte list \<Rightarrow> 'c buffer_state \<Rightarrow> (unit Result \<times> 'c buffer_state) option" where
  "bb_append worker xs s =
     do { (reserved, b, h, c, m) \<leftarrow> bb_reserve worker (of_nat (length xs)) s;
          case reserved of
            Inl e \<Rightarrow> Some (Inl e, b, h, c, m)
          | Inr room \<Rightarrow> Some (bb_commit worker (of_nat (length xs)) (b, h, c, store (sp_data room) xs m)) }"

datatype buffer_op =
    Buf_Append WorkerId "byte list"
  | Buf_Reserve WorkerId size_t
  | Buf_Consume WorkerId size_t
  | Buf_Compact WorkerId
  | Buf_Release WorkerId

primrec buffer_exec :: "buffer_op \<Rightarrow> 'c buffer_state \<Rightarrow> (unit Result \<times> 'c buffer_state) option" where
  "buffer_exec (Buf_Append worker xs) s = bb_append worker xs s"
| "buffer_exec (Buf_Reserve worker n) s =
     map_option (\<lambda>(r, s'). (map_sum id (\<lambda>_. ()) r, s')) (bb_reserve worker n s)"
| "buffer_exec (Buf_Consume worker n) s = Some (bb_consume worker n s)"
| "buffer_exec (Buf_Compact worker) s = Some (bb_compact worker s)"
| "buffer_exec (Buf_Release worker) s = bb_release worker s"

primrec buffer_op_ok :: "buffer_op \<Rightarrow> bool" where
  "buffer_op_ok (Buf_Append worker xs) \<longleftrightarrow> length xs < 2 ^ 64"
| "buffer_op_ok (Buf_Reserve worker n) \<longleftrightarrow> True"
| "buffer_op_ok (Buf_Consume worker n) \<longleftrightarrow> True"
| "buffer_op_ok (Buf_Compact worker) \<longleftrightarrow> True"
| "buffer_op_ok (Buf_Release worker) \<longleftrightarrow> True"

text \<open>The specification: what a successful operation does to the queue of bytes.\<close>

primrec buffer_effect :: "buffer_op \<Rightarrow> byte list \<Rightarrow> byte list" where
  "buffer_effect (Buf_Append worker xs) q = q @ xs"
| "buffer_effect (Buf_Reserve worker n) q = q"
| "buffer_effect (Buf_Consume worker n) q = drop (unat n) q"
| "buffer_effect (Buf_Compact worker) q = q"
| "buffer_effect (Buf_Release worker) q = []"

definition buffer_step :: "buffer_op \<Rightarrow> unit Result \<Rightarrow> byte list \<Rightarrow> byte list" where
  "buffer_step op r q = (case r of Inl _ \<Rightarrow> q | Inr _ \<Rightarrow> buffer_effect op q)"

lemma content_store:
  assumes "bb_shape b" and "xs \<noteq> [] \<Longrightarrow> p = sp_data (free_region n b)"
  shows "bb_content (b, h, c, store p xs m) = bb_content (b, h, c, m)"
  using assms bb_shape_offsets [OF assms(1)]
  by (cases "xs = []") (auto simp: bb_content_def free_region_def intro!: load_store_disjoint)

lemma bb_append_ok:
  assumes inv: "buffer_inv lent others s" and len: "length xs < 2 ^ 64"
  shows "\<exists>r s'. bb_append worker xs s = Some (r, s') \<and> buffer_inv lent others s' \<and>
           same_config (fst s) (fst s') \<and>
           bb_content s' = buffer_step (Buf_Append worker xs) r (bb_content s)"
proof -
  obtain b h c m where s: "s = (b, h, c, m)" by (metis prod_cases4)
  let ?n = "of_nat (length xs) :: size_t"
  have n: "unat ?n = length xs" using len by (simp add: unat_of_nat_small)
  from bb_reserve_ok [OF inv [unfolded s], of worker ?n] obtain res b1 h1 c1 m1 where
    res: "bb_reserve worker ?n (b, h, c, m) = Some (res, b1, h1, c1, m1)"
    "reserve_outcome lent others ?n (b, h, c, m) res (b1, h1, c1, m1)" by auto
  show ?thesis
  proof (cases res)
    case (Inl e)
    with res show ?thesis by (auto simp: s bb_append_def buffer_step_def reserve_outcome_def)
  next
    case (Inr v)
    have inv1: "buffer_inv lent others (b1, h1, c1, m1)" and same: "same_config b b1"
      and content: "bb_content (b1, h1, c1, m1) = bb_content (b, h, c, m)"
      and room: "unat (bb_write_offset b1) + unat ?n \<le> unat (bb_capacity b1)"
      and v: "xs \<noteq> [] \<Longrightarrow> sp_data v = sp_data (free_region ?n b1)"
      using res(2) Inr n by (auto simp: reserve_outcome_def free_region_def)
    let ?m = "store (sp_data v) xs m1"
    have owner: "bb_require_worker b1 worker = Inr ()"
      using res(1) Inr same
      by (auto simp: bb_reserve_def bb_require_worker_def same_config_def split: if_splits)
    have "buffer_inv lent others (b1, h1, c1, ?m)" using inv1 by (simp add: buffer_inv_def)
    from bb_commit_ok [OF this room owner] obtain b2 where b2:
      "bb_commit worker ?n (b1, h1, c1, ?m) = (Inr (), b2, h1, c1, ?m)"
      "buffer_inv lent others (b2, h1, c1, ?m)" "same_config b1 b2"
      "bb_content (b2, h1, c1, ?m)
         = bb_content (b1, h1, c1, ?m) @ load ?m (sp_data (free_region ?n b1)) (length xs)"
      by (auto simp: n)
    have "bb_content (b1, h1, c1, ?m) = bb_content (b, h, c, m)"
      using content_store [of b1 xs, OF _ v] inv1 content by (simp add: buffer_inv_def)
    moreover have "load ?m (sp_data (free_region ?n b1)) (length xs) = xs"
      using v by (cases "xs = []") auto
    ultimately show ?thesis
      using res(1) Inr b2 same_config_trans [OF same b2(3)] by (simp add: s bb_append_def buffer_step_def)
  qed
qed

lemma bb_consume_step:
  assumes inv: "buffer_inv lent others s"
  shows "\<exists>r s'. bb_consume worker n s = (r, s') \<and> buffer_inv lent others s' \<and>
           same_config (fst s) (fst s') \<and>
           bb_content s' = buffer_step (Buf_Consume worker n) r (bb_content s)"
proof -
  obtain b h c m where s: "s = (b, h, c, m)" by (metis prod_cases4)
  consider e where "bb_consume worker n s = (Inl e, s)"
    | "bb_require_worker b worker = Inr ()" "unat n \<le> unat (bb_size b)"
    by (cases "bb_require_worker b worker"; cases "n > bb_size b")
       (auto simp: s bb_consume_def word_le_nat_alt not_less)
  then show ?thesis
  proof cases
    case 1
    then show ?thesis using inv by (simp add: buffer_step_def)
  next
    case 2
    then show ?thesis
      using bb_consume_ok [OF inv [unfolded s] 2(2,1)] by (auto simp: s buffer_step_def)
  qed
qed

lemma buffer_exec_step:
  assumes inv: "buffer_inv lent others s" and ok: "buffer_op_ok op"
  shows "\<exists>r s'. buffer_exec op s = Some (r, s') \<and> buffer_inv lent others s' \<and>
           same_config (fst s) (fst s') \<and>
           bb_content s' = buffer_step op r (bb_content s)"
proof -
  obtain b h c m where s: "s = (b, h, c, m)" by (metis prod_cases4)
  show ?thesis
  proof (cases op)
    case (Buf_Append worker xs)
    then show ?thesis using bb_append_ok [OF inv] ok by simp
  next
    case (Buf_Reserve worker n)
    from bb_reserve_ok [OF inv [unfolded s], of worker n] obtain res s' where
      "bb_reserve worker n s = Some (res, s')" "buffer_inv lent others s'" "bb_content s' = bb_content s"
      "same_config b (fst s')"
      by (auto simp: s reserve_outcome_def)
    with Buf_Reserve show ?thesis by (cases res) (simp_all add: s buffer_step_def)
  next
    case (Buf_Consume worker n)
    then show ?thesis using bb_consume_step [OF inv] by simp
  next
    case (Buf_Compact worker)
    obtain b' h' c' m' where s': "compact_unchecked (b, h, c, m) = (b', h', c', m')" by (metis prod_cases4)
    show ?thesis
      using Buf_Compact inv s' compact_inv(1,2,6) [OF inv [unfolded s] s']
      by (cases "bb_require_worker b worker") (simp_all add: s bb_compact_def buffer_step_def)
  next
    case (Buf_Release worker)
    then show ?thesis
      using inv bb_release_ok [OF inv [unfolded s]]
      by (cases "bb_require_worker b worker") (auto simp: s bb_release_def buffer_step_def)
  qed
qed

interpretation buf: refined_system buffer_exec buffer_op_ok
    "\<lambda>s. buffer_inv lent others s \<and> same_config b0 (fst s)" bb_content buffer_step for lent others b0
proof
  show "\<exists>r s'. buffer_exec op s = Some (r, s') \<and> (buffer_inv lent others s' \<and> same_config b0 (fst s')) \<and>
      bb_content s' = buffer_step op r (bb_content s)"
    if "buffer_inv lent others s \<and> same_config b0 (fst s)" "buffer_op_ok op" for s op
    using buffer_exec_step [of lent others s op] that same_config_trans [of b0 "fst s"] by blast
qed

lemma length_bb_content: "length (bb_content s) = unat (bb_size (fst s))"
  by (auto simp: bb_content_def split: prod.splits)

interpretation bbq: byte_queue bb_content
    "\<lambda>s. buffer_inv lent others s \<and> bb_require_worker (fst s) worker = Inr ()"
    "\<lambda>n s. Some (bb_consume worker n s)" for lent others worker
proof
  fix s :: "'a buffer_state" and n
  assume s: "buffer_inv lent others s \<and> bb_require_worker (fst s) worker = Inr ()"
  obtain b h c m where eq: "s = (b, h, c, m)" by (metis prod_cases4)
  show "\<exists>s'. Some (bb_consume worker n s) = Some (Inr (), s') \<and>
      (buffer_inv lent others s' \<and> bb_require_worker (fst s') worker = Inr ()) \<and>
      bb_content s' = drop (unat n) (bb_content s)" if "unat n \<le> length (bb_content s)"
    using bb_consume_ok [of lent others b h c m n worker] s that
    by (auto simp: eq length_bb_content same_config_worker)
  show "\<exists>e. Some (bb_consume worker n s) = Some (Inl e, s)" if "length (bb_content s) < unat n"
    using s that by (auto simp: eq length_bb_content bb_consume_def word_less_nat_alt)
qed

section \<open>Properties\<close>

lemma fresh_buffer_inv:
  assumes "source_ok lent source" "h budget \<noteq> None"
    "budget_inv \<lparr>sys_budgets = h, sys_reservations = others\<rparr>"
  shows "buffer_inv lent others (bounded_buffer worker budget source initial maximum, h, c, m)"
    and "bb_content (bounded_buffer worker budget source initial maximum, h, c, m) = []"
proof -
  have "budget_inv \<lparr>sys_budgets = h, sys_reservations = empty_reservation # others\<rparr>"
    using assms(3) by (rule budget_inv_reservations) (auto simp: account_def)
  with assms show "buffer_inv lent others (bounded_buffer worker budget source initial maximum, h, c, m)"
    by (simp add: buffer_inv_def bounded_buffer_def bb_shape_def region_def empty_span_def)
qed (simp add: bb_content_def bounded_buffer_def bb_size_def)

lemma buffer_run:
  assumes "source_ok lent source" "h budget \<noteq> None"
    "budget_inv \<lparr>sys_budgets = h, sys_reservations = others\<rparr>" and "list_all buffer_op_ok ops"
  shows "\<exists>rs s. run buffer_exec ops (bounded_buffer worker budget source initial maximum, h, c, m)
                 = Some (rs, s) \<and> length rs = length ops \<and> buffer_inv lent others s \<and>
           same_config (bounded_buffer worker budget source initial maximum) (fst s) \<and>
           bb_content s = fold (\<lambda>(op, r). buffer_step op r) (zip ops rs) []"
proof -
  note fresh = fresh_buffer_inv [OF assms(1-3), of worker initial maximum c m]
  show ?thesis
    using buf.run_refines [OF conjI [OF fresh(1) same_config_refl] assms(4)] by (simp add: fresh(2))
qed

lemma free_region_in_block:
  assumes "bb_shape b" "unat (bb_write_offset b) + unat n \<le> unat (bb_capacity b)" "n \<noteq> 0"
  shows "region (free_region n b) \<subseteq> region (bb_block b)"
proof -
  have "bb_capacity b \<noteq> 0" using assms(2,3) by (auto simp: unat_eq_0)
  then show ?thesis
    using assms by (auto simp: bb_shape_def region_def free_region_def word_le_nat_alt)
qed

text \<open>
  C9: A bounded buffer is a queue of bytes. For every block source that lends fresh blocks
  and leaves lent bytes alone, every budget that exists and every sequence of operations,
  including reservations that compact or move the bytes to a larger block, blocks that are
  refused or too small, calls by a foreign worker and releases, no operation terminates the process
  and the readable bytes are those of the specification: a successful append adds at the end, a
  successful consume drops from the front, and an operation that reports an error changes nothing.
\<close>

theorem buffer_refines_queue:
  assumes "source_ok lent source" "h budget \<noteq> None"
    "budget_inv \<lparr>sys_budgets = h, sys_reservations = others\<rparr>" and "list_all buffer_op_ok ops"
  shows "\<exists>rs s. run buffer_exec ops (bounded_buffer worker budget source initial maximum, h, c, m)
                 = Some (rs, s) \<and> length rs = length ops \<and>
           bb_content s = fold (\<lambda>(op, r). buffer_step op r) (zip ops rs) []"
  using buffer_run [OF assms, of worker initial maximum c m] by blast

text \<open>A source that hands out fresh addresses and never reuses them, and one root budget.\<close>

definition bump_source :: "nat BufferBlockSource" where
  "bump_source =
     \<lparr>src_acquire = Some (\<lambda>n (c, m). (Inr \<lparr>sp_data = Suc c, sp_size = n\<rparr>, c + unat n, m)),
      src_release = Some (\<lambda>_ w. w)\<rparr>"

lemma bump_source_ok: "source_ok (\<lambda>c. {..c}) bump_source"
  by (auto simp: source_ok_def bump_source_def region_def)

definition sample_budgets :: budgets where
  "sample_budgets = [64 \<mapsto> root_budget \<lparr>sid_value = 7\<rparr> 100]"

lemma sample_budgets_ok: "sample_budgets 64 \<noteq> None" "budget_inv \<lparr>sys_budgets = sample_budgets, sys_reservations = []\<rparr>"
  using new_root_inv [of Map.empty "[]" 64 "\<lparr>sid_value = 7\<rparr>" 100]
  by (simp_all add: sample_budgets_def budget_inv_def)

definition sample_ops :: "buffer_op list" where
  "sample_ops = [Buf_Append \<lparr>sid_value = 7\<rparr> [1, 2, 3], Buf_Consume \<lparr>sid_value = 7\<rparr> 2,
                 Buf_Append \<lparr>sid_value = 7\<rparr> [4, 5, 6, 7], Buf_Compact \<lparr>sid_value = 9\<rparr>]"

lemma sample_ops_ok: "list_all buffer_op_ok sample_ops" "length sample_ops = 4"
  by (simp_all add: sample_ops_def)

theorem buffer_refines_queue_witness:
  "\<exists>rs s. run buffer_exec sample_ops (bounded_buffer \<lparr>sid_value = 7\<rparr> 64 bump_source 4 16, sample_budgets, 0, \<lambda>_. 0)
            = Some (rs, s) \<and> length rs = 4 \<and>
     bb_content s = fold (\<lambda>(op, r). buffer_step op r) (zip sample_ops rs) []"
  using buffer_refines_queue [OF bump_source_ok sample_budgets_ok sample_ops_ok(1),
      of "\<lparr>sid_value = 7\<rparr>" 4 16 0 "\<lambda>_. 0"]
  by (simp add: sample_ops_ok(2))

text \<open>
  C31: The buffer never holds more than its maximum, and pays for exactly what it holds: after any
  sequence of operations its reservation is its capacity, and every budget of the program is
  charged the sum of the live reservations beneath it, this buffer's included, within its limit.
\<close>

theorem buffer_charges_capacity:
  assumes "source_ok lent source" "h budget \<noteq> None"
    "budget_inv \<lparr>sys_budgets = h, sys_reservations = others\<rparr>" and "list_all buffer_op_ok ops"
  shows "\<exists>rs b' h' w'. run buffer_exec ops (bounded_buffer worker budget source initial maximum, h, c, m)
                 = Some (rs, b', h', w') \<and>
           bb_capacity b' \<le> maximum \<and> mr_bytes (bb_reservation b') = bb_capacity b' \<and>
           (\<forall>a bud. h' a = Some bud \<longrightarrow>
              unat (mb_charged bud) = reserved_bytes h' (bb_reservation b' # others) a \<and>
              mb_charged bud \<le> mb_limit bud)"
proof -
  from buffer_run [OF assms, of worker initial maximum c m] obtain rs b' h' c' m' where
    run: "run buffer_exec ops (bounded_buffer worker budget source initial maximum, h, c, m)
            = Some (rs, b', h', c', m')"
    and inv: "buffer_inv lent others (b', h', c', m')"
    and same: "same_config (bounded_buffer worker budget source initial maximum) b'"
    by auto
  then have shape: "bb_shape b'" and binv: "budget_inv \<lparr>sys_budgets = h', sys_reservations = bb_reservation b' # others\<rparr>"
    by (simp_all add: buffer_inv_def)
  then have "bb_capacity b' \<le> maximum" "mr_bytes (bb_reservation b') = bb_capacity b'"
    using same by (auto simp: bb_shape_def same_config_def bounded_buffer_def split: if_splits)
  with run show ?thesis
    using budget_inv_ok [OF binv] unfolding budget_ok_def by blast
qed

theorem buffer_charges_capacity_witness:
  "\<exists>rs b' h' w'. run buffer_exec sample_ops
       (bounded_buffer \<lparr>sid_value = 7\<rparr> 64 bump_source 4 16, sample_budgets, 0, \<lambda>_. 0) = Some (rs, b', h', w') \<and>
     bb_capacity b' \<le> 16 \<and> mr_bytes (bb_reservation b') = bb_capacity b' \<and>
     (\<forall>a bud. h' a = Some bud \<longrightarrow> unat (mb_charged bud) = reserved_bytes h' [bb_reservation b'] a \<and>
        mb_charged bud \<le> mb_limit bud)"
  by (rule buffer_charges_capacity [OF bump_source_ok sample_budgets_ok sample_ops_ok(1)])

text \<open>
  C32: \<open>reserve\<close> gives a writable region of the requested size that lies in the buffer's block
  directly behind the readable bytes, and keeps those bytes, also when they move to another place or another
  block; when it fails, the buffer and every budget are exactly as before, although a charge may
  have been taken and rolled back.
\<close>

theorem reserve_room_or_unchanged:
  assumes inv: "buffer_inv lent others (b, h, c, m)" and n: "n \<noteq> 0"
  shows "\<exists>res b' h' c' m'. bb_reserve worker n (b, h, c, m) = Some (res, b', h', c', m') \<and>
     bb_content (b', h', c', m') = bb_content (b, h, c, m) \<and>
     (case res of
        Inl _ \<Rightarrow> b' = b \<and> h' = h
      | Inr v \<Rightarrow> sp_size v = n \<and> region v \<subseteq> region (bb_block b') \<and>
                 sp_data v = sp_data (bb_storage b') + unat (bb_read_offset b') + unat (bb_size b'))"
proof -
  from bb_reserve_ok [OF inv, of worker n] obtain res b' h' c' m' where res:
    "bb_reserve worker n (b, h, c, m) = Some (res, b', h', c', m')"
    "reserve_outcome lent others n (b, h, c, m) res (b', h', c', m')" by auto
  then have shape: "bb_shape b'" by (simp add: reserve_outcome_def buffer_inv_def)
  have "case res of
        Inl _ \<Rightarrow> b' = b \<and> h' = h
      | Inr v \<Rightarrow> sp_size v = n \<and> region v \<subseteq> region (bb_block b') \<and>
                 sp_data v = sp_data (bb_storage b') + unat (bb_read_offset b') + unat (bb_size b')"
    using free_region_in_block [OF shape, of n] res(2) n bb_shape_offsets(1) [OF shape]
    by (cases res) (simp_all add: reserve_outcome_def free_region_def)
  moreover have "bb_content (b', h', c', m') = bb_content (b, h, c, m)"
    using res(2) by (simp add: reserve_outcome_def)
  ultimately show ?thesis using res(1) by (intro exI conjI)
qed

theorem reserve_room_or_unchanged_witness:
  "\<exists>res b' h' c' m'. bb_reserve \<lparr>sid_value = 7\<rparr> 5
       (bounded_buffer \<lparr>sid_value = 7\<rparr> 64 bump_source 4 16, sample_budgets, 0, \<lambda>_. 0) = Some (res, b', h', c', m') \<and>
     bb_content (b', h', c', m') = []"
proof -
  note fresh = fresh_buffer_inv [OF bump_source_ok sample_budgets_ok,
      of "\<lparr>sid_value = 7\<rparr>" 4 16 0 "\<lambda>_. 0"]
  have "(5 :: size_t) \<noteq> 0" by simp
  from reserve_room_or_unchanged [OF fresh(1) this, of "\<lparr>sid_value = 7\<rparr>"] show ?thesis
    unfolding fresh(2) by (elim exE conjE) (intro exI conjI)
qed

text \<open>
  C33: The doubling loop of \<open>next_capacity\<close> ends for every valid configuration, without overflow: it
  returns the current (or initial) capacity doubled the least number of times that covers the
  requirement, cut at the maximum.
\<close>

theorem next_capacity_terminates:
  assumes "bb_capacity b \<le> bb_maximum_capacity b"
    "bb_initial_capacity b \<noteq> 0" "bb_initial_capacity b \<le> bb_maximum_capacity b"
    and "required \<le> bb_maximum_capacity b"
  shows "\<exists>u k. next_capacity b required = Some (Inr u) \<and> required \<le> u \<and> u \<le> bb_maximum_capacity b \<and>
     unat u = min (unat (bb_maximum_capacity b))
       (unat (if bb_capacity b = 0 then bb_initial_capacity b else bb_capacity b) * 2 ^ k) \<and>
     (\<forall>j < k. unat (if bb_capacity b = 0 then bb_initial_capacity b else bb_capacity b) * 2 ^ j
        < unat required)"
proof -
  have "(if bb_capacity b = 0 then bb_initial_capacity b else bb_capacity b) \<noteq> 0"
    "(if bb_capacity b = 0 then bb_initial_capacity b else bb_capacity b) \<le> bb_maximum_capacity b"
    using assms by simp_all
  from grow_target_spec [OF this assms(4)] show ?thesis unfolding next_capacity_def by fastforce
qed

theorem next_capacity_terminates_witness:
  "next_capacity (bounded_buffer \<lparr>sid_value = 7\<rparr> 64 bump_source 4 20) 17 = Some (Inr 20)"
proof -
  let ?b = "bounded_buffer \<lparr>sid_value = 7\<rparr> 64 bump_source 4 20"
  from next_capacity_terminates [of ?b 17] obtain u k where u: "next_capacity ?b 17 = Some (Inr u)"
    "17 \<le> u" "u \<le> 20" "unat u = min 20 (4 * 2 ^ k)"
    by (auto simp: bounded_buffer_def)
  have "3 \<le> k"
  proof (rule ccontr)
    assume "\<not> 3 \<le> k"
    then have "k = 0 \<or> k = 1 \<or> k = 2" by auto
    with u(2,4) show False by (auto simp: word_le_nat_alt)
  qed
  then have "(2 :: nat) ^ 3 \<le> 2 ^ k" by (rule power_increasing) simp
  with u(4) have "unat u = unat (20 :: size_t)" by simp
  then have "u = 20" by (simp only: word_unat_eq_iff)
  with u(1) show ?thesis by simp
qed

end
