(* ===== verification/Clocks.thy ===== *)
theory Clocks
  imports Checked_Arithmetic
begin

text \<open>
  \<open>src/core/contract/laghu/core/clocks.hpp\<close>, \<open>src/core/clocks.cpp\<close> and the class \<open>Deadline\<close> of
  \<open>src/core/contract/laghu/core/deadlines_cancellation.hpp\<close>. A monotonic instant is a 64-bit
  word; a realtime instant is an \<open>int64_t\<close>, kept as an \<open>int\<close> with the proof that no intermediate
  value leaves the type. The system clock is a parameter, and so is the state a clock's context
  points to.
\<close>

section \<open>Definitions\<close>

type_synonym MonotonicInstant = u64
type_synonym RealtimeInstant = int

text \<open>What \<open>clock_gettime\<close> answers: an error number, or seconds and nanoseconds.\<close>

datatype clock_reading = Clock_Failed int | Clock_Value int int

record 'c ClockOperations =
  monotonic_now :: "('c \<Rightarrow> MonotonicInstant Result \<times> 'c) option"
  realtime_now :: "('c \<Rightarrow> RealtimeInstant Result \<times> 'c) option"

definition nanoseconds_per_second :: int where
  "nanoseconds_per_second = 1000000000"

definition posix_monotonic_now :: "clock_reading \<Rightarrow> MonotonicInstant Result" where
  "posix_monotonic_now reading =
     (case reading of
        Clock_Failed errno \<Rightarrow> Inl (from_errno errno ''CLOCK_MONOTONIC query failed'')
      | Clock_Value tv_sec tv_nsec \<Rightarrow>
          if tv_sec < 0 \<or> tv_nsec < 0 \<or> tv_nsec \<ge> nanoseconds_per_second
            then Inl (core_error EC_corrupt_data ''CLOCK_MONOTONIC result is invalid'')
          else
            let seconds = (word_of_int tv_sec :: MonotonicInstant);
                nanoseconds = (word_of_int tv_nsec :: MonotonicInstant)
            in if seconds > (umax - nanoseconds) div word_of_int nanoseconds_per_second
                 then Inl (core_error EC_overflow ''CLOCK_MONOTONIC result overflows'')
               else Inr (seconds * word_of_int nanoseconds_per_second + nanoseconds))"

definition realtime_maximum :: RealtimeInstant where
  "realtime_maximum = 2 ^ 63 - 1"

definition realtime_minimum :: RealtimeInstant where
  "realtime_minimum = - (2 ^ 63)"

definition maximum_seconds :: RealtimeInstant where
  "maximum_seconds = cdiv realtime_maximum nanoseconds_per_second"

definition maximum_nanoseconds :: RealtimeInstant where
  "maximum_nanoseconds = cmod realtime_maximum nanoseconds_per_second"

definition minimum_seconds :: RealtimeInstant where
  "minimum_seconds = cdiv realtime_minimum nanoseconds_per_second - 1"

definition minimum_nanoseconds :: RealtimeInstant where
  "minimum_nanoseconds = nanoseconds_per_second + cmod realtime_minimum nanoseconds_per_second"

definition realtime_instant_from_parts :: "RealtimeInstant \<Rightarrow> RealtimeInstant \<Rightarrow> RealtimeInstant Result" where
  "realtime_instant_from_parts seconds nanoseconds =
     (if nanoseconds < 0 \<or> nanoseconds \<ge> nanoseconds_per_second
        then Inl (core_error EC_corrupt_data ''CLOCK_REALTIME result is invalid'')
      else if seconds > maximum_seconds \<or>
              (seconds = maximum_seconds \<and> nanoseconds > maximum_nanoseconds) \<or>
              seconds < minimum_seconds \<or>
              (seconds = minimum_seconds \<and> nanoseconds < minimum_nanoseconds)
        then Inl (core_error EC_overflow ''CLOCK_REALTIME result overflows'')
      else if seconds = minimum_seconds
        then Inr (realtime_minimum + (nanoseconds - minimum_nanoseconds))
      else Inr (seconds * nanoseconds_per_second + nanoseconds))"

definition posix_realtime_now :: "clock_reading \<Rightarrow> RealtimeInstant Result" where
  "posix_realtime_now reading =
     (case reading of
        Clock_Failed errno \<Rightarrow> Inl (from_errno errno ''CLOCK_REALTIME query failed'')
      | Clock_Value tv_sec tv_nsec \<Rightarrow> realtime_instant_from_parts tv_sec tv_nsec)"

definition read_monotonic_clock :: "'c ClockOperations \<Rightarrow> 'c \<Rightarrow> MonotonicInstant Result \<times> 'c" where
  "read_monotonic_clock operations c =
     (case monotonic_now operations of
        None \<Rightarrow> (Inl (core_error EC_invalid_state ''monotonic clock operation is missing''), c)
      | Some now \<Rightarrow> now c)"

definition read_realtime_clock :: "'c ClockOperations \<Rightarrow> 'c \<Rightarrow> RealtimeInstant Result \<times> 'c" where
  "read_realtime_clock operations c =
     (case realtime_now operations of
        None \<Rightarrow> (Inl (core_error EC_invalid_state ''realtime clock operation is missing''), c)
      | Some now \<Rightarrow> now c)"

text \<open>The process-wide table; its context is what the two system clocks answer next.\<close>

definition system_clock_operations :: "(clock_reading \<times> clock_reading) ClockOperations" where
  "system_clock_operations =
     \<lparr>monotonic_now = Some (\<lambda>c. (posix_monotonic_now (fst c), c)),
      realtime_now = Some (\<lambda>c. (posix_realtime_now (snd c), c))\<rparr>"

subsection \<open>Deadlines\<close>

record Deadline =
  dl_instant :: MonotonicInstant

definition deadline_at :: "MonotonicInstant \<Rightarrow> Deadline" where
  "deadline_at instant = \<lparr>dl_instant = instant\<rparr>"

text \<open>The overloads for a clock object take what \<open>clock.now()\<close> returns.\<close>

definition deadline_after :: "MonotonicInstant \<Rightarrow> MonotonicInstant \<Rightarrow> Deadline Result" where
  "deadline_after now duration =
     (if duration > umax - now
        then Inl (core_error EC_overflow ''monotonic deadline overflows'')
      else Inr \<lparr>dl_instant = now + duration\<rparr>)"

definition deadline_after_ops ::
    "'c ClockOperations \<Rightarrow> MonotonicInstant \<Rightarrow> 'c \<Rightarrow> Deadline Result \<times> 'c" where
  "deadline_after_ops operations duration c =
     (case read_monotonic_clock operations c of
        (Inl e, c) \<Rightarrow> (Inl e, c)
      | (Inr now, c) \<Rightarrow>
          if duration > umax - now
            then (Inl (core_error EC_overflow ''monotonic deadline overflows''), c)
          else (Inr \<lparr>dl_instant = now + duration\<rparr>, c))"

definition deadline_child :: "Deadline \<Rightarrow> Deadline \<Rightarrow> Deadline" where
  "deadline_child parent requested =
     \<lparr>dl_instant = (if dl_instant parent < dl_instant requested then dl_instant parent
                   else dl_instant requested)\<rparr>"

definition expired :: "Deadline \<Rightarrow> MonotonicInstant \<Rightarrow> bool" where
  "expired d now \<longleftrightarrow> now \<ge> dl_instant d"

definition expired_ops :: "Deadline \<Rightarrow> 'c ClockOperations \<Rightarrow> 'c \<Rightarrow> bool Result \<times> 'c" where
  "expired_ops d operations c =
     (case read_monotonic_clock operations c of
        (Inl e, c) \<Rightarrow> (Inl e, c)
      | (Inr now, c) \<Rightarrow> (Inr (now \<ge> dl_instant d), c))"

definition deadline_error :: Error where
  "deadline_error = core_error EC_deadline ''monotonic deadline expired''"

definition require_not_expired :: "Deadline \<Rightarrow> MonotonicInstant \<Rightarrow> unit Result" where
  "require_not_expired d now = (if expired d now then Inl deadline_error else Inr ())"

definition require_not_expired_ops :: "Deadline \<Rightarrow> 'c ClockOperations \<Rightarrow> 'c \<Rightarrow> unit Result \<times> 'c" where
  "require_not_expired_ops d operations c =
     (case expired_ops d operations c of
        (Inl e, c) \<Rightarrow> (Inl e, c)
      | (Inr is_expired, c) \<Rightarrow> (if is_expired then Inl deadline_error else Inr (), c))"

section \<open>Readings are exact or refused\<close>

lemma realtime_limits:
  "maximum_seconds = 9223372036" "maximum_nanoseconds = 854775807"
  "minimum_seconds = -9223372037" "minimum_nanoseconds = 145224192"
  by (simp_all add: maximum_seconds_def maximum_nanoseconds_def minimum_seconds_def
      minimum_nanoseconds_def realtime_maximum_def realtime_minimum_def nanoseconds_per_second_def
      cdiv_def cmod_def)

lemma realtime_exact:
  assumes "0 \<le> ns" "ns < 1000000000"
  shows "realtime_instant_from_parts s ns =
    (if fits_signed TYPE(64) (s * 1000000000 + ns) then Inr (s * 1000000000 + ns)
     else Inl (core_error EC_overflow ''CLOCK_REALTIME result overflows''))"
proof -
  have fits: "fits_signed TYPE(64) (s * 1000000000 + ns) \<longleftrightarrow>
      \<not> (s > 9223372036 \<or> (s = 9223372036 \<and> ns > 854775807) \<or>
         s < -9223372037 \<or> (s = -9223372037 \<and> ns < 145224192))"
  proof -
    consider "s \<le> -9223372038" | "s = -9223372037" | "-9223372036 \<le> s" "s \<le> 9223372035"
      | "s = 9223372036" | "9223372037 \<le> s" by linarith
    then show ?thesis
      using assms by cases (simp_all add: fits_signed_def smin_def smax_def not_less)
  qed
  show ?thesis
    using assms unfolding fits realtime_instant_from_parts_def realtime_limits
    by (simp add: nanoseconds_per_second_def realtime_minimum_def)
qed

text \<open>
  C36: Wall-clock readings are exact or refused. For every pair of seconds and nanoseconds the
  conversion reports corrupt data exactly if the nanoseconds are not below one second, overflow exactly if the
  instant does not fit 64 bits, and otherwise the exact instant, down to the smallest and up to the
  largest representable one; the multiplication it then performs does not overflow.
\<close>

theorem realtime_instant_exact:
  "realtime_instant_from_parts s ns =
     (if ns < 0 \<or> ns \<ge> 1000000000
        then Inl (core_error EC_corrupt_data ''CLOCK_REALTIME result is invalid'')
      else if fits_signed TYPE(64) (s * 1000000000 + ns) then Inr (s * 1000000000 + ns)
      else Inl (core_error EC_overflow ''CLOCK_REALTIME result overflows'')) \<and>
   (has_value (realtime_instant_from_parts s ns) \<and> s \<noteq> minimum_seconds \<longrightarrow>
      fits_signed TYPE(64) (s * 1000000000))"
proof -
  have exact: "realtime_instant_from_parts s ns =
     (if ns < 0 \<or> ns \<ge> 1000000000
        then Inl (core_error EC_corrupt_data ''CLOCK_REALTIME result is invalid'')
      else if fits_signed TYPE(64) (s * 1000000000 + ns) then Inr (s * 1000000000 + ns)
      else Inl (core_error EC_overflow ''CLOCK_REALTIME result overflows''))"
    using realtime_exact [of ns s] by (auto simp: realtime_instant_from_parts_def nanoseconds_per_second_def)
  show ?thesis
    unfolding exact realtime_limits(3) has_value_def fits_signed_def smin_def smax_def by simp
qed

theorem realtime_instant_exact_witness:
  "realtime_instant_from_parts (-9223372037) 145224192 = Inr (- (2 ^ 63)) \<and>
   realtime_instant_from_parts 3 5 = Inr 3000000005 \<and> fits_signed TYPE(64) (3 * 1000000000)"
proof -
  have "realtime_instant_from_parts 3 5 = Inr 3000000005"
    using realtime_instant_exact [of 3 5] by (simp add: fits_signed_def smin_def smax_def)
  then show ?thesis
    using realtime_instant_exact [of "-9223372037" 145224192] realtime_instant_exact [of 3 5]
    by (simp add: fits_signed_def smin_def smax_def realtime_limits has_value_def)
qed

text \<open>
  Monotonic readings are exact or refused: valid seconds and nanoseconds give the exact number
  of nanoseconds if it fits 64 bits and the overflow error otherwise.
\<close>

theorem monotonic_now_exact:
  assumes "0 \<le> s" "s < 2 ^ 63" "0 \<le> ns" "ns < 1000000000"
  shows "posix_monotonic_now (Clock_Value s ns) =
     (if s * 1000000000 + ns < 2 ^ 64 then Inr (word_of_int (s * 1000000000 + ns))
      else Inl (core_error EC_overflow ''CLOCK_MONOTONIC result overflows''))"
proof -
  obtain k j where s: "s = int k" and ns: "ns = int j"
    using zero_le_imp_eq_int [OF assms(1)] zero_le_imp_eq_int [OF assms(3)] by blast
  have "k < 2 ^ 63" using assms(2) by (simp add: s)
  have "j < 1000000000" using assms(4) by (simp add: ns)
  note kj = s ns \<open>k < 2 ^ 63\<close> \<open>j < 1000000000\<close>
  let ?s = "word_of_nat k :: u64" and ?n = "word_of_nat j :: u64"
  have u: "unat ?s = k" "unat ?n = j" using kj by (simp_all add: unat_of_nat_small)
  have "unat ((umax - ?n) div 1000000000) = (2 ^ 64 - 1 - j) div 1000000000"
    by (simp add: unat_div_distrib unat_umax_minus u)
  then have "?s > (umax - ?n) div 1000000000 \<longleftrightarrow> \<not> k * 1000000000 + j < 2 ^ 64"
    using kj(4) unfolding word_less_nat_alt u by auto
  then show ?thesis
    using kj by (simp add: posix_monotonic_now_def nanoseconds_per_second_def Let_def word_of_nat_eq_iff)
qed

theorem monotonic_now_exact_witness:
  "posix_monotonic_now (Clock_Value 18446744073 709551615) = Inr umax \<and>
   posix_monotonic_now (Clock_Value 18446744073 709551616)
     = Inl (core_error EC_overflow ''CLOCK_MONOTONIC result overflows'')"
  using monotonic_now_exact [of 18446744073 709551615] monotonic_now_exact [of 18446744073 709551616]
  by simp

section \<open>Deadlines\<close>

lemma deadline_child_expired: "expired (deadline_child p r) t \<longleftrightarrow> expired p t \<or> expired r t"
  by (auto simp: expired_def deadline_child_def)

text \<open>
  A deadline created at time \<open>now\<close> for a duration is refused exactly if their sum does not fit
  64 bits, and otherwise expires exactly at the times that are at least that sum. A child deadline
  expires exactly when its parent or the requested deadline does. Both hold for a clock
  object and for an operation table, whose reading errors are passed on.
\<close>

theorem deadline_expiry:
  "((\<exists>d. deadline_after now duration = Inr d) \<longleftrightarrow> unat now + unat duration < 2 ^ 64) \<and>
   (deadline_after now duration = Inr d \<longrightarrow>
      (\<forall>t. expired d t \<longleftrightarrow> unat now + unat duration \<le> unat t)) \<and>
   require_not_expired (deadline_child p r) t
     = (if expired p t \<or> expired r t then Inl deadline_error else Inr ()) \<and>
   (read_monotonic_clock operations c = (reading, c') \<longrightarrow>
      deadline_after_ops operations duration c
        = (case reading of Inl e \<Rightarrow> Inl e | Inr time \<Rightarrow> deadline_after time duration, c') \<and>
      require_not_expired_ops p operations c
        = (case reading of Inl e \<Rightarrow> Inl e | Inr time \<Rightarrow> require_not_expired p time, c'))"
proof (intro conjI impI allI)
  have bound: "duration \<le> umax - now \<longleftrightarrow> unat now + unat duration < 2 ^ LENGTH(64)"
    by (simp only: le_umax_minus add.commute)
  then show "(\<exists>d. deadline_after now duration = Inr d) \<longleftrightarrow> unat now + unat duration < 2 ^ 64"
    unfolding deadline_after_def by (cases "duration \<le> umax - now") auto
  show "expired d t \<longleftrightarrow> unat now + unat duration \<le> unat t" if "deadline_after now duration = Inr d" for t
    using that bound
    by (auto simp: deadline_after_def expired_def word_le_nat_alt unat_add_no_wrap not_less split: if_splits)
  show "require_not_expired (deadline_child p r) t
     = (if expired p t \<or> expired r t then Inl deadline_error else Inr ())"
    by (simp add: require_not_expired_def deadline_child_expired)
  assume "read_monotonic_clock operations c = (reading, c')"
  then show "deadline_after_ops operations duration c
        = (case reading of Inl e \<Rightarrow> Inl e | Inr time \<Rightarrow> deadline_after time duration, c')"
    and "require_not_expired_ops p operations c
        = (case reading of Inl e \<Rightarrow> Inl e | Inr time \<Rightarrow> require_not_expired p time, c')"
    by (cases reading; simp add: deadline_after_ops_def deadline_after_def require_not_expired_def
        require_not_expired_ops_def expired_ops_def expired_def)+
qed

theorem deadline_expiry_witness:
  "expired (deadline_at 30) 30 \<and> \<not> expired (deadline_at 30) 29 \<and>
   deadline_after_ops \<lparr>monotonic_now = Some (\<lambda>c. (Inr c, c + 1)), realtime_now = None\<rparr> 20 10
     = (Inr (deadline_at 30), 11)"
proof -
  have "deadline_after 10 20 = Inr (deadline_at 30)" by (simp add: deadline_after_def deadline_at_def)
  moreover have "read_monotonic_clock \<lparr>monotonic_now = Some (\<lambda>c. (Inr c, c + 1)), realtime_now = None\<rparr> 10
      = (Inr 10, 11)"
    by (simp add: read_monotonic_clock_def)
  ultimately show ?thesis
    using deadline_expiry [where now = 10 and duration = 20 and d = "deadline_at 30"
        and operations = "\<lparr>monotonic_now = Some (\<lambda>c. (Inr c, c + 1)), realtime_now = None\<rparr>"
        and c = 10 and c' = 11 and reading = "Inr 10"]
    by simp
qed

end
