(* ===== verification/Cancellation_Tokens.thy ===== *)
theory Cancellation_Tokens
  imports Clocks
begin

text \<open>
  Cancellation of \<open>src/core/contract/laghu/core/deadlines_cancellation.hpp\<close>. The states live at
  addresses; a state's atomic cell is written by one compare-exchange and read by loads. A call of a
  source is the sequence of its accesses to the shared state, each with what the call does next. A
  thread alone makes them one after the other; the step relation of the last part interleaves the accesses
  of any number of threads, and the lemmas show that all threads agree on one final outcome.
\<close>

section \<open>Definitions\<close>

datatype CancellationTerminal = CT_pending | CT_completed | CT_cancelled

datatype CancellationCause = CC_none | CC_explicit_request | CC_deadline_expired

record CancellationOutcome =
  co_terminal :: CancellationTerminal
  co_cause :: CancellationCause

datatype StoredTerminal = ST_pending | ST_completed | ST_cancelled_explicit | ST_cancelled_deadline

type_synonym cancel_states = "addr \<Rightarrow> StoredTerminal"

definition is_terminal :: "CancellationOutcome \<Rightarrow> bool" where
  "is_terminal out \<longleftrightarrow> co_terminal out \<noteq> CT_pending"

definition is_cancelled :: "CancellationOutcome \<Rightarrow> bool" where
  "is_cancelled out \<longleftrightarrow> co_terminal out = CT_cancelled"

definition cancellation_error :: "CancellationCause \<Rightarrow> Error" where
  "cancellation_error cause =
     (if cause = CC_deadline_expired then deadline_error
      else core_error EC_cancellation ''operation cancellation was requested'')"

definition outcome_require_active :: "CancellationOutcome \<Rightarrow> unit Result" where
  "outcome_require_active out =
     (if co_terminal out = CT_cancelled then Inl (cancellation_error (co_cause out))
      else if co_terminal out = CT_completed
        then Inl (core_error EC_invalid_state ''operation has already completed'')
      else Inr ())"

text \<open>The value loaded from the atomic cell, decoded.\<close>

definition state_outcome :: "StoredTerminal \<Rightarrow> CancellationOutcome" where
  "state_outcome st =
     (case st of
        ST_pending \<Rightarrow> \<lparr>co_terminal = CT_pending, co_cause = CC_none\<rparr>
      | ST_completed \<Rightarrow> \<lparr>co_terminal = CT_completed, co_cause = CC_none\<rparr>
      | ST_cancelled_explicit \<Rightarrow> \<lparr>co_terminal = CT_cancelled, co_cause = CC_explicit_request\<rparr>
      | ST_cancelled_deadline \<Rightarrow> \<lparr>co_terminal = CT_cancelled, co_cause = CC_deadline_expired\<rparr>)"

definition compare_exchange :: "addr \<Rightarrow> StoredTerminal \<Rightarrow> cancel_states \<Rightarrow> cancel_states" where
  "compare_exchange this requested \<sigma> = (if \<sigma> this = ST_pending then \<sigma>(this := requested) else \<sigma>)"

text \<open>
  A call that shares its state with other threads: it returns, or it makes one atomic access, which
  changes the state and shows the call the state before, and continues.
\<close>

datatype ('s, 'a) call = Return 'a | Access "'s \<Rightarrow> 's" "'s \<Rightarrow> ('s, 'a) call"

primrec call_bind :: "('s, 'a) call \<Rightarrow> ('a \<Rightarrow> ('s, 'b) call) \<Rightarrow> ('s, 'b) call" where
  "call_bind (Return x) f = f x"
| "call_bind (Access u k) f = Access u (\<lambda>s. call_bind (k s) f)"

primrec alone :: "('s, 'a) call \<Rightarrow> 's \<Rightarrow> 'a \<times> 's" where
  "alone (Return x) s = (x, s)"
| "alone (Access u k) s = alone (k s) (u s)"

text \<open>The shared state: the cells and what the clocks act on.\<close>

type_synonym 'c cancel_shared = "cancel_states \<times> 'c"

definition outcome :: "addr \<Rightarrow> ('c cancel_shared, CancellationOutcome) call" where
  "outcome this = Access id (\<lambda>(\<sigma>, _). Return (state_outcome (\<sigma> this)))"

definition finish :: "addr \<Rightarrow> StoredTerminal \<Rightarrow> ('c cancel_shared, CancellationOutcome) call" where
  "finish this requested =
     Access (\<lambda>(\<sigma>, c). (compare_exchange this requested \<sigma>, c))
       (\<lambda>(\<sigma>, _). if \<sigma> this = ST_pending then outcome this else outcome this)"

subsection \<open>Tokens\<close>

definition maximum_parent_depth :: nat where
  "maximum_parent_depth = 8"

record CancellationToken =
  tok_states :: "addr list"
  tok_count :: u8

definition token_of :: "addr \<Rightarrow> CancellationToken" where
  "token_of state = \<lparr>tok_states = state # replicate maximum_parent_depth nullptr, tok_count = 1\<rparr>"

text \<open>The loop over the ancestors.\<close>

primrec inherited_outcome ::
    "cancel_states \<Rightarrow> addr list \<Rightarrow> CancellationOutcome \<Rightarrow> CancellationOutcome" where
  "inherited_outcome \<sigma> [] own = own"
| "inherited_outcome \<sigma> (a # rest) own =
     (if is_cancelled (state_outcome (\<sigma> a)) then state_outcome (\<sigma> a)
      else inherited_outcome \<sigma> rest own)"

definition token_outcome :: "cancel_states \<Rightarrow> CancellationToken \<Rightarrow> CancellationOutcome" where
  "token_outcome \<sigma> t =
     (let own = state_outcome (\<sigma> (tok_states t ! 0)) in
      if is_terminal own then own
      else inherited_outcome \<sigma> (drop 1 (take (unat (tok_count t)) (tok_states t))) own)"

definition token_require_active :: "cancel_states \<Rightarrow> CancellationToken \<Rightarrow> unit Result" where
  "token_require_active \<sigma> t = outcome_require_active (token_outcome \<sigma> t)"

definition token_require_active_by ::
    "cancel_states \<Rightarrow> CancellationToken \<Rightarrow> Deadline \<Rightarrow> MonotonicInstant \<Rightarrow> unit Result" where
  "token_require_active_by \<sigma> t deadline now =
     (case token_require_active \<sigma> t of
        Inl e \<Rightarrow> Inl e
      | Inr _ \<Rightarrow> require_not_expired deadline now)"

definition token_require_active_ops ::
    "cancel_states \<Rightarrow> CancellationToken \<Rightarrow> Deadline \<Rightarrow> 'c ClockOperations \<Rightarrow> 'c \<Rightarrow> unit Result \<times> 'c" where
  "token_require_active_ops \<sigma> t deadline operations c =
     (case token_require_active \<sigma> t of
        Inl e \<Rightarrow> (Inl e, c)
      | Inr _ \<Rightarrow> require_not_expired_ops deadline operations c)"

definition token_child :: "CancellationToken \<Rightarrow> addr \<Rightarrow> CancellationToken Result" where
  "token_child t child_state =
     (if child_state \<in> set (take (unat (tok_count t)) (tok_states t))
        then Inl (core_error EC_invalid_state ''cancellation parent cycle is not allowed'')
      else if unat (tok_count t) > maximum_parent_depth
        then Inl (core_error EC_invalid_range ''cancellation parent depth exceeds 8'')
      else Inr \<lparr>tok_states = foldl (\<lambda>states index. states[index + 1 := tok_states t ! index])
                   (tok_states (token_of child_state)) [0 ..< unat (tok_count t)],
                tok_count = tok_count t + 1\<rparr>)"

subsection \<open>Sources\<close>

definition source_complete :: "addr \<Rightarrow> ('c cancel_shared, CancellationOutcome) call" where
  "source_complete this = finish this ST_completed"

definition source_cancel :: "addr \<Rightarrow> ('c cancel_shared, CancellationOutcome) call" where
  "source_cancel this = finish this ST_cancelled_explicit"

definition cancel_if_expired ::
    "addr \<Rightarrow> Deadline \<Rightarrow> MonotonicInstant \<Rightarrow> ('c cancel_shared, CancellationOutcome) call" where
  "cancel_if_expired this deadline now =
     (if \<not> expired deadline now then outcome this else finish this ST_cancelled_deadline)"

text \<open>Reading the clock is an access of its own.\<close>

definition read_expired :: "Deadline \<Rightarrow> 'c ClockOperations \<Rightarrow> ('c cancel_shared, bool Result) call" where
  "read_expired deadline operations =
     Access (\<lambda>(\<sigma>, c). (\<sigma>, snd (expired_ops deadline operations c)))
       (\<lambda>(_, c). Return (fst (expired_ops deadline operations c)))"

definition cancel_if_expired_ops ::
    "addr \<Rightarrow> Deadline \<Rightarrow> 'c ClockOperations \<Rightarrow> ('c cancel_shared, CancellationOutcome Result) call" where
  "cancel_if_expired_ops this deadline operations =
     call_bind (outcome this) (\<lambda>existing.
       if is_terminal existing then Return (Inr existing)
       else call_bind (read_expired deadline operations) (\<lambda>is_expired.
         case is_expired of
           Inl e \<Rightarrow> Return (Inl e)
         | Inr ex \<Rightarrow>
             if \<not> ex then call_bind (outcome this) (\<lambda>out. Return (Inr out))
             else call_bind (finish this ST_cancelled_deadline) (\<lambda>out. Return (Inr out))))"

section \<open>Tokens form bounded chains\<close>

definition token_chain :: "CancellationToken \<Rightarrow> addr list" where
  "token_chain t = take (unat (tok_count t)) (tok_states t)"

definition token_ok :: "CancellationToken \<Rightarrow> bool" where
  "token_ok t \<longleftrightarrow> length (tok_states t) = maximum_parent_depth + 1 \<and> 1 \<le> unat (tok_count t) \<and>
     unat (tok_count t) \<le> maximum_parent_depth + 1 \<and> distinct (token_chain t)"

lemma token_ok_length: "token_ok t \<Longrightarrow> length (token_chain t) = unat (tok_count t)"
  by (simp add: token_ok_def token_chain_def)

lemma copy_states:
  "k \<le> length src \<Longrightarrow> k < length st \<Longrightarrow>
   foldl (\<lambda>st i. st[Suc i := src ! i]) st [0 ..< k] = hd st # take k src @ drop (Suc k) st"
proof (induction k)
  case 0
  then show ?case by (cases st) simp_all
next
  case (Suc k)
  then have IH: "foldl (\<lambda>st i. st[Suc i := src ! i]) st [0 ..< k] = hd st # take k src @ drop (Suc k) st"
    by simp
  have "drop (Suc k) st = st ! Suc k # drop (Suc (Suc k)) st"
    using Suc.prems(2) by (simp add: Cons_nth_drop_Suc)
  then show ?case
    using Suc.prems by (simp add: IH list_update_append take_Suc_conv_app_nth)
qed

lemma token_child_Inr:
  assumes ok: "token_ok t" and new: "state \<notin> set (token_chain t)" and depth: "unat (tok_count t) \<le> 8"
  shows "\<exists>t'. token_child t state = Inr t' \<and> token_ok t' \<and> token_chain t' = state # token_chain t"
proof -
  let ?k = "unat (tok_count t)"
  have count: "unat (tok_count t + 1) = Suc ?k" using depth by (intro unat_Suc) simp
  let ?st = "state # take ?k (tok_states t) @ drop (Suc ?k) (tok_states (token_of state))"
  have "foldl (\<lambda>states index. states[Suc index := tok_states t ! index])
        (tok_states (token_of state)) [0 ..< ?k] = ?st"
    using ok depth by (subst copy_states) (simp_all add: token_ok_def token_of_def maximum_parent_depth_def)
  then have "token_child t state = Inr \<lparr>tok_states = ?st, tok_count = tok_count t + 1\<rparr>"
    using new depth by (simp add: token_child_def token_chain_def maximum_parent_depth_def)
  moreover have "token_ok \<lparr>tok_states = ?st, tok_count = tok_count t + 1\<rparr>"
      "token_chain \<lparr>tok_states = ?st, tok_count = tok_count t + 1\<rparr> = state # token_chain t"
    using ok new depth count
    by (auto simp: token_ok_def token_chain_def maximum_parent_depth_def token_of_def)
  ultimately show ?thesis by blast
qed

lemma state_outcome_inject: "state_outcome s = state_outcome s' \<longleftrightarrow> s = s'"
  by (cases s; cases s') (simp_all add: state_outcome_def)

lemma is_terminal_outcome: "is_terminal (state_outcome s) \<longleftrightarrow> s \<noteq> ST_pending"
  by (cases s) (simp_all add: is_terminal_def state_outcome_def)

lemma cancelled_is_terminal: "is_cancelled out \<Longrightarrow> is_terminal out"
  by (simp add: is_cancelled_def is_terminal_def)

lemma require_active_iff: "outcome_require_active out = Inr () \<longleftrightarrow> \<not> is_terminal out"
  by (cases "co_terminal out") (simp_all add: outcome_require_active_def is_terminal_def)

lemma inherited_outcome_eq:
  "inherited_outcome \<sigma> as own =
     (case find (\<lambda>a. is_cancelled (state_outcome (\<sigma> a))) as of
        None \<Rightarrow> own | Some a \<Rightarrow> state_outcome (\<sigma> a))"
  by (induction as) simp_all

text \<open>
  Deriving a child token keeps within the nine slots of a token and never forms a cycle: it is refused
  exactly if the state is already in the chain or the chain has nine states, and otherwise the child's
  chain is its own state followed by the parent's chain, without repetition.
\<close>

theorem token_child_bounded:
  assumes ok: "token_ok t"
  shows "case token_child t state of
      Inl _ \<Rightarrow> state \<in> set (token_chain t) \<or> length (token_chain t) = maximum_parent_depth + 1
    | Inr t' \<Rightarrow> state \<notin> set (token_chain t) \<and> token_ok t' \<and> token_chain t' = state # token_chain t"
proof (cases "state \<in> set (token_chain t) \<or> unat (tok_count t) > 8")
  case True
  then show ?thesis
    using ok token_ok_length [OF ok]
    by (auto simp: token_child_def token_chain_def [symmetric] token_ok_def maximum_parent_depth_def)
next
  case False
  then show ?thesis using token_child_Inr [OF ok, of state] by auto
qed

lemma token_of_ok: "token_ok (token_of a)" "token_chain (token_of a) = [a]" "tok_count (token_of a) = 1"
  by (simp_all add: token_ok_def token_of_def token_chain_def maximum_parent_depth_def)

theorem token_child_bounded_witness:
  "\<exists>t'. token_child (token_of 5) 6 = Inr t' \<and> token_chain t' = [6, 5]"
proof -
  have "token_child (token_of 5) 6 \<noteq> Inl e" for e
    by (simp add: token_child_def token_of_def maximum_parent_depth_def)
  then show ?thesis
    using token_child_bounded [OF token_of_ok(1) [of 5], of 6]
    by (cases "token_child (token_of 5) 6") (auto simp: token_of_ok)
qed

text \<open>
  C35: A token is active exactly while its own state is pending and no ancestor is cancelled. Its outcome is that
  of its own state if that is final, and otherwise that of the nearest cancelled ancestor, so cancelling any
  state cancels every operation below it that has not finished, and completing a state cancels nobody.
\<close>

theorem token_outcome_inherits:
  assumes "token_ok t"
  shows "token_outcome \<sigma> t =
     (if \<sigma> (hd (token_chain t)) \<noteq> ST_pending then state_outcome (\<sigma> (hd (token_chain t)))
      else case find (\<lambda>a. is_cancelled (state_outcome (\<sigma> a))) (token_chain t) of
        None \<Rightarrow> state_outcome ST_pending
      | Some a \<Rightarrow> state_outcome (\<sigma> a)) \<and>
     (token_require_active \<sigma> t = Inr () \<longleftrightarrow>
        \<sigma> (hd (token_chain t)) = ST_pending \<and>
        (\<forall>a \<in> set (token_chain t). \<not> is_cancelled (state_outcome (\<sigma> a))))"
proof -
  obtain a as where chain: "token_chain t = a # as"
    using token_ok_length [OF assms] assms by (cases "token_chain t") (auto simp: token_ok_def)
  then have "take (unat (tok_count t)) (tok_states t) = a # as" by (simp add: token_chain_def)
  then have first: "tok_states t ! 0 = a" and rest: "drop 1 (take (unat (tok_count t)) (tok_states t)) = as"
    using nth_take [of 0 "unat (tok_count t)" "tok_states t"] assms by (simp_all add: token_ok_def)
  let ?found = "find (\<lambda>a. is_cancelled (state_outcome (\<sigma> a)))"
  have out: "token_outcome \<sigma> t =
     (if \<sigma> a \<noteq> ST_pending then state_outcome (\<sigma> a)
      else case ?found (a # as) of None \<Rightarrow> state_outcome ST_pending | Some b \<Rightarrow> state_outcome (\<sigma> b))"
    unfolding token_outcome_def first rest inherited_outcome_eq Let_def is_terminal_outcome
    using cancelled_is_terminal [of "state_outcome (\<sigma> a)"] by (auto simp: is_terminal_outcome split: option.split)
  have "is_terminal (token_outcome \<sigma> t) \<longleftrightarrow>
      \<sigma> a \<noteq> ST_pending \<or> (\<exists>b \<in> set (a # as). is_cancelled (state_outcome (\<sigma> b)))"
  proof (cases "?found (a # as)")
    case None
    then have "\<forall>b \<in> set (a # as). \<not> is_cancelled (state_outcome (\<sigma> b))"
      unfolding find_None_iff by blast
    then show ?thesis unfolding out None by (simp add: is_terminal_outcome)
  next
    case (Some b)
    then have "b \<in> set (a # as)" "is_cancelled (state_outcome (\<sigma> b))"
      unfolding find_Some_iff by (metis nth_mem)+
    moreover from this have "\<sigma> b \<noteq> ST_pending"
      using cancelled_is_terminal is_terminal_outcome by blast
    ultimately show ?thesis unfolding out Some by (auto simp: is_terminal_outcome)
  qed
  then show ?thesis
    unfolding chain list.sel token_require_active_def require_active_iff by (simp only: out) blast
qed

theorem token_outcome_inherits_witness:
  "\<exists>t. token_child (token_of 5) 6 = Inr t \<and>
     token_outcome ((\<lambda>_. ST_pending)(5 := ST_cancelled_explicit)) t = state_outcome ST_cancelled_explicit"
proof -
  obtain t where t: "token_child (token_of 5) 6 = Inr t" "token_ok t" "token_chain t = [6, 5]"
    using token_child_Inr [OF token_of_ok(1) [of 5], of 6] by (auto simp: token_of_ok)
  then show ?thesis
    using token_outcome_inherits [OF t(2), of "(\<lambda>_. ST_pending)(5 := ST_cancelled_explicit)"]
    by (simp add: is_cancelled_def state_outcome_def)
qed

section \<open>Threads\<close>

text \<open>
  The calls a thread can make: those of a source, and the load of one state, of which the outcome of
  a token consists. Their bodies are the definitions above.
\<close>

datatype 'c cancel_call =
    Call_Complete addr
  | Call_Cancel addr
  | Call_Expire addr Deadline MonotonicInstant
  | Call_Expire_Clock addr Deadline "'c ClockOperations"
  | Call_Outcome addr

primrec call_body :: "'c cancel_call \<Rightarrow> ('c cancel_shared, CancellationOutcome Result) call" where
  "call_body (Call_Complete a) = call_bind (source_complete a) (\<lambda>out. Return (Inr out))"
| "call_body (Call_Cancel a) = call_bind (source_cancel a) (\<lambda>out. Return (Inr out))"
| "call_body (Call_Expire a deadline now) = call_bind (cancel_if_expired a deadline now) (\<lambda>out. Return (Inr out))"
| "call_body (Call_Expire_Clock a deadline operations) = cancel_if_expired_ops a deadline operations"
| "call_body (Call_Outcome a) = call_bind (outcome a) (\<lambda>out. Return (Inr out))"

primrec call_state :: "'c cancel_call \<Rightarrow> addr" where
  "call_state (Call_Complete a) = a"
| "call_state (Call_Cancel a) = a"
| "call_state (Call_Expire a deadline now) = a"
| "call_state (Call_Expire_Clock a deadline operations) = a"
| "call_state (Call_Outcome a) = a"

text \<open>
  A thread is the calls it still has to finish, each with what is left of its body. A step makes one
  access of one thread; the last access of a call records its result. The log is in the order of these
  last accesses.
\<close>

type_synonym 'c thread = "('c cancel_call \<times> ('c cancel_shared, CancellationOutcome Result) call) list"
type_synonym 'c cancel_event = "'c cancel_call \<times> CancellationOutcome Result"
type_synonym 'c cancel_config = "'c cancel_shared \<times> 'c thread list \<times> 'c cancel_event list"

definition thread_next :: "'c cancel_call \<Rightarrow> ('c cancel_shared, CancellationOutcome Result) call \<Rightarrow> 'c thread \<Rightarrow> 'c thread" where
  "thread_next call p rest = (case p of Return _ \<Rightarrow> rest | Access _ _ \<Rightarrow> (call, p) # rest)"

definition log_next ::
    "'c cancel_call \<Rightarrow> ('c cancel_shared, CancellationOutcome Result) call \<Rightarrow> 'c cancel_event list \<Rightarrow> 'c cancel_event list" where
  "log_next call p log = (case p of Return r \<Rightarrow> log @ [(call, r)] | Access _ _ \<Rightarrow> log)"

inductive cancel_step :: "'c cancel_config \<Rightarrow> 'c cancel_config \<Rightarrow> bool" where
  step_access: "i < length ts \<Longrightarrow> ts ! i = (call, Access u k) # rest \<Longrightarrow>
    cancel_step (s, ts, log) (u s, ts[i := thread_next call (k s) rest], log_next call (k s) log)"

definition thread_code :: "'c cancel_call list \<Rightarrow> 'c thread" where
  "thread_code calls = map (\<lambda>call. (call, call_body call)) calls"

definition cancel_start :: "'c \<Rightarrow> 'c cancel_call list list \<Rightarrow> 'c cancel_config" where
  "cancel_start c threads = ((\<lambda>_. ST_pending, c), map thread_code threads, [])"

subsection \<open>What the threads may rely on\<close>

text \<open>Which value a call may store, and which calls always find their state final.\<close>

fun call_requests :: "'c cancel_call \<Rightarrow> StoredTerminal \<Rightarrow> bool" where
  "call_requests (Call_Complete a) st \<longleftrightarrow> st = ST_completed"
| "call_requests (Call_Cancel a) st \<longleftrightarrow> st = ST_cancelled_explicit"
| "call_requests (Call_Expire a deadline now) st \<longleftrightarrow> st = ST_cancelled_deadline \<and> expired deadline now"
| "call_requests (Call_Expire_Clock a deadline operations) st \<longleftrightarrow>
     st = ST_cancelled_deadline \<and> (\<exists>c. fst (expired_ops deadline operations c) = Inr True)"
| "call_requests (Call_Outcome a) st \<longleftrightarrow> False"

fun call_finishes :: "'c cancel_call \<Rightarrow> bool" where
  "call_finishes (Call_Complete a) \<longleftrightarrow> True"
| "call_finishes (Call_Cancel a) \<longleftrightarrow> True"
| "call_finishes (Call_Expire a deadline now) \<longleftrightarrow> expired deadline now"
| "call_finishes _ \<longleftrightarrow> False"

fun clock_failure :: "'c cancel_call \<Rightarrow> Error \<Rightarrow> bool" where
  "clock_failure (Call_Expire_Clock a deadline operations) e \<longleftrightarrow>
     (\<exists>c. fst (expired_ops deadline operations c) = Inl e)"
| "clock_failure _ e \<longleftrightarrow> False"

text \<open>A result agrees with the cells: a final outcome is the one stored.\<close>

definition event_ok :: "cancel_states \<Rightarrow> 'c cancel_event \<Rightarrow> bool" where
  "event_ok \<sigma> = (\<lambda>(call, r).
     case r of
       Inl e \<Rightarrow> clock_failure call e
     | Inr out \<Rightarrow>
         (out = state_outcome ST_pending \<and> \<not> call_finishes call \<or>
          out = state_outcome (\<sigma> (call_state call)) \<and> is_terminal out))"

definition stable_log :: "'c cancel_event list \<Rightarrow> bool" where
  "stable_log log \<longleftrightarrow>
     (\<forall>p q out out'. p < q \<longrightarrow> q < length log \<longrightarrow> call_state (fst (log ! p)) = call_state (fst (log ! q)) \<longrightarrow>
        snd (log ! p) = Inr out \<longrightarrow> is_terminal out \<longrightarrow> snd (log ! q) = Inr out' \<longrightarrow> out' = out)"

definition requested :: "'c cancel_call list list \<Rightarrow> cancel_states \<Rightarrow> bool" where
  "requested threads \<sigma> \<longleftrightarrow> (\<forall>a. \<sigma> a \<noteq> ST_pending \<longrightarrow>
     (\<exists>calls \<in> set threads. \<exists>call \<in> set calls. call_state call = a \<and> call_requests call (\<sigma> a)))"

subsection \<open>The stages of a call\<close>

abbreviation returning :: "('c cancel_shared, CancellationOutcome) call \<Rightarrow>
    ('c cancel_shared, CancellationOutcome Result) call" where
  "returning p \<equiv> call_bind p (\<lambda>out. Return (Inr out))"

definition expiry_tail ::
    "addr \<Rightarrow> Deadline \<Rightarrow> 'c ClockOperations \<Rightarrow> ('c cancel_shared, CancellationOutcome Result) call" where
  "expiry_tail a deadline operations =
     call_bind (read_expired deadline operations) (\<lambda>is_expired.
         case is_expired of
           Inl e \<Rightarrow> Return (Inl e)
         | Inr ex \<Rightarrow> if \<not> ex then returning (outcome a) else returning (finish a ST_cancelled_deadline))"

text \<open>
  What is left of a body: a final load, a compare-exchange of a value the call requests and then the
  load, or, for the call that reads a clock, its first load and the reading.
\<close>

inductive stage :: "cancel_states \<Rightarrow> 'c cancel_call \<Rightarrow> ('c cancel_shared, CancellationOutcome Result) call \<Rightarrow> bool" for \<sigma> where
  stage_load: "\<sigma> (call_state call) \<noteq> ST_pending \<or> \<not> call_finishes call \<Longrightarrow>
    stage \<sigma> call (returning (outcome (call_state call)))"
| stage_finish: "call_requests call st \<Longrightarrow> stage \<sigma> call (returning (finish (call_state call) st))"
| stage_first: "stage \<sigma> (Call_Expire_Clock a deadline operations) (cancel_if_expired_ops a deadline operations)"
| stage_clock: "stage \<sigma> (Call_Expire_Clock a deadline operations) (expiry_tail a deadline operations)"

lemma stage_body: "stage \<sigma> call (call_body call)"
proof (cases call)
  case (Call_Expire a deadline now)
  then show ?thesis
    using stage_load [of \<sigma> call] stage_finish [of call ST_cancelled_deadline \<sigma>]
    by (auto simp: cancel_if_expired_def)
next
  case (Call_Expire_Clock a deadline operations)
  then show ?thesis using stage_first by simp
qed (use stage_load [of \<sigma> call] stage_finish [of call _ \<sigma>] in
      \<open>simp_all add: source_complete_def source_cancel_def\<close>)


text \<open>The cells only go from pending to a value that a call requests.\<close>

definition grows :: "'c cancel_call \<Rightarrow> cancel_states \<Rightarrow> cancel_states \<Rightarrow> bool" where
  "grows call \<sigma> \<sigma>' \<longleftrightarrow> (\<forall>b. \<sigma>' b \<noteq> \<sigma> b \<longrightarrow> \<sigma> b = ST_pending \<and> b = call_state call \<and> call_requests call (\<sigma>' b))"

lemma grows_keeps: "grows call \<sigma> \<sigma>' \<Longrightarrow> \<sigma> b \<noteq> ST_pending \<Longrightarrow> \<sigma>' b = \<sigma> b"
  by (auto simp: grows_def)

lemma grows_refl [simp]: "grows call \<sigma> \<sigma>"
  by (simp add: grows_def)

lemma requests_final: "call_requests call st \<Longrightarrow> st \<noteq> ST_pending"
  by (cases call) auto

text \<open>What one access of a call does, given the stage of the call.\<close>

definition access_ok ::
    "'c cancel_call \<Rightarrow> 'c cancel_shared \<Rightarrow> 'c cancel_shared \<Rightarrow> ('c cancel_shared, CancellationOutcome Result) call \<Rightarrow> bool" where
  "access_ok call s s' p \<longleftrightarrow> grows call (fst s) (fst s') \<and>
     (case p of
        Return r \<Rightarrow> event_ok (fst s') (call, r) \<and> (\<forall>out. r = Inr out \<longrightarrow> out = state_outcome (fst s' (call_state call)))
      | Access _ _ \<Rightarrow> stage (fst s') call p)"

lemma outcome_event:
  "\<sigma> (call_state call) \<noteq> ST_pending \<or> \<not> call_finishes call \<Longrightarrow>
   event_ok \<sigma> (call, Inr (state_outcome (\<sigma> (call_state call))))"
  by (cases "\<sigma> (call_state call)") (auto simp: event_ok_def is_terminal_outcome)

lemma clock_step:
  fixes operations :: "'c ClockOperations" and deadline :: Deadline and a :: addr
  defines "call \<equiv> Call_Expire_Clock a deadline operations"
  assumes "expiry_tail a deadline operations = Access u k"
  shows "access_ok call s (u s) (k s)"
proof -
  obtain \<sigma> c where s: "s = (\<sigma>, c)" by (cases s)
  have u: "u s = (\<sigma>, snd (expired_ops deadline operations c))"
    and k: "k s = (case fst (expired_ops deadline operations c) of
      Inl e \<Rightarrow> Return (Inl e)
    | Inr ex \<Rightarrow> if \<not> ex then returning (outcome a) else returning (finish a ST_cancelled_deadline))"
    using assms(2) by (auto simp: expiry_tail_def read_expired_def s)
  show ?thesis
  proof (cases "fst (expired_ops deadline operations c)")
    case (Inl e)
    then show ?thesis unfolding u k by (auto simp: s access_ok_def event_ok_def call_def)
  next
    case (Inr ex)
    show ?thesis
    proof (cases ex)
      case True
      have "call_requests call ST_cancelled_deadline" using Inr True by (auto simp: call_def)
      from stage_finish [OF this, of \<sigma>] show ?thesis unfolding u k Inr
        using True by (simp add: s access_ok_def call_def finish_def)
    next
      case False
      have "stage \<sigma> call (returning (outcome (call_state call)))" by (rule stage_load) (simp add: call_def)
      then show ?thesis unfolding u k Inr using False by (simp add: s access_ok_def call_def outcome_def)
    qed
  qed
qed

lemma stage_access:
  assumes "stage (fst s) call (Access u k)"
  shows "access_ok call s (u s) (k s)"
proof -
  obtain \<sigma> c where s: "s = (\<sigma>, c)" by (cases s)
  let ?a = "call_state call"
  from assms show ?thesis
  proof (cases rule: stage.cases)
    case stage_load
    then show ?thesis using outcome_event [of \<sigma> call] by (auto simp: outcome_def access_ok_def s)
  next
    case (stage_finish st)
    have u: "u s = (compare_exchange ?a st \<sigma>, c)" and k: "k s = returning (outcome ?a)"
      using stage_finish(1) by (auto simp: finish_def s)
    have "compare_exchange ?a st \<sigma> ?a \<noteq> ST_pending"
      using requests_final [OF stage_finish(2)] by (simp add: compare_exchange_def)
    then have "stage (compare_exchange ?a st \<sigma>) call (returning (outcome ?a))" by (intro stage.stage_load) simp
    moreover have "grows call \<sigma> (compare_exchange ?a st \<sigma>)"
      using stage_finish(2) by (auto simp: grows_def compare_exchange_def)
    ultimately show ?thesis unfolding u k by (simp add: access_ok_def s outcome_def)
  next
    case (stage_first a deadline operations)
    have u: "u s = s" and k: "k s = (if is_terminal (state_outcome (\<sigma> a)) then Return (Inr (state_outcome (\<sigma> a)))
        else expiry_tail a deadline operations)"
      using stage_first(2) by (auto simp: cancel_if_expired_ops_def outcome_def expiry_tail_def s)
    show ?thesis
    proof (cases "is_terminal (state_outcome (\<sigma> a))")
      case True
      then show ?thesis unfolding u k using stage_first(1) outcome_event [of \<sigma> call] by (simp add: access_ok_def s)
    next
      case False
      have "stage \<sigma> call (expiry_tail a deadline operations)" unfolding stage_first(1) by (rule stage.stage_clock)
      then show ?thesis unfolding u k using False
        by (simp add: access_ok_def s expiry_tail_def read_expired_def)
    qed
  next
    case (stage_clock a deadline operations)
    then show ?thesis using clock_step [of a deadline operations u k s] by simp
  qed
qed

subsection \<open>The invariant of the threads\<close>

lemma stage_mono: "stage \<sigma> call p \<Longrightarrow> (\<And>b. \<sigma> b \<noteq> ST_pending \<Longrightarrow> \<sigma>' b = \<sigma> b) \<Longrightarrow> stage \<sigma>' call p"
  by (induction rule: stage.induct) (auto intro: stage.intros)

lemma event_ok_mono: "event_ok \<sigma> e \<Longrightarrow> (\<And>b. \<sigma> b \<noteq> ST_pending \<Longrightarrow> \<sigma>' b = \<sigma> b) \<Longrightarrow> event_ok \<sigma>' e"
  by (cases e; cases "\<sigma> (call_state (fst e)) = ST_pending")
    (auto simp: event_ok_def is_terminal_outcome split: sum.splits)

definition thread_ok :: "'c cancel_call list list \<Rightarrow> cancel_states \<Rightarrow> 'c thread \<Rightarrow> bool" where
  "thread_ok threads \<sigma> t \<longleftrightarrow> (\<forall>(call, p) \<in> set t. stage \<sigma> call p \<and> (\<exists>calls \<in> set threads. call \<in> set calls))"

definition cancel_inv :: "'c cancel_call list list \<Rightarrow> 'c cancel_config \<Rightarrow> bool" where
  "cancel_inv threads = (\<lambda>(s, ts, log).
     (\<forall>t \<in> set ts. thread_ok threads (fst s) t) \<and> (\<forall>e \<in> set log. event_ok (fst s) e) \<and>
     stable_log log \<and> requested threads (fst s))"

lemma thread_ok_mono:
  "thread_ok threads \<sigma> t \<Longrightarrow> (\<And>b. \<sigma> b \<noteq> ST_pending \<Longrightarrow> \<sigma>' b = \<sigma> b) \<Longrightarrow> thread_ok threads \<sigma>' t"
  unfolding thread_ok_def using stage_mono [of \<sigma> _ _ \<sigma>'] by fast

lemma stable_log_snoc:
  assumes "stable_log log" "\<forall>e \<in> set log. event_ok \<sigma> e"
    and new: "\<And>out. r = Inr out \<Longrightarrow> out = state_outcome (\<sigma> (call_state call))"
  shows "stable_log (log @ [(call, r)])"
proof -
  have "state_outcome (\<sigma> (call_state call)) = out"
    if p: "p < length log" "call_state (fst (log ! p)) = call_state call" "snd (log ! p) = Inr out" "is_terminal out" for p out
    using assms(2) [rule_format, of "log ! p"] nth_mem [OF p(1)] p(2-4)
    by (cases "log ! p") (auto simp: event_ok_def is_terminal_outcome)
  then show ?thesis
    using assms(1) new unfolding stable_log_def by (auto simp: nth_append less_Suc_eq)
qed

lemma requested_mono:
  assumes "requested threads \<sigma>" "grows call \<sigma> \<sigma>'" "calls \<in> set threads" "call \<in> set calls"
  shows "requested threads \<sigma>'"
  unfolding requested_def
proof (intro allI impI)
  fix b assume "\<sigma>' b \<noteq> ST_pending"
  then show "\<exists>calls \<in> set threads. \<exists>call \<in> set calls. call_state call = b \<and> call_requests call (\<sigma>' b)"
    using assms unfolding grows_def requested_def by (cases "\<sigma>' b = \<sigma> b") auto
qed

lemma cancel_step_inv:
  assumes "cancel_inv threads s" "cancel_step s s'"
  shows "cancel_inv threads s'"
  using assms(2)
proof (cases rule: cancel_step.cases)
  case (step_access i ts call u k rest s0 log)
  note inv = assms(1) [unfolded step_access(1) cancel_inv_def prod.case]
  have t: "thread_ok threads (fst s0) ((call, Access u k) # rest)" using inv step_access(3,4) nth_mem [of i ts] by metis
  obtain calls where calls: "calls \<in> set threads" "call \<in> set calls" using t by (auto simp: thread_ok_def)
  have "stage (fst s0) call (Access u k)" using t by (simp add: thread_ok_def)
  note acc = stage_access [OF this, unfolded access_ok_def]
  note keeps = grows_keeps [OF conjunct1 [OF acc]]
  have rest: "thread_ok threads (fst (u s0)) rest"
    using thread_ok_mono [of threads "fst s0" rest "fst (u s0)"] t keeps by (auto simp: thread_ok_def)
  then have "thread_ok threads (fst (u s0)) (thread_next call (k s0) rest)"
    using acc calls by (cases "k s0") (auto simp: thread_next_def thread_ok_def)
  moreover have "thread_ok threads (fst (u s0)) t" if "t \<in> set ts" for t
    using thread_ok_mono [of threads "fst s0" t "fst (u s0)"] inv that keeps by blast
  ultimately have "\<forall>t \<in> set (ts[i := thread_next call (k s0) rest]). thread_ok threads (fst (u s0)) t"
    using set_update_subset_insert [of ts i "thread_next call (k s0) rest"] by blast
  moreover have old: "\<forall>e \<in> set log. event_ok (fst (u s0)) e"
    using inv event_ok_mono [of "fst s0" _ "fst (u s0)"] keeps by blast
  moreover have "(\<forall>e \<in> set (log_next call (k s0) log). event_ok (fst (u s0)) e) \<and> stable_log (log_next call (k s0) log)"
    using old acc inv stable_log_snoc [OF _ old] by (cases "k s0") (auto simp: log_next_def)
  moreover have "requested threads (fst (u s0))" using requested_mono [OF _ conjunct1 [OF acc] calls] inv by blast
  ultimately show ?thesis unfolding step_access(2) by (simp add: cancel_inv_def)
qed

lemma cancel_start_inv: "cancel_inv threads (cancel_start c threads)"
  by (auto simp: cancel_inv_def cancel_start_def thread_ok_def thread_code_def stable_log_def requested_def stage_body)

lemma cancel_reachable_inv: "cancel_step\<^sup>*\<^sup>* (cancel_start c threads) s \<Longrightarrow> cancel_inv threads s"
  by (induction rule: rtranclp_induct) (auto intro: cancel_start_inv cancel_step_inv)


text \<open>A thread alone: the first call decides, every later one returns what it decided.\<close>

lemma finish_alone:
  "alone (finish a st) (\<sigma>, c) =
     (state_outcome (if \<sigma> a = ST_pending then st else \<sigma> a), (compare_exchange a st \<sigma>, c))"
  by (simp add: finish_def outcome_def compare_exchange_def)

lemma cancel_if_expired_ops_alone:
  "alone (cancel_if_expired_ops a deadline operations) (\<sigma>, c) =
     (if \<sigma> a \<noteq> ST_pending then (Inr (state_outcome (\<sigma> a)), (\<sigma>, c))
      else case expired_ops deadline operations c of
        (Inl e, c) \<Rightarrow> (Inl e, (\<sigma>, c))
      | (Inr ex, c) \<Rightarrow>
          if ex then (Inr (state_outcome ST_cancelled_deadline), (\<sigma>(a := ST_cancelled_deadline), c))
          else (Inr (state_outcome ST_pending), (\<sigma>, c)))"
  by (cases "expired_ops deadline operations c")
    (simp add: cancel_if_expired_ops_def outcome_def finish_def read_expired_def compare_exchange_def
      is_terminal_outcome split: sum.split)

subsection \<open>Agreement\<close>

text \<open>
  C11: whatever the interleaving of the atomic accesses of any number of threads that complete, cancel,
  expire by an instant or by a clock, and poll cancellation states, all of them agree. Every final outcome
  that any call on a state has returned is the one stored there; completing, cancelling and expiring a passed
  deadline always return a final one; an error is one of the clock. What is stored was requested by a call
  on that state: completion by \<open>complete\<close>, cancellation by \<open>cancel\<close>, expiry by a call whose deadline had
  passed. Once a final outcome of a state has been returned, every later outcome of it is the same.
\<close>

theorem cancellation_agreement:
  assumes "cancel_step\<^sup>*\<^sup>* (cancel_start c threads) ((\<sigma>, c'), ts, log)"
  shows "(\<forall>(call, r) \<in> set log.
            case r of
              Inl e \<Rightarrow> clock_failure call e
            | Inr out \<Rightarrow>
                if is_terminal out then out = state_outcome (\<sigma> (call_state call)) else \<not> call_finishes call) \<and>
         requested threads \<sigma> \<and> stable_log log"
proof -
  from cancel_reachable_inv [OF assms]
  have "\<forall>e \<in> set log. event_ok \<sigma> e" "stable_log log" "requested threads \<sigma>" by (simp_all add: cancel_inv_def)
  then show ?thesis by (fastforce simp: event_ok_def is_terminal_outcome split: sum.split)
qed

lemma step_exchange:
  assumes "i < length ts" "ts ! i = (call, returning (finish a st)) # rest"
  shows "cancel_step ((\<sigma>, c), ts, log)
    ((compare_exchange a st \<sigma>, c), ts[i := (call, returning (outcome a)) # rest], log)"
proof -
  have "returning (finish a st) = Access (\<lambda>(\<sigma>, c). (compare_exchange a st \<sigma>, c)) (\<lambda>_. returning (outcome a))"
    by (simp add: finish_def fun_eq_iff)
  from step_access [OF assms(1) assms(2) [unfolded this], of "(\<sigma>, c)" log] show ?thesis
    by (simp add: thread_next_def log_next_def outcome_def)
qed

lemma step_load:
  assumes "i < length ts" "ts ! i = (call, returning (outcome a)) # rest"
  shows "cancel_step ((\<sigma>, c), ts, log) ((\<sigma>, c), ts[i := rest], log @ [(call, Inr (state_outcome (\<sigma> a)))])"
proof -
  have "returning (outcome a) = Access id (\<lambda>(\<sigma>, _). Return (Inr (state_outcome (\<sigma> a))))"
    by (simp add: outcome_def fun_eq_iff)
  from step_access [OF assms(1) assms(2) [unfolded this], of "(\<sigma>, c)" log] show ?thesis
    by (simp add: thread_next_def log_next_def)
qed

text \<open>Witness: a cancellation overtakes a completion, and both calls return the cancellation.\<close>

theorem cancellation_agreement_witness:
  "\<exists>\<sigma> ts. cancel_step\<^sup>*\<^sup>* (cancel_start () [[Call_Cancel 1], [Call_Complete 1]])
      ((\<sigma>, ()), ts, [(Call_Complete 1, Inr (state_outcome ST_cancelled_explicit)),
                    (Call_Cancel 1, Inr (state_outcome ST_cancelled_explicit))]) \<and>
    state_outcome (\<sigma> 1) = state_outcome ST_cancelled_explicit"
proof -
  let ?\<sigma> = "(\<lambda>_. ST_pending)(1 := ST_cancelled_explicit)"
  let ?f = "\<lambda>st. returning (finish 1 st) :: (unit cancel_shared, CancellationOutcome Result) call"
    and ?l = "returning (outcome 1) :: (unit cancel_shared, CancellationOutcome Result) call"
  let ?a = "Call_Cancel 1 :: unit cancel_call" and ?b = "Call_Complete 1 :: unit cancel_call"
  let ?r = "Inr (state_outcome ST_cancelled_explicit) :: CancellationOutcome Result"
  have start: "cancel_start () [[?a], [?b]] =
      ((\<lambda>_. ST_pending, ()), [[(?a, ?f ST_cancelled_explicit)], [(?b, ?f ST_completed)]], [])"
    by (simp add: cancel_start_def thread_code_def source_cancel_def source_complete_def)
  have "cancel_step (cancel_start () [[?a], [?b]]) ((?\<sigma>, ()), [[(?a, ?l)], [(?b, ?f ST_completed)]], [])"
    unfolding start using step_exchange [of 0 "[[(?a, ?f ST_cancelled_explicit)], [(?b, ?f ST_completed)]]" ?a 1
        ST_cancelled_explicit "[]" "\<lambda>_. ST_pending"]
    by (simp add: compare_exchange_def)
  moreover have "cancel_step ((?\<sigma>, ()), [[(?a, ?l)], [(?b, ?f ST_completed)]], [])
      ((?\<sigma>, ()), [[(?a, ?l)], [(?b, ?l)]], [])"
    using step_exchange [of 1 "[[(?a, ?l)], [(?b, ?f ST_completed)]]" ?b 1 ST_completed "[]" ?\<sigma>]
    by (simp add: compare_exchange_def)
  moreover have "cancel_step ((?\<sigma>, ()), [[(?a, ?l)], [(?b, ?l)]], []) ((?\<sigma>, ()), [[(?a, ?l)], []], [(?b, ?r)])"
    using step_load [of 1 "[[(?a, ?l)], [(?b, ?l)]]" ?b 1 "[]" ?\<sigma> _ "[]"] by simp
  moreover have "cancel_step ((?\<sigma>, ()), [[(?a, ?l)], []], [(?b, ?r)]) ((?\<sigma>, ()), [[], []], [(?b, ?r), (?a, ?r)])"
    using step_load [of 0 "[[(?a, ?l)], []]" ?a 1 "[]" ?\<sigma> _ "[(?b, ?r)]"] by simp
  ultimately have reach: "cancel_step\<^sup>*\<^sup>* (cancel_start () [[?a], [?b]]) ((?\<sigma>, ()), [[], []], [(?b, ?r), (?a, ?r)])"
    by (meson converse_rtranclp_into_rtranclp r_into_rtranclp)
  have "is_terminal (state_outcome ST_cancelled_explicit)" by (simp add: is_terminal_outcome)
  with cancellation_agreement [OF reach]
  have "state_outcome (?\<sigma> 1) = state_outcome ST_cancelled_explicit" by (simp split: if_splits)
  with reach show ?thesis by blast
qed

end
