(* ===== verification/Handles.thy ===== *)
theory Handles
  imports Error_Contract Guarded_Systems "HOL-Library.Multiset"
begin

text \<open>
  \<open>src/core/contract/laghu/core/handles.hpp\<close> and \<open>src/core/handles.cpp\<close>: owning file and
  socket descriptors. The \<open>close\<close> system call is a parameter that answers a return value and an
  error number and acts on a state of type \<open>'w\<close>. The two classes have the same operations; the
  locale \<open>handle_class\<close> holds what their clients rely on and is interpreted on both. The lemmas
  show that every descriptor, as often as it is adopted, is closed, given away or merged exactly once.
\<close>

section \<open>Definitions\<close>

type_synonym 'w close_call = "int \<Rightarrow> 'w \<Rightarrow> (int \<times> int) \<times> 'w"

record 'w DescriptorOperations =
  dop_close :: "'w close_call option"

text \<open>The process-wide table around the system call.\<close>

definition default_descriptor_operations :: "'w close_call \<Rightarrow> 'w DescriptorOperations" where
  "default_descriptor_operations close = \<lparr>dop_close = Some close\<rparr>"

definition invalid_descriptor :: int where
  "invalid_descriptor = -1"

definition invalid_descriptor_error :: Error where
  "invalid_descriptor_error =
     make_error Dom_core EC_invalid_input (word_of_int EINVAL)
       ''descriptor adoption requires a non-negative descriptor''"

definition close_descriptor_once ::
    "int \<Rightarrow> 'w DescriptorOperations option \<Rightarrow> 'w \<Rightarrow> unit Result \<times> 'w" where
  "close_descriptor_once descriptor operations w =
     (case operations of
        None \<Rightarrow> (Inl (core_error EC_invalid_state ''descriptor has no close operation''), w)
      | Some ops \<Rightarrow>
          (case dop_close ops of
             None \<Rightarrow> (Inl (core_error EC_invalid_state ''descriptor has no close operation''), w)
           | Some close \<Rightarrow>
               (case close descriptor w of
                  ((result, errno), w) \<Rightarrow>
                    if result = 0 then (Inr (), w)
                    else (Inl (from_errno errno ''descriptor close failed''), w))))"

subsection \<open>File handles\<close>

record 'w FileHandle =
  file_descriptor :: int
  file_operations :: "'w DescriptorOperations option"

definition empty_file :: "'w FileHandle" where
  "empty_file = \<lparr>file_descriptor = invalid_descriptor, file_operations = None\<rparr>"

definition file_is_valid :: "'w FileHandle \<Rightarrow> bool" where
  "file_is_valid h \<longleftrightarrow> file_descriptor h \<ge> 0"

record BorrowedFileHandle =
  borrowed_file_descriptor :: int

definition file_borrow :: "'w FileHandle \<Rightarrow> BorrowedFileHandle" where
  "file_borrow h = \<lparr>borrowed_file_descriptor = file_descriptor h\<rparr>"

definition file_adopt :: "'w close_call \<Rightarrow> int \<Rightarrow> 'w FileHandle Result" where
  "file_adopt close descriptor =
     (if descriptor < 0 then Inl invalid_descriptor_error
      else Inr \<lparr>file_descriptor = descriptor,
                file_operations = Some (default_descriptor_operations close)\<rparr>)"

definition file_release :: "'w FileHandle \<Rightarrow> int \<times> 'w FileHandle" where
  "file_release h = (file_descriptor h, h\<lparr>file_descriptor := invalid_descriptor, file_operations := None\<rparr>)"

definition file_close :: "'w FileHandle \<Rightarrow> 'w \<Rightarrow> unit Result \<times> 'w FileHandle \<times> 'w" where
  "file_close h w =
     (if \<not> file_is_valid h then (Inr (), h, w)
      else
        let operations = file_operations h;
            (descriptor, h) = file_release h;
            (result, w) = close_descriptor_once descriptor operations w
        in (result, h, w))"

text \<open>The new value of the target and what is left in the source.\<close>

definition file_move_from :: "'w FileHandle \<Rightarrow> 'w FileHandle \<times> 'w FileHandle" where
  "file_move_from other =
     (let operations = file_operations other;
          (descriptor, other) = file_release other;
          this = \<lparr>file_descriptor = descriptor, file_operations = operations\<rparr>
      in (if \<not> file_is_valid this then this\<lparr>file_operations := None\<rparr> else this, other))"

text \<open>Move assignment and \<open>reset\<close> between two different objects.\<close>

definition file_move_assign ::
    "'w FileHandle \<Rightarrow> 'w FileHandle \<Rightarrow> 'w \<Rightarrow> ('w FileHandle \<times> 'w FileHandle) \<times> 'w" where
  "file_move_assign this other w =
     (case file_close this w of (_, _, w) \<Rightarrow> (file_move_from other, w))"

definition file_reset ::
    "'w FileHandle \<Rightarrow> 'w FileHandle \<Rightarrow> 'w \<Rightarrow> unit Result \<times> ('w FileHandle \<times> 'w FileHandle) \<times> 'w" where
  "file_reset this replacement w =
     (if file_is_valid this \<and> file_is_valid replacement \<and>
         file_descriptor this = file_descriptor replacement
      then (Inr (), (this, snd (file_release replacement)), w)
      else case file_close this w of
        (old_close, _, w) \<Rightarrow> (old_close, file_move_from replacement, w))"

text \<open>The destructor.\<close>

definition file_destroy :: "'w FileHandle \<Rightarrow> 'w \<Rightarrow> 'w" where
  "file_destroy h w = (case file_close h w of (_, _, w) \<Rightarrow> w)"

subsection \<open>Socket handles\<close>

record 'w SocketHandle =
  socket_descriptor :: int
  socket_operations :: "'w DescriptorOperations option"

definition empty_socket :: "'w SocketHandle" where
  "empty_socket = \<lparr>socket_descriptor = invalid_descriptor, socket_operations = None\<rparr>"

definition socket_is_valid :: "'w SocketHandle \<Rightarrow> bool" where
  "socket_is_valid h \<longleftrightarrow> socket_descriptor h \<ge> 0"

record BorrowedSocketHandle =
  borrowed_socket_descriptor :: int

definition socket_borrow :: "'w SocketHandle \<Rightarrow> BorrowedSocketHandle" where
  "socket_borrow h = \<lparr>borrowed_socket_descriptor = socket_descriptor h\<rparr>"

definition socket_adopt :: "'w close_call \<Rightarrow> int \<Rightarrow> 'w SocketHandle Result" where
  "socket_adopt close descriptor =
     (if descriptor < 0 then Inl invalid_descriptor_error
      else Inr \<lparr>socket_descriptor = descriptor,
                socket_operations = Some (default_descriptor_operations close)\<rparr>)"

definition socket_release :: "'w SocketHandle \<Rightarrow> int \<times> 'w SocketHandle" where
  "socket_release h = (socket_descriptor h, h\<lparr>socket_descriptor := invalid_descriptor, socket_operations := None\<rparr>)"

definition socket_close :: "'w SocketHandle \<Rightarrow> 'w \<Rightarrow> unit Result \<times> 'w SocketHandle \<times> 'w" where
  "socket_close h w =
     (if \<not> socket_is_valid h then (Inr (), h, w)
      else
        let operations = socket_operations h;
            (descriptor, h) = socket_release h;
            (result, w) = close_descriptor_once descriptor operations w
        in (result, h, w))"

text \<open>The new value of the target and what is left in the source.\<close>

definition socket_move_from :: "'w SocketHandle \<Rightarrow> 'w SocketHandle \<times> 'w SocketHandle" where
  "socket_move_from other =
     (let operations = socket_operations other;
          (descriptor, other) = socket_release other;
          this = \<lparr>socket_descriptor = descriptor, socket_operations = operations\<rparr>
      in (if \<not> socket_is_valid this then this\<lparr>socket_operations := None\<rparr> else this, other))"

text \<open>Move assignment and \<open>reset\<close> between two different objects.\<close>

definition socket_move_assign ::
    "'w SocketHandle \<Rightarrow> 'w SocketHandle \<Rightarrow> 'w \<Rightarrow> ('w SocketHandle \<times> 'w SocketHandle) \<times> 'w" where
  "socket_move_assign this other w =
     (case socket_close this w of (_, _, w) \<Rightarrow> (socket_move_from other, w))"

definition socket_reset ::
    "'w SocketHandle \<Rightarrow> 'w SocketHandle \<Rightarrow> 'w \<Rightarrow> unit Result \<times> ('w SocketHandle \<times> 'w SocketHandle) \<times> 'w" where
  "socket_reset this replacement w =
     (if socket_is_valid this \<and> socket_is_valid replacement \<and>
         socket_descriptor this = socket_descriptor replacement
      then (Inr (), (this, snd (socket_release replacement)), w)
      else case socket_close this w of
        (old_close, _, w) \<Rightarrow> (old_close, socket_move_from replacement, w))"

text \<open>The destructor.\<close>

definition socket_destroy :: "'w SocketHandle \<Rightarrow> 'w \<Rightarrow> 'w" where
  "socket_destroy h w = (case socket_close h w of (_, _, w) \<Rightarrow> w)"

section \<open>Programs that own descriptors\<close>

text \<open>The operations of a handle class, as a client sees them.\<close>

record ('h, 'w) handle_operations =
  hop_descriptor :: "'h \<Rightarrow> int"
  hop_empty :: 'h
  hop_adopt :: "int \<Rightarrow> 'h Result"
  hop_release :: "'h \<Rightarrow> int \<times> 'h"
  hop_close :: "'h \<Rightarrow> 'w \<Rightarrow> unit Result \<times> 'h \<times> 'w"
  hop_move_from :: "'h \<Rightarrow> 'h \<times> 'h"
  hop_move_assign :: "'h \<Rightarrow> 'h \<Rightarrow> 'w \<Rightarrow> ('h \<times> 'h) \<times> 'w"
  hop_reset :: "'h \<Rightarrow> 'h \<Rightarrow> 'w \<Rightarrow> unit Result \<times> ('h \<times> 'h) \<times> 'w"
  hop_destroy :: "'h \<Rightarrow> 'w \<Rightarrow> 'w"

definition file_operations_of :: "'w close_call \<Rightarrow> ('w FileHandle, 'w) handle_operations" where
  "file_operations_of close =
     \<lparr>hop_descriptor = file_descriptor, hop_empty = empty_file, hop_adopt = file_adopt close, hop_release = file_release,
      hop_close = file_close, hop_move_from = file_move_from, hop_move_assign = file_move_assign,
      hop_reset = file_reset, hop_destroy = file_destroy\<rparr>"

definition socket_operations_of :: "'w close_call \<Rightarrow> ('w SocketHandle, 'w) handle_operations" where
  "socket_operations_of close =
     \<lparr>hop_descriptor = socket_descriptor, hop_empty = empty_socket, hop_adopt = socket_adopt close, hop_release = socket_release,
      hop_close = socket_close, hop_move_from = socket_move_from, hop_move_assign = socket_move_assign,
      hop_reset = socket_reset, hop_destroy = socket_destroy\<rparr>"

text \<open>The descriptors owned by the handles.\<close>

definition owned_by :: "('h, 'w) handle_operations \<Rightarrow> 'h \<Rightarrow> int multiset" where
  "owned_by C h = (if hop_descriptor C h \<ge> 0 then {#hop_descriptor C h#} else {#})"

definition owned :: "('h, 'w) handle_operations \<Rightarrow> 'h list \<Rightarrow> int multiset" where
  "owned C hs = sum_list (map (owned_by C) hs)"

text \<open>
  The live handle objects of a program, named by position, and the state of the system. The last
  four fields record what the program asked for: the descriptors adopted, those of them that a
  handle owned already, those given away, and those for which two owners were reset to one.
\<close>

record ('h, 'w) HandleSystem =
  hs_handles :: "'h list"
  hs_world :: 'w
  hs_adopted :: "int list"
  hs_again :: "int list"
  hs_released :: "int list"
  hs_merged :: "int list"

datatype handle_op =
    H_Default
  | H_Adopt int
  | H_Move_Construct nat
  | H_Move_Assign nat nat
  | H_Reset nat nat
  | H_Release nat
  | H_Close nat
  | H_Destroy nat

fun handle_exec ::
    "('h, 'w) handle_operations \<Rightarrow> handle_op \<Rightarrow> ('h, 'w) HandleSystem \<Rightarrow>
     (unit Result \<times> ('h, 'w) HandleSystem) option" where
  "handle_exec C H_Default s = Some (Inr (), s\<lparr>hs_handles := hs_handles s @ [hop_empty C]\<rparr>)"
| "handle_exec C (H_Adopt fd) s =
     Some (case hop_adopt C fd of
             Inl e \<Rightarrow> (Inl e, s)
           | Inr h \<Rightarrow> (Inr (), s\<lparr>hs_handles := hs_handles s @ [h], hs_adopted := hs_adopted s @ [fd],
                               hs_again := hs_again s @ (if fd \<in># owned C (hs_handles s) then [fd] else [])\<rparr>))"
| "handle_exec C (H_Move_Construct i) s =
     (let (this, other) = hop_move_from C (hs_handles s ! i)
      in Some (Inr (), s\<lparr>hs_handles := (hs_handles s)[i := other] @ [this]\<rparr>))"
| "handle_exec C (H_Move_Assign i j) s =
     (if i = j then Some (Inr (), s)
      else let ((this, other), w) = hop_move_assign C (hs_handles s ! i) (hs_handles s ! j) (hs_world s)
           in Some (Inr (), s\<lparr>hs_handles := (hs_handles s)[i := this, j := other], hs_world := w\<rparr>))"
| "handle_exec C (H_Reset i j) s =
     (if i = j then Some (Inr (), s)
      else let (r, (this, other), w) = hop_reset C (hs_handles s ! i) (hs_handles s ! j) (hs_world s);
               fd = hop_descriptor C (hs_handles s ! i)
           in Some (r, s\<lparr>hs_handles := (hs_handles s)[i := this, j := other], hs_world := w,
                         hs_merged := hs_merged s @
                           (if fd \<ge> 0 \<and> fd = hop_descriptor C (hs_handles s ! j) then [fd] else [])\<rparr>))"
| "handle_exec C (H_Release i) s =
     (let (fd, h) = hop_release C (hs_handles s ! i)
      in Some (Inr (), s\<lparr>hs_handles := (hs_handles s)[i := h],
                         hs_released := hs_released s @ (if fd \<ge> 0 then [fd] else [])\<rparr>))"
| "handle_exec C (H_Close i) s =
     (let (r, h, w) = hop_close C (hs_handles s ! i) (hs_world s)
      in Some (r, s\<lparr>hs_handles := (hs_handles s)[i := h], hs_world := w\<rparr>))"
| "handle_exec C (H_Destroy i) s =
     Some (Inr (), s\<lparr>hs_handles := take i (hs_handles s) @ drop (Suc i) (hs_handles s),
                     hs_world := hop_destroy C (hs_handles s ! i) (hs_world s)\<rparr>)"

text \<open>The objects that are used are alive; nothing else is asked of a program.\<close>

fun handle_op_ok :: "handle_op \<Rightarrow> ('h, 'w) HandleSystem \<Rightarrow> bool" where
  "handle_op_ok H_Default s \<longleftrightarrow> True"
| "handle_op_ok (H_Adopt fd) s \<longleftrightarrow> True"
| "handle_op_ok (H_Move_Construct i) s \<longleftrightarrow> i < length (hs_handles s)"
| "handle_op_ok (H_Move_Assign i j) s \<longleftrightarrow> i < length (hs_handles s) \<and> j < length (hs_handles s)"
| "handle_op_ok (H_Reset i j) s \<longleftrightarrow> i < length (hs_handles s) \<and> j < length (hs_handles s)"
| "handle_op_ok (H_Release i) s \<longleftrightarrow> i < length (hs_handles s)"
| "handle_op_ok (H_Close i) s \<longleftrightarrow> i < length (hs_handles s)"
| "handle_op_ok (H_Destroy i) s \<longleftrightarrow> i < length (hs_handles s)"

definition handle_init :: "'w \<Rightarrow> ('h, 'w) HandleSystem" where
  "handle_init w = \<lparr>hs_handles = [], hs_world = w, hs_adopted = [], hs_again = [], hs_released = [], hs_merged = []\<rparr>"

section \<open>Every descriptor is accounted for\<close>

definition handle_inv ::
    "('h, 'w) handle_operations \<Rightarrow> ('h \<Rightarrow> bool) \<Rightarrow> ('w \<Rightarrow> int list) \<Rightarrow> ('h, 'w) HandleSystem \<Rightarrow> bool" where
  "handle_inv C good closed s \<longleftrightarrow> (\<forall>h \<in> set (hs_handles s). good h) \<and>
     mset (hs_adopted s) =
       owned C (hs_handles s) + mset (closed (hs_world s)) + (mset (hs_released s) + mset (hs_merged s)) \<and>
     (\<forall>fd. count (owned C (hs_handles s)) fd \<le> 1 + count (mset (hs_again s)) fd)"

lemma owned_simps [simp]: "owned C [] = {#}" "owned C (hs @ [h]) = owned C hs + owned_by C h"
  by (simp_all add: owned_def)

lemma owned_update: "i < length hs \<Longrightarrow> owned C (hs[i := h]) + owned_by C (hs ! i) = owned C hs + owned_by C h"
  unfolding owned_def by (rule sum_list_map_update)

lemma owned_by_simps: "hop_descriptor C h < 0 \<Longrightarrow> owned_by C h = {#}"
  "hop_descriptor C h = hop_descriptor C h' \<Longrightarrow> owned_by C h = owned_by C h'"
  by (simp_all add: owned_by_def)

lemma owned_closed: "mset (if hop_descriptor C h \<ge> 0 then [hop_descriptor C h] else []) = owned_by C h"
  by (simp add: owned_by_def)

lemma conserved:
  fixes own own' x c c' r r' :: "int multiset"
  assumes "own' + x = own" "c' + r' = c + r + x"
  shows "own + c + r = own' + c' + r'" and "own' \<subseteq># own"
proof -
  have "own + c + r = own' + (c + r + x)" using assms(1) by (simp add: ac_simps flip: assms(1))
  then show "own + c + r = own' + c' + r'" unfolding assms(2) [symmetric] by (simp add: add.assoc)
  show "own' \<subseteq># own" using assms(1) by (metis mset_subset_eq_add_left)
qed

lemma owned_remove: "i < length hs \<Longrightarrow> owned C (take i hs @ drop (Suc i) hs) + owned_by C (hs ! i) = owned C hs"
  by (subst (3) id_take_nth_drop [of i hs]) (simp_all add: owned_def ac_simps)

lemma owned_update_two:
  assumes "i < length hs" "j < length hs" "i \<noteq> j"
  shows "owned C (hs[i := t, j := o']) + owned_by C (hs ! i) + owned_by C (hs ! j)
    = owned C hs + owned_by C t + owned_by C o'"
  using owned_update [of j "hs[i := t]" C o'] owned_update [of i hs C t] assms
  by (simp add: ac_simps)

text \<open>
  What a program relies on of a handle class: \<open>closed\<close> reads the descriptors the system was
  asked to close, \<open>good\<close> is the class's invariant.
\<close>

locale handle_class =
  fixes C :: "('h, 'w) handle_operations"
    and good :: "'h \<Rightarrow> bool"
    and closed :: "'w \<Rightarrow> int list"
  assumes empty_ok: "good (hop_empty C)" "hop_descriptor C (hop_empty C) < 0"
    and adopt_ok: "0 \<le> fd \<Longrightarrow> \<exists>h. hop_adopt C fd = Inr h \<and> good h \<and> hop_descriptor C h = fd"
    and adopt_error: "fd < 0 \<Longrightarrow> \<exists>e. hop_adopt C fd = Inl e"
    and release_ok: "good h \<Longrightarrow>
      \<exists>h'. hop_release C h = (hop_descriptor C h, h') \<and> good h' \<and> hop_descriptor C h' < 0"
    and close_ok: "good h \<Longrightarrow> \<exists>r h' w'. hop_close C h w = (r, h', w') \<and> good h' \<and>
      hop_descriptor C h' < 0 \<and>
      closed w' = closed w @ (if hop_descriptor C h \<ge> 0 then [hop_descriptor C h] else [])"
    and move_ok: "good h \<Longrightarrow> \<exists>t o'. hop_move_from C h = (t, o') \<and> good t \<and> good o' \<and>
      hop_descriptor C t = hop_descriptor C h \<and> hop_descriptor C o' < 0"
    and assign_ok: "good a \<Longrightarrow> good b \<Longrightarrow> \<exists>t o' w'. hop_move_assign C a b w = ((t, o'), w') \<and>
      good t \<and> good o' \<and> hop_descriptor C t = hop_descriptor C b \<and> hop_descriptor C o' < 0 \<and>
      closed w' = closed w @ (if hop_descriptor C a \<ge> 0 then [hop_descriptor C a] else [])"
    and reset_ok: "good a \<Longrightarrow> good b \<Longrightarrow>
      hop_descriptor C a \<noteq> hop_descriptor C b \<or> hop_descriptor C a < 0 \<Longrightarrow>
      \<exists>r t o' w'. hop_reset C a b w = (r, (t, o'), w') \<and> good t \<and> good o' \<and>
      hop_descriptor C t = hop_descriptor C b \<and> hop_descriptor C o' < 0 \<and>
      closed w' = closed w @ (if hop_descriptor C a \<ge> 0 then [hop_descriptor C a] else [])"
    and reset_same: "good a \<Longrightarrow> good b \<Longrightarrow> hop_descriptor C a = hop_descriptor C b \<Longrightarrow> 0 \<le> hop_descriptor C a \<Longrightarrow>
      \<exists>r t o' w'. hop_reset C a b w = (r, (t, o'), w') \<and> good t \<and> good o' \<and>
      hop_descriptor C t = hop_descriptor C a \<and> hop_descriptor C o' < 0 \<and> closed w' = closed w"
    and destroy_ok: "good h \<Longrightarrow>
      closed (hop_destroy C h w) = closed w @ (if hop_descriptor C h \<ge> 0 then [hop_descriptor C h] else [])"
begin

lemma good_update: "\<forall>h \<in> set hs. good h \<Longrightarrow> good h' \<Longrightarrow> \<forall>h \<in> set (hs[i := h']). good h"
  using set_update_subset_insert [of hs i h'] by blast

lemma changed_inv:
  assumes inv: "handle_inv C good closed s"
    and own: "owned C hs + x = owned C (hs_handles s)" and good: "\<forall>h \<in> set hs. good h"
    and out: "mset (closed w) + (mset rel + mset mer) =
      mset (closed (hs_world s)) + (mset (hs_released s) + mset (hs_merged s)) + x"
  shows "handle_inv C good closed (s\<lparr>hs_handles := hs, hs_world := w, hs_released := rel, hs_merged := mer\<rparr>)"
proof -
  have "mset (hs_adopted s) = owned C hs + mset (closed w) + (mset rel + mset mer)"
    using inv conserved(1) [OF own out] by (simp add: handle_inv_def)
  moreover have "count (owned C hs) fd \<le> 1 + count (mset (hs_again s)) fd" for fd
    using inv mset_subset_eq_count [OF conserved(2) [OF own out], of fd] le_trans
    unfolding handle_inv_def by blast
  ultimately show ?thesis using good by (simp add: handle_inv_def)
qed

lemma moved_inv:
  assumes inv: "handle_inv C good closed s" and ij: "i < length (hs_handles s)" "j < length (hs_handles s)" "i \<noteq> j"
    and new: "good t" "good o'" "hop_descriptor C t = hop_descriptor C (hs_handles s ! j)"
      "hop_descriptor C o' < 0"
      "mset (closed w') + mset mer = mset (closed (hs_world s)) + mset (hs_merged s) + owned_by C (hs_handles s ! i)"
  shows "handle_inv C good closed
    (s\<lparr>hs_handles := (hs_handles s)[i := t, j := o'], hs_world := w', hs_merged := mer\<rparr>)"
proof -
  have "owned C ((hs_handles s)[i := t, j := o']) + owned_by C (hs_handles s ! i) = owned C (hs_handles s)"
    using owned_update_two [OF ij, of C t o'] owned_by_simps(1) [OF new(4)] owned_by_simps(2) [OF new(3)]
    by simp
  moreover have "\<forall>h \<in> set ((hs_handles s)[i := t, j := o']). good h"
    using inv unfolding handle_inv_def by (intro good_update new(1,2)) blast
  moreover have "mset (closed w') + (mset (hs_released s) + mset mer)
      = mset (closed (hs_world s)) + (mset (hs_released s) + mset (hs_merged s)) + owned_by C (hs_handles s ! i)"
    using new(5) by (simp add: ac_simps)
  ultimately show ?thesis
    using changed_inv [OF inv, of "(hs_handles s)[i := t, j := o']" "owned_by C (hs_handles s ! i)" w'
        "hs_released s" mer] by simp
qed

lemma one_changed_inv:
  assumes inv: "handle_inv C good closed s" and i: "i < length (hs_handles s)"
    and new: "good h" "hop_descriptor C h < 0"
      "mset (closed w') + mset rel = mset (closed (hs_world s)) + mset (hs_released s) + owned_by C (hs_handles s ! i)"
  shows "handle_inv C good closed (s\<lparr>hs_handles := (hs_handles s)[i := h], hs_world := w', hs_released := rel\<rparr>)"
proof -
  have "owned C ((hs_handles s)[i := h]) + owned_by C (hs_handles s ! i) = owned C (hs_handles s)"
    using owned_update [OF i, of C h] owned_by_simps(1) [OF new(2)] by simp
  moreover have "\<forall>h \<in> set ((hs_handles s)[i := h]). good h"
    using inv unfolding handle_inv_def by (intro good_update new(1)) blast
  moreover have "mset (closed w') + (mset rel + mset (hs_merged s)) =
      mset (closed (hs_world s)) + (mset (hs_released s) + mset (hs_merged s)) + owned_by C (hs_handles s ! i)"
    using new(3) by (simp add: add.assoc [symmetric])
  ultimately show ?thesis
    using changed_inv [OF inv, of "(hs_handles s)[i := h]" _ w' rel "hs_merged s"] by simp
qed

lemma adopt_inv:
  assumes inv: "handle_inv C good closed s" and h: "good h" "hop_descriptor C h = fd" "0 \<le> fd"
  shows "handle_inv C good closed (s\<lparr>hs_handles := hs_handles s @ [h], hs_adopted := hs_adopted s @ [fd],
    hs_again := hs_again s @ (if fd \<in># owned C (hs_handles s) then [fd] else [])\<rparr>)"
proof -
  have one: "owned_by C h = {#fd#}" using h by (simp add: owned_by_def)
  have "count (owned C (hs_handles s)) k \<le> 1 + count (mset (hs_again s)) k" for k
    using inv by (simp add: handle_inv_def)
  then have "count (owned C (hs_handles s) + {#fd#}) k
      \<le> 1 + count (mset (hs_again s @ (if fd \<in># owned C (hs_handles s) then [fd] else []))) k" for k
    by (cases "fd \<in># owned C (hs_handles s)"; cases "k = fd") (simp_all add: not_in_iff)
  with inv h(1) show ?thesis by (simp add: handle_inv_def one)
qed

lemma reset_inv:
  assumes inv: "handle_inv C good closed s" and ij: "i < length (hs_handles s)" "j < length (hs_handles s)" "i \<noteq> j"
  shows "\<exists>r s'. handle_exec C (H_Reset i j) s = Some (r, s') \<and> handle_inv C good closed s'"
proof (cases "hop_descriptor C (hs_handles s ! i) \<noteq> hop_descriptor C (hs_handles s ! j) \<or>
    hop_descriptor C (hs_handles s ! i) < 0")
  case True
  have "good (hs_handles s ! i)" "good (hs_handles s ! j)" using inv ij by (simp_all add: handle_inv_def)
  from reset_ok [OF this True, of "hs_world s"] obtain r t o' w' where reset:
    "hop_reset C (hs_handles s ! i) (hs_handles s ! j) (hs_world s) = (r, (t, o'), w')"
    "good t" "good o'" "hop_descriptor C t = hop_descriptor C (hs_handles s ! j)" "hop_descriptor C o' < 0"
    "closed w' = closed (hs_world s) @ (if hop_descriptor C (hs_handles s ! i) \<ge> 0
       then [hop_descriptor C (hs_handles s ! i)] else [])"
    by blast
  have "mset (closed w') + mset (hs_merged s) =
      mset (closed (hs_world s)) + mset (hs_merged s) + owned_by C (hs_handles s ! i)"
    unfolding reset(6) by (simp add: owned_by_def)
  from moved_inv [OF inv ij reset(2-5) this] True ij(3) reset(1) show ?thesis by (auto simp: Let_def)
next
  case False
  have "good (hs_handles s ! i)" "good (hs_handles s ! j)" using inv ij by (simp_all add: handle_inv_def)
  from reset_same [OF this, of "hs_world s"] False obtain r t o' w' where reset:
    "hop_reset C (hs_handles s ! i) (hs_handles s ! j) (hs_world s) = (r, (t, o'), w')"
    "good t" "good o'" "hop_descriptor C t = hop_descriptor C (hs_handles s ! j)" "hop_descriptor C o' < 0"
    "closed w' = closed (hs_world s)"
    by auto
  have "mset (closed w') + mset (hs_merged s @ [hop_descriptor C (hs_handles s ! i)]) =
      mset (closed (hs_world s)) + mset (hs_merged s) + owned_by C (hs_handles s ! i)"
    using False by (simp add: reset(6) owned_by_def)
  from moved_inv [OF inv ij reset(2-5) this] False ij(3) reset(1) show ?thesis by (auto simp: Let_def)
qed

lemma exec_inv_class:
  assumes inv: "handle_inv C good closed s" and ok: "handle_op_ok op s"
  shows "\<exists>r s'. handle_exec C op s = Some (r, s') \<and> handle_inv C good closed s'"
proof (cases op)
  case H_Default
  then show ?thesis using inv empty_ok owned_by_simps(1) [OF empty_ok(2)] by (simp add: handle_inv_def)
next
  case (H_Adopt fd)
  show ?thesis
  proof (cases "fd < 0")
    case True
    then show ?thesis using adopt_error [OF True] inv H_Adopt by auto
  next
    case False
    then obtain h where "hop_adopt C fd = Inr h" "good h" "hop_descriptor C h = fd"
      using adopt_ok [of fd] by auto
    with adopt_inv [OF inv, of h fd] H_Adopt False show ?thesis by simp
  qed
next
  case (H_Move_Construct i)
  then have i: "i < length (hs_handles s)" using ok by simp
  then have "good (hs_handles s ! i)" using inv by (simp add: handle_inv_def)
  then obtain t o' where move: "hop_move_from C (hs_handles s ! i) = (t, o')" "good t" "good o'"
      "hop_descriptor C t = hop_descriptor C (hs_handles s ! i)" "hop_descriptor C o' < 0"
    using move_ok [of "hs_handles s ! i"] by blast
  then have "owned C ((hs_handles s)[i := o'] @ [t]) = owned C (hs_handles s)"
    using owned_update [OF i, of C o'] owned_by_simps(2) [OF move(4)] owned_by_simps(1) [OF move(5)] by simp
  then show ?thesis
    using H_Move_Construct inv move(1,2) good_update [OF _ move(3), of "hs_handles s" i]
    by (simp add: handle_inv_def)
next
  case (H_Move_Assign i j)
  show ?thesis
  proof (cases "i = j")
    case False
    have ij: "i < length (hs_handles s)" "j < length (hs_handles s)" using ok H_Move_Assign by simp_all
    then have "good (hs_handles s ! i)" "good (hs_handles s ! j)" using inv by (simp_all add: handle_inv_def)
    from assign_ok [OF this, of "hs_world s"] obtain t o' w' where assign:
      "hop_move_assign C (hs_handles s ! i) (hs_handles s ! j) (hs_world s) = ((t, o'), w')"
      "good t" "good o'" "hop_descriptor C t = hop_descriptor C (hs_handles s ! j)" "hop_descriptor C o' < 0"
      "closed w' = closed (hs_world s) @ (if hop_descriptor C (hs_handles s ! i) \<ge> 0
         then [hop_descriptor C (hs_handles s ! i)] else [])"
      by blast
    have "mset (closed w') + mset (hs_merged s) =
        mset (closed (hs_world s)) + mset (hs_merged s) + owned_by C (hs_handles s ! i)"
      unfolding assign(6) by (simp add: owned_by_def)
    from moved_inv [OF inv ij False assign(2-5) this] H_Move_Assign assign(1) False show ?thesis by simp
  qed (use H_Move_Assign inv in simp)
next
  case (H_Reset i j)
  then show ?thesis using reset_inv [OF inv, of i j] ok inv by (cases "i = j") simp_all
next
  case (H_Release i)
  then have i: "i < length (hs_handles s)" using ok by simp
  then have "good (hs_handles s ! i)" using inv by (simp add: handle_inv_def)
  from release_ok [OF this] obtain h where release:
    "hop_release C (hs_handles s ! i) = (hop_descriptor C (hs_handles s ! i), h)" "good h" "hop_descriptor C h < 0"
    by blast
  from one_changed_inv [OF inv i release(2,3), of "hs_world s"
      "hs_released s @ (if hop_descriptor C (hs_handles s ! i) \<ge> 0 then [hop_descriptor C (hs_handles s ! i)] else [])"]
  show ?thesis using H_Release release(1) by (simp add: owned_closed add.assoc)
next
  case (H_Close i)
  then have i: "i < length (hs_handles s)" using ok by simp
  then have "good (hs_handles s ! i)" using inv by (simp add: handle_inv_def)
  from close_ok [OF this, of "hs_world s"] obtain r h w' where close:
    "hop_close C (hs_handles s ! i) (hs_world s) = (r, h, w')" "good h" "hop_descriptor C h < 0"
    "closed w' = closed (hs_world s) @ (if hop_descriptor C (hs_handles s ! i) \<ge> 0
       then [hop_descriptor C (hs_handles s ! i)] else [])"
    by blast
  then have eq: "mset (closed w') = mset (closed (hs_world s)) + owned_by C (hs_handles s ! i)"
    by (simp add: owned_by_def)
  have "mset (closed w') + mset (hs_released s)
      = mset (closed (hs_world s)) + mset (hs_released s) + owned_by C (hs_handles s ! i)"
    unfolding eq by (simp add: ac_simps)
  from one_changed_inv [OF inv i close(2,3) this] show ?thesis using H_Close close(1) by simp
next
  case (H_Destroy i)
  then have i: "i < length (hs_handles s)" using ok by simp
  then have good: "good (hs_handles s ! i)" using inv by (simp add: handle_inv_def)
  have live: "\<forall>h \<in> set (take i (hs_handles s) @ drop (Suc i) (hs_handles s)). good h"
    using inv by (auto simp: handle_inv_def dest: in_set_takeD in_set_dropD)
  have "mset (closed (hop_destroy C (hs_handles s ! i) (hs_world s))) + (mset (hs_released s) + mset (hs_merged s)) =
      mset (closed (hs_world s)) + (mset (hs_released s) + mset (hs_merged s)) + owned_by C (hs_handles s ! i)"
    unfolding destroy_ok [OF good] by (simp add: owned_by_def)
  from changed_inv [OF inv owned_remove [OF i] live this] show ?thesis using H_Destroy by simp
qed

end

text \<open>
  A program starts with no handle and nothing closed; the contract then makes its invariant hold
  in every state it can reach.
\<close>

locale handle_program = handle_class +
  fixes w0 :: 'b
  assumes nothing_closed: "closed w0 = []"

sublocale handle_program \<subseteq> guarded_system "handle_exec C" handle_op_ok "handle_init w0"
    "handle_inv C good closed"
proof
  show "handle_inv C good closed (handle_init w0)"
    by (simp add: handle_inv_def handle_init_def nothing_closed)
qed (rule exec_inv_class)

section \<open>Files and sockets\<close>

text \<open>The system call with a record of the descriptors it was given.\<close>

definition logged :: "'v close_call \<Rightarrow> ('v \<times> int list) close_call" where
  "logged close fd = (\<lambda>(v, log). case close fd v of (r, v') \<Rightarrow> (r, v', log @ [fd]))"

definition file_good :: "'w close_call \<Rightarrow> 'w FileHandle \<Rightarrow> bool" where
  "file_good close h \<longleftrightarrow>
     (if file_descriptor h \<ge> 0 then file_operations h = Some (default_descriptor_operations close)
      else file_descriptor h = invalid_descriptor \<and> file_operations h = None)"

definition socket_good :: "'w close_call \<Rightarrow> 'w SocketHandle \<Rightarrow> bool" where
  "socket_good close h \<longleftrightarrow>
     (if socket_descriptor h \<ge> 0 then socket_operations h = Some (default_descriptor_operations close)
      else socket_descriptor h = invalid_descriptor \<and> socket_operations h = None)"

lemma close_once_logged:
  "\<exists>r v'. close_descriptor_once fd (Some (default_descriptor_operations (logged close))) (v, log)
     = (r, v', log @ [fd])"
  by (auto simp: close_descriptor_once_def default_descriptor_operations_def logged_def
      split: prod.splits)

lemmas file_defs = file_adopt_def file_release_def file_move_from_def file_is_valid_def
  file_operations_of_def file_good_def invalid_descriptor_def
lemmas socket_defs = socket_adopt_def socket_release_def socket_move_from_def socket_is_valid_def
  socket_operations_of_def socket_good_def invalid_descriptor_def

lemma file_empty:
  "file_good close empty_file" "file_descriptor empty_file < 0" "snd (file_release h) = empty_file"
  "file_good close h \<Longrightarrow> file_descriptor h < 0 \<Longrightarrow> h = empty_file"
  "file_good close h \<Longrightarrow> file_move_from h = (h, empty_file)"
  by (cases h; auto simp: empty_file_def file_defs Let_def split: if_splits)+

lemma file_close_logged:
  assumes "file_good (logged close) h"
  shows "\<exists>r v'. file_close h (v, log)
     = (r, empty_file, v', log @ (if file_descriptor h \<ge> 0 then [file_descriptor h] else []))"
proof (cases "file_descriptor h \<ge> 0")
  case True
  then show ?thesis
    using assms close_once_logged [of "file_descriptor h" close v log] file_empty(3) [of h]
    by (auto simp: file_close_def file_is_valid_def file_good_def file_release_def)
next
  case False
  with file_empty(4) [OF assms] show ?thesis by (simp add: file_close_def file_is_valid_def)
qed

lemma socket_empty:
  "socket_good close empty_socket" "socket_descriptor empty_socket < 0" "snd (socket_release h) = empty_socket"
  "socket_good close h \<Longrightarrow> socket_descriptor h < 0 \<Longrightarrow> h = empty_socket"
  "socket_good close h \<Longrightarrow> socket_move_from h = (h, empty_socket)"
  by (cases h; auto simp: empty_socket_def socket_defs Let_def split: if_splits)+

lemma socket_close_logged:
  assumes "socket_good (logged close) h"
  shows "\<exists>r v'. socket_close h (v, log)
     = (r, empty_socket, v', log @ (if socket_descriptor h \<ge> 0 then [socket_descriptor h] else []))"
proof (cases "socket_descriptor h \<ge> 0")
  case True
  then show ?thesis
    using assms close_once_logged [of "socket_descriptor h" close v log] socket_empty(3) [of h]
    by (auto simp: socket_close_def socket_is_valid_def socket_good_def socket_release_def)
next
  case False
  with socket_empty(4) [OF assms] show ?thesis by (simp add: socket_close_def socket_is_valid_def)
qed

interpretation files: handle_program "file_operations_of (logged close)" "file_good (logged close)" snd
    "(v, [])" for close :: "'v close_call" and v
proof
  let ?C = "file_operations_of (logged close)" and ?good = "file_good (logged close)"
  fix fd h a b and w :: "'v \<times> int list"
  obtain u log where w: "w = (u, log)" by (cases w)
  note ops [simp] = file_operations_of_def and empty = file_empty(1,2)
  show "0 \<le> fd \<Longrightarrow> \<exists>h. hop_adopt ?C fd = Inr h \<and> ?good h \<and> hop_descriptor ?C h = fd"
    and "fd < 0 \<Longrightarrow> \<exists>e. hop_adopt ?C fd = Inl e"
    by (auto simp: file_defs)
  show "?good h \<Longrightarrow> \<exists>h'. hop_release ?C h = (hop_descriptor ?C h, h') \<and> ?good h' \<and> hop_descriptor ?C h' < 0"
    using file_empty(3) [of h] by (simp add: empty file_release_def)
  show "?good h \<Longrightarrow> \<exists>t o'. hop_move_from ?C h = (t, o') \<and> ?good t \<and> ?good o' \<and>
      hop_descriptor ?C t = hop_descriptor ?C h \<and> hop_descriptor ?C o' < 0"
    by (simp add: empty file_empty(5))
  show "?good h \<Longrightarrow> \<exists>r h' w'. hop_close ?C h w = (r, h', w') \<and> ?good h' \<and> hop_descriptor ?C h' < 0 \<and>
      snd w' = snd w @ (if hop_descriptor ?C h \<ge> 0 then [hop_descriptor ?C h] else [])"
    using file_close_logged [of close h u log] by (auto simp: w empty)
  show "?good a \<Longrightarrow> ?good b \<Longrightarrow> \<exists>t o' w'. hop_move_assign ?C a b w = ((t, o'), w') \<and>
      ?good t \<and> ?good o' \<and> hop_descriptor ?C t = hop_descriptor ?C b \<and> hop_descriptor ?C o' < 0 \<and>
      snd w' = snd w @ (if hop_descriptor ?C a \<ge> 0 then [hop_descriptor ?C a] else [])"
    using file_close_logged [of close a u log] by (auto simp: w empty file_empty(5) file_move_assign_def)
  show "?good a \<Longrightarrow> ?good b \<Longrightarrow> hop_descriptor ?C a \<noteq> hop_descriptor ?C b \<or> hop_descriptor ?C a < 0 \<Longrightarrow>
      \<exists>r t o' w'. hop_reset ?C a b w = (r, (t, o'), w') \<and> ?good t \<and> ?good o' \<and>
      hop_descriptor ?C t = hop_descriptor ?C b \<and> hop_descriptor ?C o' < 0 \<and>
      snd w' = snd w @ (if hop_descriptor ?C a \<ge> 0 then [hop_descriptor ?C a] else [])"
    using file_close_logged [of close a u log]
    by (auto simp: w empty file_empty(5) file_reset_def file_is_valid_def)
  show "?good a \<Longrightarrow> ?good b \<Longrightarrow> hop_descriptor ?C a = hop_descriptor ?C b \<Longrightarrow> 0 \<le> hop_descriptor ?C a \<Longrightarrow>
      \<exists>r t o' w'. hop_reset ?C a b w = (r, (t, o'), w') \<and> ?good t \<and> ?good o' \<and>
      hop_descriptor ?C t = hop_descriptor ?C a \<and> hop_descriptor ?C o' < 0 \<and> snd w' = snd w"
    using file_empty(3) [of b] by (simp add: empty file_reset_def file_is_valid_def)
  show "?good h \<Longrightarrow>
      snd (hop_destroy ?C h w) = snd w @ (if hop_descriptor ?C h \<ge> 0 then [hop_descriptor ?C h] else [])"
    using file_close_logged [of close h u log] by (auto simp: w file_destroy_def)
qed (simp_all add: file_operations_of_def file_empty)

interpretation sockets: handle_program "socket_operations_of (logged close)" "socket_good (logged close)" snd
    "(v, [])" for close :: "'v close_call" and v
proof
  let ?C = "socket_operations_of (logged close)" and ?good = "socket_good (logged close)"
  fix fd h a b and w :: "'v \<times> int list"
  obtain u log where w: "w = (u, log)" by (cases w)
  note ops [simp] = socket_operations_of_def and empty = socket_empty(1,2)
  show "0 \<le> fd \<Longrightarrow> \<exists>h. hop_adopt ?C fd = Inr h \<and> ?good h \<and> hop_descriptor ?C h = fd"
    and "fd < 0 \<Longrightarrow> \<exists>e. hop_adopt ?C fd = Inl e"
    by (auto simp: socket_defs)
  show "?good h \<Longrightarrow> \<exists>h'. hop_release ?C h = (hop_descriptor ?C h, h') \<and> ?good h' \<and> hop_descriptor ?C h' < 0"
    using socket_empty(3) [of h] by (simp add: empty socket_release_def)
  show "?good h \<Longrightarrow> \<exists>t o'. hop_move_from ?C h = (t, o') \<and> ?good t \<and> ?good o' \<and>
      hop_descriptor ?C t = hop_descriptor ?C h \<and> hop_descriptor ?C o' < 0"
    by (simp add: empty socket_empty(5))
  show "?good h \<Longrightarrow> \<exists>r h' w'. hop_close ?C h w = (r, h', w') \<and> ?good h' \<and> hop_descriptor ?C h' < 0 \<and>
      snd w' = snd w @ (if hop_descriptor ?C h \<ge> 0 then [hop_descriptor ?C h] else [])"
    using socket_close_logged [of close h u log] by (auto simp: w empty)
  show "?good a \<Longrightarrow> ?good b \<Longrightarrow> \<exists>t o' w'. hop_move_assign ?C a b w = ((t, o'), w') \<and>
      ?good t \<and> ?good o' \<and> hop_descriptor ?C t = hop_descriptor ?C b \<and> hop_descriptor ?C o' < 0 \<and>
      snd w' = snd w @ (if hop_descriptor ?C a \<ge> 0 then [hop_descriptor ?C a] else [])"
    using socket_close_logged [of close a u log] by (auto simp: w empty socket_empty(5) socket_move_assign_def)
  show "?good a \<Longrightarrow> ?good b \<Longrightarrow> hop_descriptor ?C a \<noteq> hop_descriptor ?C b \<or> hop_descriptor ?C a < 0 \<Longrightarrow>
      \<exists>r t o' w'. hop_reset ?C a b w = (r, (t, o'), w') \<and> ?good t \<and> ?good o' \<and>
      hop_descriptor ?C t = hop_descriptor ?C b \<and> hop_descriptor ?C o' < 0 \<and>
      snd w' = snd w @ (if hop_descriptor ?C a \<ge> 0 then [hop_descriptor ?C a] else [])"
    using socket_close_logged [of close a u log]
    by (auto simp: w empty socket_empty(5) socket_reset_def socket_is_valid_def)
  show "?good a \<Longrightarrow> ?good b \<Longrightarrow> hop_descriptor ?C a = hop_descriptor ?C b \<Longrightarrow> 0 \<le> hop_descriptor ?C a \<Longrightarrow>
      \<exists>r t o' w'. hop_reset ?C a b w = (r, (t, o'), w') \<and> ?good t \<and> ?good o' \<and>
      hop_descriptor ?C t = hop_descriptor ?C a \<and> hop_descriptor ?C o' < 0 \<and> snd w' = snd w"
    using socket_empty(3) [of b] by (simp add: empty socket_reset_def socket_is_valid_def)
  show "?good h \<Longrightarrow>
      snd (hop_destroy ?C h w) = snd w @ (if hop_descriptor ?C h \<ge> 0 then [hop_descriptor ?C h] else [])"
    using socket_close_logged [of close h u log] by (auto simp: w socket_destroy_def)
qed (simp_all add: socket_operations_of_def socket_empty)

section \<open>Properties\<close>

text \<open>
  The state of a program whose descriptors are all accounted for. A descriptor adopted \<open>n\<close> times is
  owned, was closed, released or merged \<open>n\<close> times together, and it has two owners only if the
  program adopted it while it was owned.
\<close>

definition accounted :: "('h, 'v \<times> int list) handle_operations \<Rightarrow> ('h, 'v \<times> int list) HandleSystem \<Rightarrow> bool" where
  "accounted C s \<longleftrightarrow>
     mset (hs_adopted s) =
       owned C (hs_handles s) + mset (snd (hs_world s)) + (mset (hs_released s) + mset (hs_merged s)) \<and>
     (\<forall>fd. count (owned C (hs_handles s)) fd \<le> 1 + count (mset (hs_again s)) fd)"

text \<open>
  C12: no descriptor leaks and none is closed more often than it was adopted. For every sequence of
  constructions, adoptions, moves, resets, releases, closes and destructions of live file handles, and
  likewise of socket handles, and whatever \<open>close\<close> answers, each adoption of a descriptor is at any time
  either still owned by a handle, or closed once, or released to the caller, or merged by a \<open>reset\<close>
  between two owners of the same descriptor, which closes nothing. A descriptor that is never adopted
  while it is owned has at most one owner.
\<close>

theorem descriptors_accounted:
  assumes "run_ok (handle_exec (file_operations_of (logged close))) handle_op_ok ops (handle_init (v, []))"
    and "run_ok (handle_exec (socket_operations_of (logged close))) handle_op_ok ops' (handle_init (v, []))"
  shows "(\<exists>rs s. run (handle_exec (file_operations_of (logged close))) ops (handle_init (v, [])) = Some (rs, s) \<and>
            accounted (file_operations_of (logged close)) s) \<and>
         (\<exists>rs s. run (handle_exec (socket_operations_of (logged close))) ops' (handle_init (v, [])) = Some (rs, s) \<and>
            accounted (socket_operations_of (logged close)) s)"
  using files.run_total [OF reachable_start assms(1)] sockets.run_total [OF reachable_start assms(2)]
    files.reachable_inv [of close v] sockets.reachable_inv [of close v]
  unfolding accounted_def handle_inv_def by blast

text \<open>Witness: a descriptor adopted twice, merged by a reset and closed once by the destructor.\<close>

theorem descriptors_accounted_witness:
  "\<exists>rs s. run (handle_exec (file_operations_of (logged (\<lambda>fd v. ((0, 0), v)))))
       [H_Adopt 43, H_Adopt 43, H_Reset 0 1, H_Destroy 1, H_Destroy 0] (handle_init ((), [])) = Some (rs, s) \<and>
     accounted (file_operations_of (logged (\<lambda>fd v. ((0, 0), v)))) s \<and>
     hs_handles s = [] \<and> snd (hs_world s) = [43]"
proof -
  let ?close = "\<lambda>fd v. ((0, 0), v) :: (int \<times> int) \<times> unit"
  let ?ops = "[H_Adopt 43, H_Adopt 43, H_Reset 0 1, H_Destroy 1, H_Destroy 0]"
  let ?exec = "handle_exec (file_operations_of (logged ?close))"
  have ok: "run_ok ?exec handle_op_ok ?ops (handle_init ((), []))"
    by (simp add: handle_init_def file_operations_of_def file_adopt_def split: prod.splits)
  have "run_ok (handle_exec (socket_operations_of (logged ?close))) handle_op_ok [] (handle_init ((), []))"
    by simp
  with descriptors_accounted [OF ok this] obtain rs s where
    s: "run ?exec ?ops (handle_init ((), [])) = Some (rs, s)" "accounted (file_operations_of (logged ?close)) s"
    by blast
  moreover have "hs_handles s = [] \<and> snd (hs_world s) = [43]"
    using s(1) by (auto simp: handle_init_def file_defs file_reset_def file_destroy_def file_close_def logged_def
        close_descriptor_once_def default_descriptor_operations_def owned_def owned_by_def)
  ultimately show ?thesis by blast
qed

end
