(* ===== verification/Bounded_Arena.thy ===== *)
theory Bounded_Arena
  imports Bounded_Buffer Slab_Pool
begin

text \<open>
  \<open>BoundedArena\<close> of \<open>src/core/contract/laghu/core/bounded_arena.hpp\<close>: a bump allocator over one
  block, charged to a memory budget as it grows, with pins that hold off a reset and views that a
  reset invalidates. The block source is code outside the library, so its two functions are values
  of the model, on a state of type \<open>'w\<close>. An operation returns \<open>None\<close> where the code terminates the
  process or does not return. The lemmas show that the views that can still be read never overlap
  and lie in the block, that the budget is charged the capacity, and what a reset needs and does.
\<close>

section \<open>Definitions\<close>

record 'w ArenaBlockSource =
  asrc_acquire :: "(size_t \<Rightarrow> 'w \<Rightarrow> MutableByteView Result \<times> 'w) option"
  asrc_reset :: "('w \<Rightarrow> unit Result \<times> 'w) option"

record 'w BoundedArena =
  ba_worker :: WorkerId
  ba_budget :: addr
  ba_source :: "'w ArenaBlockSource"
  ba_storage :: MutableByteView
  ba_reservation :: MemoryReservation
  ba_initial_capacity :: size_t
  ba_maximum_capacity :: size_t
  ba_capacity :: size_t
  ba_offset :: size_t
  ba_live_pins :: size_t
  ba_generation :: u64

text \<open>Pins, views and boundaries point to their arena; \<open>nullptr\<close> is no arena.\<close>

record ArenaPin =
  pin_arena :: addr

record ArenaView =
  av_arena :: addr
  av_bytes :: MutableByteView
  av_generation :: u64

record ArenaQuiescentBoundary =
  qb_arena :: addr
  qb_generation :: u64

type_synonym 'w arenas = "addr \<rightharpoonup> 'w BoundedArena"

definition bounded_arena ::
    "WorkerId \<Rightarrow> addr \<Rightarrow> 'w ArenaBlockSource \<Rightarrow> size_t \<Rightarrow> size_t \<Rightarrow> 'w BoundedArena" where
  "bounded_arena worker budget source initial_capacity maximum_capacity =
     \<lparr>ba_worker = worker, ba_budget = budget, ba_source = source, ba_storage = empty_span,
      ba_reservation = empty_reservation, ba_initial_capacity = initial_capacity,
      ba_maximum_capacity = maximum_capacity, ba_capacity = 0, ba_offset = 0, ba_live_pins = 0,
      ba_generation = 1\<rparr>"

text \<open>The destructor.\<close>

definition destroy_arena :: "'w BoundedArena \<Rightarrow> unit option" where
  "destroy_arena a = (if is_active (ba_reservation a) \<or> ba_live_pins a \<noteq> 0 then None else Some ())"

definition ba_require_worker :: "'w BoundedArena \<Rightarrow> WorkerId \<Rightarrow> unit Result" where
  "ba_require_worker a worker =
     (if sid_value worker \<noteq> sid_value (ba_worker a)
        then Inl (core_error EC_invalid_state ''bounded arena accessed by a different worker'')
      else Inr ())"

unbundle bit_operations_syntax

definition ba_is_valid_alignment :: "size_t \<Rightarrow> bool" where
  "ba_is_valid_alignment alignment \<longleftrightarrow> alignment \<noteq> 0 \<and> alignment AND (alignment - 1) = 0"

text \<open>\<open>this\<close> is the address of the arena.\<close>

definition ba_pin :: "addr \<Rightarrow> WorkerId \<Rightarrow> 'w BoundedArena \<Rightarrow> ArenaPin Result \<times> 'w BoundedArena" where
  "ba_pin this worker a =
     (case ba_require_worker a worker of
        Inl e \<Rightarrow> (Inl e, a)
      | Inr _ \<Rightarrow>
          if ba_live_pins a = umax
            then (Inl (core_error EC_exhaustion ''bounded arena pin capacity is exhausted''), a)
          else (Inr \<lparr>pin_arena = this\<rparr>, a\<lparr>ba_live_pins := ba_live_pins a + 1\<rparr>))"

definition release_pin :: "'w BoundedArena \<Rightarrow> 'w BoundedArena option" where
  "release_pin a = (if ba_live_pins a = 0 then None else Some (a\<lparr>ba_live_pins := ba_live_pins a - 1\<rparr>))"

definition pin_release :: "ArenaPin \<Rightarrow> 'w arenas \<Rightarrow> (ArenaPin \<times> 'w arenas) option" where
  "pin_release p A =
     (if pin_arena p \<noteq> nullptr
      then do { a \<leftarrow> A (pin_arena p);
                a' \<leftarrow> release_pin a;
                Some (p\<lparr>pin_arena := nullptr\<rparr>, A(pin_arena p \<mapsto> a')) }
      else Some (p\<lparr>pin_arena := nullptr\<rparr>, A))"

text \<open>The new pin, or the new value of the target, and what is left in the source.\<close>

definition pin_move :: "ArenaPin \<Rightarrow> ArenaPin \<times> ArenaPin" where
  "pin_move other = (\<lparr>pin_arena = pin_arena other\<rparr>, other\<lparr>pin_arena := nullptr\<rparr>)"

definition pin_move_assign ::
    "ArenaPin \<Rightarrow> ArenaPin \<Rightarrow> 'w arenas \<Rightarrow> ((ArenaPin \<times> ArenaPin) \<times> 'w arenas) option" where
  "pin_move_assign this other A = do { (_, A) \<leftarrow> pin_release this A; Some (pin_move other, A) }"

text \<open>The doubling loop of \<open>ensure_capacity\<close> and the cut after it.\<close>

definition arena_target :: "'w BoundedArena \<Rightarrow> size_t \<Rightarrow> size_t option" where
  "arena_target a required =
     do { target \<leftarrow> grow_target (ba_maximum_capacity a) required
                      (if ba_capacity a = 0 then ba_initial_capacity a else ba_capacity a);
          Some (if target > ba_maximum_capacity a then ba_maximum_capacity a else target) }"

text \<open>The callable passed to \<open>reserve_for_allocation\<close>; it keeps the block it accepts.\<close>

definition acquire_arena_block ::
    "'w BoundedArena \<Rightarrow> MutableByteView \<times> 'w \<Rightarrow> unit Result \<times> MutableByteView \<times> 'w" where
  "acquire_arena_block a = (\<lambda>(acquired, w).
     (case the (asrc_acquire (ba_source a)) (ba_maximum_capacity a) w of
        (Inl e, w) \<Rightarrow> (Inl e, acquired, w)
      | (Inr source_block, w) \<Rightarrow>
          if sp_size source_block < ba_maximum_capacity a
          then (Inl (core_error EC_exhaustion ''bounded arena block source is smaller than the maximum''),
                acquired, w)
          else (Inr (), source_block, w)))"

definition ensure_capacity ::
    "WorkerId \<Rightarrow> size_t \<Rightarrow> 'w BoundedArena \<times> budgets \<times> 'w \<Rightarrow>
     (unit Result \<times> 'w BoundedArena \<times> budgets \<times> 'w) option" where
  "ensure_capacity worker required = (\<lambda>(a, h, w).
     if asrc_acquire (ba_source a) = None \<or> asrc_reset (ba_source a) = None \<or>
        ba_initial_capacity a = 0 \<or> ba_initial_capacity a > ba_maximum_capacity a
       then Some (Inl (core_error EC_invalid_input
                         ''bounded arena has an invalid block source or capacity''), a, h, w)
     else if required \<le> ba_capacity a then Some (Inr (), a, h, w)
     else
       do { target \<leftarrow> arena_target a required;
            if \<not> is_active (ba_reservation a) then
              do { (reservation, h, acquired, w) \<leftarrow>
                     reserve_for_allocation (ba_budget a) worker target (acquire_arena_block a) h
                       (empty_span, w);
                   case reservation of
                     Inl e \<Rightarrow> Some (Inl e, a, h, w)
                   | Inr r \<Rightarrow>
                       do { ((r', _), h) \<leftarrow> move_assign (ba_reservation a) r h;
                            Some (Inr (), a\<lparr>ba_storage := acquired, ba_reservation := r',
                                            ba_capacity := target\<rparr>, h, w) } }
            else
              do { (expanded, r, h) \<leftarrow>
                     reservation_grow (ba_reservation a) worker (target - ba_capacity a) h;
                   case expanded of
                     Inl e \<Rightarrow> Some (Inl e, a\<lparr>ba_reservation := r\<rparr>, h, w)
                   | Inr _ \<Rightarrow> Some (Inr (), a\<lparr>ba_reservation := r, ba_capacity := target\<rparr>, h, w) } })"

definition ba_try_allocate ::
    "addr \<Rightarrow> WorkerId \<Rightarrow> size_t \<Rightarrow> size_t \<Rightarrow> 'w BoundedArena \<times> budgets \<times> 'w \<Rightarrow>
     (ArenaView Result \<times> 'w BoundedArena \<times> budgets \<times> 'w) option" where
  "ba_try_allocate this worker bytes alignment = (\<lambda>(a, h, w).
     case ba_require_worker a worker of
       Inl e \<Rightarrow> Some (Inl e, a, h, w)
     | Inr _ \<Rightarrow>
         if \<not> ba_is_valid_alignment alignment
           then Some (Inl (core_error EC_invalid_input
                             ''bounded arena alignment must be a nonzero power of two''), a, h, w)
         else if bytes = 0
           then Some (Inr \<lparr>av_arena = this, av_bytes = empty_span, av_generation = ba_generation a\<rparr>,
                      a, h, w)
         else
           let remainder = ba_offset a mod alignment;
               padding = (if remainder = 0 then 0 else alignment - remainder)
           in case checked_add (ba_offset a) padding of
                Inl e \<Rightarrow> Some (Inl e, a, h, w)
              | Inr aligned_offset \<Rightarrow>
                  (case checked_add aligned_offset bytes of
                     Inl e \<Rightarrow> Some (Inl e, a, h, w)
                   | Inr required \<Rightarrow>
                       if required > ba_maximum_capacity a
                         then Some (Inl (core_error EC_exhaustion
                                           ''bounded arena maximum capacity is exhausted''), a, h, w)
                       else
                         do { (capacity, a, h, w) \<leftarrow> ensure_capacity worker required (a, h, w);
                              case capacity of
                                Inl e \<Rightarrow> Some (Inl e, a, h, w)
                              | Inr _ \<Rightarrow>
                                  (case mutable_byte_view_from
                                          (subspan (ba_storage a) aligned_offset bytes) of
                                     Inl _ \<Rightarrow> None
                                   | Inr allocation \<Rightarrow>
                                       Some (Inr \<lparr>av_arena = this, av_bytes = allocation,
                                                  av_generation = ba_generation a\<rparr>,
                                             a\<lparr>ba_offset := required\<rparr>, h, w)) }))"

definition quiescent_boundary :: "addr \<Rightarrow> WorkerId \<Rightarrow> 'w BoundedArena \<Rightarrow> ArenaQuiescentBoundary Result" where
  "quiescent_boundary this worker a =
     (case ba_require_worker a worker of
        Inl e \<Rightarrow> Inl e
      | Inr _ \<Rightarrow> Inr \<lparr>qb_arena = this, qb_generation = ba_generation a\<rparr>)"

definition ba_reset ::
    "addr \<Rightarrow> WorkerId \<Rightarrow> ArenaQuiescentBoundary \<Rightarrow> 'w BoundedArena \<times> budgets \<times> 'w \<Rightarrow>
     (unit Result \<times> 'w BoundedArena \<times> budgets \<times> 'w) option" where
  "ba_reset this worker boundary = (\<lambda>(a, h, w).
     case ba_require_worker a worker of
       Inl e \<Rightarrow> Some (Inl e, a, h, w)
     | Inr _ \<Rightarrow>
         if qb_arena boundary \<noteq> this \<or> qb_generation boundary \<noteq> ba_generation a
           then Some (Inl (core_error EC_invalid_state
                             ''bounded arena reset requires its current quiescent boundary''), a, h, w)
         else if ba_live_pins a \<noteq> 0
           then Some (Inl (core_error EC_invalid_state
                             ''bounded arena reset requires all live pins to be released''), a, h, w)
         else if ba_generation a = umax
           then Some (Inl (core_error EC_overflow ''bounded arena generation is exhausted''), a, h, w)
         else case asrc_reset (ba_source a) of
           None \<Rightarrow> Some (Inl (core_error EC_invalid_input
                                ''bounded arena has an invalid block source''), a, h, w)
         | Some reset \<Rightarrow>
             (case reset w of
                (Inl e, w) \<Rightarrow> Some (Inl e, a, h, w)
              | (Inr _, w) \<Rightarrow>
                  do { (_, r, h) \<leftarrow> reservation_release (ba_reservation a) worker h;
                       Some (Inr (), a\<lparr>ba_reservation := r, ba_storage := empty_span, ba_capacity := 0,
                                       ba_offset := 0, ba_generation := ba_generation a + 1\<rparr>, h, w) }))"

definition view_for :: "'w BoundedArena \<Rightarrow> MutableByteView \<Rightarrow> u64 \<Rightarrow> MutableByteView Result" where
  "view_for a bytes generation =
     (if generation \<noteq> ba_generation a
        then Inl (core_error EC_invalid_state ''bounded arena view was invalidated by reset'')
      else Inr bytes)"

text \<open>A view whose arena is gone is undefined behaviour, here \<open>None\<close>.\<close>

definition view_bytes :: "'w arenas \<Rightarrow> ArenaView \<Rightarrow> MutableByteView Result option" where
  "view_bytes A v =
     (if av_arena v = nullptr
        then Some (Inl (core_error EC_invalid_state ''bounded arena view is empty''))
      else map_option (\<lambda>a. view_for a (av_bytes v) (av_generation v)) (A (av_arena v)))"

text \<open>The memory resource of the standard library on an arena.\<close>

record ArenaPmrResource =
  pmr_arena :: addr
  pmr_worker :: WorkerId

definition do_allocate ::
    "ArenaPmrResource \<Rightarrow> size_t \<Rightarrow> size_t \<Rightarrow> 'w BoundedArena \<times> budgets \<times> 'w \<Rightarrow>
     (addr \<times> 'w BoundedArena \<times> budgets \<times> 'w) option" where
  "do_allocate resource bytes alignment s =
     do { (allocation, a, h, w) \<leftarrow>
            ba_try_allocate (pmr_arena resource) (pmr_worker resource) (if bytes = 0 then 1 else bytes)
              alignment s;
          case allocation of
            Inl _ \<Rightarrow> None
          | Inr v \<Rightarrow>
              do { bytes_view \<leftarrow> view_bytes [pmr_arena resource \<mapsto> a] v;
                   case bytes_view of
                     Inl _ \<Rightarrow> None
                   | Inr b \<Rightarrow> Some (sp_data b, a, h, w) } }"

definition do_deallocate :: "addr \<Rightarrow> size_t \<Rightarrow> size_t \<Rightarrow> 's \<Rightarrow> 's" where
  "do_deallocate p bytes alignment s = s"


subsection \<open>Programs with an arena\<close>

text \<open>
  One arena at address \<open>this\<close>, the budgets and the source's state, and the pins, views and boundaries
  a program holds, named by position. A pin that is dropped is destroyed.
\<close>

record 'w ArenaSystem =
  as_arena :: "'w BoundedArena"
  as_budgets :: budgets
  as_world :: 'w
  as_pins :: "ArenaPin list"
  as_views :: "ArenaView list"
  as_boundaries :: "ArenaQuiescentBoundary list"

datatype arena_op =
    A_Allocate WorkerId size_t size_t
  | A_Pin WorkerId
  | A_Pin_Move_Construct nat
  | A_Pin_Move_Assign nat nat
  | A_Pin_Drop nat
  | A_Boundary WorkerId
  | A_Reset WorkerId nat

fun arena_exec :: "addr \<Rightarrow> arena_op \<Rightarrow> 'w ArenaSystem \<Rightarrow> (unit Result \<times> 'w ArenaSystem) option" where
  "arena_exec this (A_Allocate worker bytes alignment) s =
     do { (r, a, h, w) \<leftarrow> ba_try_allocate this worker bytes alignment (as_arena s, as_budgets s, as_world s);
          let s = s\<lparr>as_arena := a, as_budgets := h, as_world := w\<rparr>;
          case r of
            Inl e \<Rightarrow> Some (Inl e, s)
          | Inr v \<Rightarrow> Some (Inr (), s\<lparr>as_views := as_views s @ [v]\<rparr>) }"
| "arena_exec this (A_Pin worker) s =
     Some (case ba_pin this worker (as_arena s) of
             (Inl e, a) \<Rightarrow> (Inl e, s\<lparr>as_arena := a\<rparr>)
           | (Inr p, a) \<Rightarrow> (Inr (), s\<lparr>as_arena := a, as_pins := as_pins s @ [p]\<rparr>))"
| "arena_exec this (A_Pin_Move_Construct i) s =
     (case pin_move (as_pins s ! i) of
        (p, other) \<Rightarrow> Some (Inr (), s\<lparr>as_pins := (as_pins s)[i := other] @ [p]\<rparr>))"
| "arena_exec this (A_Pin_Move_Assign i j) s =
     (if i = j then Some (Inr (), s)
      else do { ((p, other), A) \<leftarrow> pin_move_assign (as_pins s ! i) (as_pins s ! j) [this \<mapsto> as_arena s];
                Some (Inr (), s\<lparr>as_arena := the (A this), as_pins := (as_pins s)[i := p, j := other]\<rparr>) })"
| "arena_exec this (A_Pin_Drop i) s =
     do { (p, A) \<leftarrow> pin_release (as_pins s ! i) [this \<mapsto> as_arena s];
          Some (Inr (), s\<lparr>as_arena := the (A this), as_pins := (as_pins s)[i := p]\<rparr>) }"
| "arena_exec this (A_Boundary worker) s =
     Some (case quiescent_boundary this worker (as_arena s) of
             Inl e \<Rightarrow> (Inl e, s)
           | Inr b \<Rightarrow> (Inr (), s\<lparr>as_boundaries := as_boundaries s @ [b]\<rparr>))"
| "arena_exec this (A_Reset worker i) s =
     do { (r, a, h, w) \<leftarrow> ba_reset this worker (as_boundaries s ! i) (as_arena s, as_budgets s, as_world s);
          Some (r, s\<lparr>as_arena := a, as_budgets := h, as_world := w\<rparr>) }"

fun arena_op_ok :: "arena_op \<Rightarrow> 'w ArenaSystem \<Rightarrow> bool" where
  "arena_op_ok (A_Pin_Move_Construct i) s \<longleftrightarrow> i < length (as_pins s)"
| "arena_op_ok (A_Pin_Move_Assign i j) s \<longleftrightarrow> i < length (as_pins s) \<and> j < length (as_pins s)"
| "arena_op_ok (A_Pin_Drop i) s \<longleftrightarrow> i < length (as_pins s)"
| "arena_op_ok (A_Reset worker i) s \<longleftrightarrow> i < length (as_boundaries s)"
| "arena_op_ok _ s \<longleftrightarrow> True"

definition arena_start :: "'w BoundedArena \<Rightarrow> budgets \<Rightarrow> 'w \<Rightarrow> 'w ArenaSystem" where
  "arena_start a h w = \<lparr>as_arena = a, as_budgets = h, as_world = w, as_pins = [], as_views = [], as_boundaries = []\<rparr>"

section \<open>Invariant\<close>

text \<open>The source lends blocks that have an address.\<close>

definition arena_source_ok :: "'w ArenaBlockSource \<Rightarrow> bool" where
  "arena_source_ok source \<longleftrightarrow>
     (\<forall>acquire n w block w'. asrc_acquire source = Some acquire \<longrightarrow> acquire n w = (Inr block, w') \<longrightarrow>
        sp_size block \<noteq> 0 \<longrightarrow> sp_data block \<noteq> nullptr)"

definition arena_inv :: "MemoryReservation list \<Rightarrow> 'w BoundedArena \<times> budgets \<times> 'w \<Rightarrow> bool" where
  "arena_inv others = (\<lambda>(a, h, w).
     ba_offset a \<le> ba_capacity a \<and> ba_capacity a \<le> ba_maximum_capacity a \<and>
     arena_source_ok (ba_source a) \<and> h (ba_budget a) \<noteq> None \<and>
     budget_inv \<lparr>sys_budgets = h, sys_reservations = ba_reservation a # others\<rparr> \<and>
     (if ba_capacity a = 0
      then ba_storage a = empty_span \<and> ba_reservation a = empty_reservation
      else ba_reservation a = \<lparr>mr_budget = Some (ba_budget a), mr_bytes = ba_capacity a\<rparr> \<and>
           owns (the (h (ba_budget a))) (ba_worker a) \<and>
           sp_data (ba_storage a) \<noteq> nullptr \<and> ba_maximum_capacity a \<le> sp_size (ba_storage a)))"

text \<open>What an operation on the arena leaves alone.\<close>

definition same_arena :: "'w BoundedArena \<Rightarrow> 'w BoundedArena \<Rightarrow> bool" where
  "same_arena a a' \<longleftrightarrow>
     ba_worker a' = ba_worker a \<and> ba_budget a' = ba_budget a \<and> ba_source a' = ba_source a \<and>
     ba_initial_capacity a' = ba_initial_capacity a \<and> ba_maximum_capacity a' = ba_maximum_capacity a \<and>
     ba_live_pins a' = ba_live_pins a"


lemma same_arena_refl [simp]: "same_arena a a"
  by (simp add: same_arena_def)

lemma arena_active: "arena_inv others (a, h, w) \<Longrightarrow> is_active (ba_reservation a) \<longleftrightarrow> ba_capacity a \<noteq> 0"
  by (auto simp: arena_inv_def is_active_def split: if_splits)

lemma arena_inv_world: "arena_inv others (a, h, w) \<Longrightarrow> arena_inv others (a, h, w')"
  by (simp add: arena_inv_def)

text \<open>The outcome of \<open>ensure_capacity\<close>: room, or nothing but the source's state has changed.\<close>

definition capacity_outcome ::
    "MemoryReservation list \<Rightarrow> size_t \<Rightarrow> 'w BoundedArena \<times> budgets \<times> 'w \<Rightarrow> unit Result \<Rightarrow>
     'w BoundedArena \<times> budgets \<times> 'w \<Rightarrow> bool" where
  "capacity_outcome others required = (\<lambda>(a, h, w) r (a', h', w').
     case r of
       Inl e \<Rightarrow> a' = a \<and> h' = h
     | Inr _ \<Rightarrow> arena_inv others (a', h', w') \<and> same_arena a a' \<and> required \<le> ba_capacity a' \<and>
               ba_offset a' = ba_offset a \<and> ba_generation a' = ba_generation a \<and>
               (ba_capacity a \<noteq> 0 \<longrightarrow> ba_storage a' = ba_storage a))"

lemma arena_target_ok:
  assumes "ba_initial_capacity a \<noteq> 0" "ba_initial_capacity a \<le> ba_maximum_capacity a"
    "ba_capacity a \<le> ba_maximum_capacity a" "required \<le> ba_maximum_capacity a"
  obtains target where "arena_target a required = Some target" "required \<le> target"
    "target \<le> ba_maximum_capacity a"
proof -
  define start where "start = (if ba_capacity a = 0 then ba_initial_capacity a else ba_capacity a)"
  have "start \<noteq> 0" "start \<le> ba_maximum_capacity a" using assms by (simp_all add: start_def)
  from grow_target_spec [OF this assms(4)] obtain target where target:
    "grow_target (ba_maximum_capacity a) required start = Some target"
    "required \<le> target" "target \<le> ba_maximum_capacity a" by blast
  then have "arena_target a required = Some target" by (auto simp: arena_target_def start_def [symmetric])
  with target that show thesis by blast
qed

lemma first_block_ok:
  assumes inv: "arena_inv others (a, h, w)" and idle: "ba_capacity a = 0"
    and source: "asrc_acquire (ba_source a) \<noteq> None"
    and target: "target \<noteq> 0" "required \<le> target" "target \<le> ba_maximum_capacity a"
    and worker: "sid_value worker = sid_value (ba_worker a)"
  shows "\<exists>r s. do { (reservation, h, acquired, w) \<leftarrow>
             reserve_for_allocation (ba_budget a) worker target (acquire_arena_block a) h (empty_span, w);
           case reservation of
             Inl e \<Rightarrow> Some (Inl e, a, h, w)
           | Inr r \<Rightarrow>
               do { ((r', _), h) \<leftarrow> move_assign (ba_reservation a) r h;
                    Some (Inr (), a\<lparr>ba_storage := acquired, ba_reservation := r',
                                    ba_capacity := target\<rparr>, h, w) } } = Some (r, s) \<and>
         capacity_outcome others required (a, h, w) r s"
proof -
  have empty: "ba_reservation a = empty_reservation" "ba_offset a = 0"
    using inv idle by (auto simp: arena_inv_def)
  obtain b where b: "h (ba_budget a) = Some b" using inv by (auto simp: arena_inv_def)
  have binv: "budget_inv \<lparr>sys_budgets = h, sys_reservations = empty_reservation # others\<rparr>"
    using inv empty by (simp add: arena_inv_def)
  show ?thesis
  proof (cases rule: reserve_into_empty [OF binv b, where worker = worker and n = target
        and acquire = "acquire_arena_block a" and w = "(empty_span, w)", case_names refused failed taken])
    case (refused e)
    then show ?thesis by (simp add: capacity_outcome_def)
  next
    case (failed e w')
    obtain v u where "w' = (v, u)" by (cases w')
    with failed(2) show ?thesis by (simp add: capacity_outcome_def)
  next
    case (taken u w' r h')
    obtain v u where w': "w' = (v, u)" by (cases w')
    obtain f where f: "asrc_acquire (ba_source a) = Some f" using source by blast
    have v: "\<exists>w0. f (ba_maximum_capacity a) w = (Inr v, w0)" "ba_maximum_capacity a \<le> sp_size v"
      using taken(1) unfolding acquire_arena_block_def w' by (auto simp: f split: sum.splits prod.splits if_splits)
    moreover have "sp_size v \<noteq> 0" using v(2) target by (metis word_le_0_iff)
    ultimately have "sp_data v \<noteq> nullptr"
      using inv f unfolding arena_inv_def arena_source_ok_def by blast
    then show ?thesis using taken(2,3,5-8) w' empty idle inv v(2) target worker
      by (auto simp: capacity_outcome_def arena_inv_def same_arena_def owns_def)
  qed
qed


lemma grow_block_ok:
  assumes inv: "arena_inv others (a, h, w)" and active: "ba_capacity a \<noteq> 0"
    and target: "ba_capacity a < target" "required \<le> target" "target \<le> ba_maximum_capacity a"
  shows "\<exists>r s. do { (expanded, r, h) \<leftarrow>
             reservation_grow (ba_reservation a) worker (target - ba_capacity a) h;
           case expanded of
             Inl e \<Rightarrow> Some (Inl e, a\<lparr>ba_reservation := r\<rparr>, h, w)
           | Inr _ \<Rightarrow> Some (Inr (), a\<lparr>ba_reservation := r, ba_capacity := target\<rparr>, h, w) } = Some (r, s) \<and>
         capacity_outcome others required (a, h, w) r s"
proof -
  let ?r = "ba_reservation a" and ?n = "target - ba_capacity a"
  have binv: "budget_inv \<lparr>sys_budgets = h, sys_reservations = ?r # others\<rparr>"
    using inv by (simp add: arena_inv_def)
  have r: "?r = \<lparr>mr_budget = Some (ba_budget a), mr_bytes = ba_capacity a\<rparr>"
    using inv active by (simp add: arena_inv_def)
  obtain b where b: "h (ba_budget a) = Some b" using inv by (auto simp: arena_inv_def)
  obtain xs where xs: "budget_chain h (Some (ba_budget a)) = Some xs" using budget_inv_chain [OF binv b] by blast
  from grow_inv [OF binv, of 0 worker ?n] obtain u r' h' where grown:
    "reservation_grow ?r worker ?n h = Some (u, r', h')" "\<forall>e. u = Inl e \<longrightarrow> r' = ?r \<and> h' = h"
    "budget_inv \<lparr>sys_budgets = h', sys_reservations = r' # others\<rparr>" by auto
  show ?thesis
  proof (cases u)
    case (Inl e)
    with grown show ?thesis by (simp add: capacity_outcome_def)
  next
    case (Inr v)
    note step = reservation_grow_Inr [OF grown(1) [unfolded Inr] _ b xs]
    have r': "r' = \<lparr>mr_budget = Some (ba_budget a), mr_bytes = target\<rparr>" using step(4) r by simp
    have "h' (ba_budget a) \<noteq> None" "owns (the (h' (ba_budget a))) (ba_worker a)"
      using step(5) r b inv active by (simp_all add: map_budgets_def arena_inv_def owns_def)
    then have "capacity_outcome others required (a, h, w) (Inr ())
        (a\<lparr>ba_reservation := r', ba_capacity := target\<rparr>, h', w)"
      using inv active target r' grown(3) by (auto simp: capacity_outcome_def arena_inv_def same_arena_def)
    with grown(1) Inr show ?thesis by simp
  qed
qed

lemma ensure_capacity_ok:
  assumes inv: "arena_inv others (a, h, w)" and "required \<le> ba_maximum_capacity a"
    and worker: "sid_value worker = sid_value (ba_worker a)"
  shows "\<exists>r s. ensure_capacity worker required (a, h, w) = Some (r, s) \<and>
           capacity_outcome others required (a, h, w) r s"
proof (cases "asrc_acquire (ba_source a) = None \<or> asrc_reset (ba_source a) = None \<or>
    ba_initial_capacity a = 0 \<or> ba_initial_capacity a > ba_maximum_capacity a")
  case True
  then show ?thesis by (simp add: ensure_capacity_def capacity_outcome_def)
next
  case valid: False
  show ?thesis
  proof (cases "required \<le> ba_capacity a")
    case True
    then show ?thesis using valid inv by (simp add: ensure_capacity_def capacity_outcome_def)
  next
    case False
    have "ba_capacity a \<le> ba_maximum_capacity a" using inv by (simp add: arena_inv_def)
    then obtain target where target: "arena_target a required = Some target" "required \<le> target"
        "target \<le> ba_maximum_capacity a"
      using arena_target_ok [OF _ _ _ assms(2)] valid by (auto simp: not_less)
    have "ba_capacity a < target" "target \<noteq> 0" using False target(2) by (auto simp: not_le)
    moreover obtain f g where "asrc_acquire (ba_source a) = Some f" "asrc_reset (ba_source a) = Some g"
      using valid by auto
    ultimately show ?thesis
      using valid False target(1) arena_active [OF inv] first_block_ok [OF inv _ _ _ target(2,3) worker]
        grow_block_ok [OF inv _ _ target(2,3), of worker]
      by (cases "ba_capacity a = 0") (simp_all add: ensure_capacity_def)
  qed
qed

text \<open>
  An allocation: the next bytes of the block at a multiple of the alignment, or an error that
  changes nothing but the source's state.
\<close>

definition allocated :: "addr \<Rightarrow> size_t \<Rightarrow> size_t \<Rightarrow> 'w BoundedArena \<Rightarrow> 'w BoundedArena \<Rightarrow> ArenaView \<Rightarrow> bool" where
  "allocated this bytes alignment a a' v \<longleftrightarrow>
     av_arena v = this \<and> av_generation v = ba_generation a \<and> ba_generation a' = ba_generation a \<and>
     (if bytes = 0 then a' = a \<and> av_bytes v = empty_span
      else sp_data (av_bytes v) = sp_data (ba_storage a') + align_up (unat alignment) (unat (ba_offset a)) \<and>
           sp_size (av_bytes v) = bytes \<and>
           unat (ba_offset a') = align_up (unat alignment) (unat (ba_offset a)) + unat bytes \<and>
           (ba_capacity a \<noteq> 0 \<longrightarrow> ba_storage a' = ba_storage a))"

lemma ba_try_allocate_ok:
  assumes inv: "arena_inv others (a, h, w)"
  shows "\<exists>r a' h' w'. ba_try_allocate this worker bytes alignment (a, h, w) = Some (r, a', h', w') \<and>
           arena_inv others (a', h', w') \<and> same_arena a a' \<and>
           (case r of Inl e \<Rightarrow> a' = a \<and> h' = h | Inr v \<Rightarrow> allocated this bytes alignment a a' v)"
proof (cases "sid_value worker = sid_value (ba_worker a) \<and> ba_is_valid_alignment alignment \<and> bytes \<noteq> 0")
  case False
  then show ?thesis using inv
    by (auto simp: ba_try_allocate_def ba_require_worker_def allocated_def)
next
  case True
  define up where "up = align_up (unat alignment) (unat (ba_offset a))"
  have "0 < unat alignment" using True by (simp add: ba_is_valid_alignment_def unat_gt_0)
  note aligned = checked_align_up [OF this, of "ba_offset a", folded up_def]
  have offset: "unat (of_nat up :: size_t) = up" if "up < 2 ^ 64"
    using that by (intro unat_of_nat_small) simp
  have second: "checked_add (of_nat up) bytes =
      (if up + unat bytes < 2 ^ 64 then Inr (of_nat up + bytes) else Inl arithmetic_overflow_error)"
    if "up < 2 ^ 64"
    using offset [OF that] by (simp add: checked_add_eq)
  have run: "ba_try_allocate this worker bytes alignment (a, h, w) =
      (if up < 2 ^ 64 \<and> up + unat bytes < 2 ^ 64 \<and> of_nat up + bytes \<le> ba_maximum_capacity a
       then do { (capacity, a, h, w) \<leftarrow> ensure_capacity worker (of_nat up + bytes) (a, h, w);
                 case capacity of
                   Inl e \<Rightarrow> Some (Inl e, a, h, w)
                 | Inr _ \<Rightarrow>
                     (case mutable_byte_view_from (subspan (ba_storage a) (of_nat up) bytes) of
                        Inl _ \<Rightarrow> None
                      | Inr allocation \<Rightarrow>
                          Some (Inr \<lparr>av_arena = this, av_bytes = allocation, av_generation = ba_generation a\<rparr>,
                                a\<lparr>ba_offset := of_nat up + bytes\<rparr>, h, w)) }
       else Some (Inl (if up < 2 ^ 64 \<and> up + unat bytes < 2 ^ 64
                       then core_error EC_exhaustion ''bounded arena maximum capacity is exhausted''
                       else arithmetic_overflow_error), a, h, w))"
    using True unfolding ba_try_allocate_def ba_require_worker_def Let_def split_conv aligned
    by (auto simp: second)
  show ?thesis
  proof (cases "up < 2 ^ 64 \<and> up + unat bytes < 2 ^ 64 \<and> of_nat up + bytes \<le> ba_maximum_capacity a")
    case False
    show ?thesis unfolding run if_not_P [OF False] using inv by simp
  next
    case fits: True
    then have req: "unat (of_nat up + bytes :: size_t) = up + unat bytes"
      using unat_add_no_wrap [of "of_nat up" bytes] offset by simp
    from ensure_capacity_ok [OF inv, of "of_nat up + bytes" worker] fits True obtain r a' h' w' where
      ensured: "ensure_capacity worker (of_nat up + bytes) (a, h, w) = Some (r, a', h', w')"
        "capacity_outcome others (of_nat up + bytes) (a, h, w) r (a', h', w')" by auto
    show ?thesis
    proof (cases r)
      case (Inl e)
      then show ?thesis using ensured fits inv arena_inv_world by (auto simp: run capacity_outcome_def)
    next
      case (Inr u)
      then have a': "arena_inv others (a', h', w')" "same_arena a a'" "of_nat up + bytes \<le> ba_capacity a'"
          "ba_generation a' = ba_generation a" "ba_capacity a \<noteq> 0 \<longrightarrow> ba_storage a' = ba_storage a"
        using ensured(2) by (simp_all add: capacity_outcome_def)
      then have "ba_capacity a' \<noteq> 0" using True req by (auto simp: word_le_nat_alt unat_eq_0)
      then have "sp_data (ba_storage a') \<noteq> nullptr" using a'(1) by (simp add: arena_inv_def)
      then have "mutable_byte_view_from (subspan (ba_storage a') (of_nat up) bytes) =
          Inr \<lparr>sp_data = sp_data (ba_storage a') + up, sp_size = bytes\<rparr>"
        using fits offset by (simp add: mutable_byte_view_from_def subspan_def)
      moreover have "arena_inv others (a'\<lparr>ba_offset := of_nat up + bytes\<rparr>, h', w')"
        using a'(1,3) by (simp add: arena_inv_def)
      moreover have "same_arena a (a'\<lparr>ba_offset := of_nat up + bytes\<rparr>)" using a'(2) by (simp add: same_arena_def)
      ultimately show ?thesis using ensured(1) fits Inr a'(4,5) True req
        by (simp add: run allocated_def up_def)
    qed
  qed
qed


lemma ba_reset_ok:
  assumes inv: "arena_inv others (a, h, w)"
  shows "\<exists>r a' h' w'. ba_reset this worker boundary (a, h, w) = Some (r, a', h', w') \<and>
           arena_inv others (a', h', w') \<and> same_arena a a' \<and>
           (case r of
              Inl e \<Rightarrow> a' = a \<and> h' = h
            | Inr _ \<Rightarrow> sid_value worker = sid_value (ba_worker a) \<and> qb_arena boundary = this \<and>
                      qb_generation boundary = ba_generation a \<and> ba_live_pins a = 0 \<and>
                      ba_generation a \<noteq> umax \<and> ba_capacity a' = 0 \<and> ba_offset a' = 0 \<and>
                      ba_generation a' = ba_generation a + 1)"
proof (cases "sid_value worker = sid_value (ba_worker a) \<and> qb_arena boundary = this \<and>
    qb_generation boundary = ba_generation a \<and> ba_live_pins a = 0 \<and> ba_generation a \<noteq> umax \<and>
    (\<exists>f u w1. asrc_reset (ba_source a) = Some f \<and> f w = (Inr u, w1))")
  case False
  then show ?thesis using inv arena_inv_world [OF inv]
    by (auto simp: ba_reset_def ba_require_worker_def split: option.splits prod.splits sum.splits)
next
  case True
  then obtain f u w1 where f: "asrc_reset (ba_source a) = Some f" "f w = (Inr u, w1)" by blast
  let ?a = "\<lambda>r. a\<lparr>ba_reservation := r, ba_storage := empty_span, ba_capacity := 0, ba_offset := 0,
    ba_generation := ba_generation a + 1\<rparr>"
  have binv: "budget_inv \<lparr>sys_budgets = h, sys_reservations = ba_reservation a # others\<rparr>"
    using inv by (simp add: arena_inv_def)
  from release_unchecked_inv [OF binv, of 0] obtain h' where h':
    "release_unchecked (ba_reservation a) h = Some (empty_reservation, h')"
    "budget_inv \<lparr>sys_budgets = h', sys_reservations = empty_reservation # others\<rparr>" by auto
  have there: "h' (ba_budget a) \<noteq> None"
    using inv release_keeps_budgets [OF binv, of 0] h'(1) by (simp add: arena_inv_def)
  have "\<exists>u. reservation_release (ba_reservation a) worker h = Some (u, empty_reservation, h')"
  proof (cases "ba_capacity a = 0")
    case empty: True
    with inv have "ba_reservation a = empty_reservation" by (simp add: arena_inv_def)
    with h'(1) show ?thesis by (simp add: reservation_release_def release_unchecked_def)
  next
    case False
    with inv obtain b where "ba_reservation a = \<lparr>mr_budget = Some (ba_budget a), mr_bytes = ba_capacity a\<rparr>"
        "h (ba_budget a) = Some b" "owns b (ba_worker a)" by (auto simp: arena_inv_def)
    with h'(1) True show ?thesis by (auto simp: reservation_release_def require_worker_def owns_def)
  qed
  then have "ba_reset this worker boundary (a, h, w) = Some (Inr (), ?a empty_reservation, h', w1)"
    using True f by (auto simp: ba_reset_def ba_require_worker_def)
  moreover have "arena_inv others (?a empty_reservation, h', w1)"
    using inv h'(2) there by (simp add: arena_inv_def)
  moreover have "same_arena a (?a empty_reservation)" by (simp add: same_arena_def)
  ultimately show ?thesis using True by (intro exI conjI) auto
qed

section \<open>Pins\<close>

definition pin_count :: "addr \<Rightarrow> ArenaPin list \<Rightarrow> nat" where
  "pin_count this pins = sum_list (map (\<lambda>p. if pin_arena p = this then 1 else 0) pins)"

definition pins_ok :: "addr \<Rightarrow> 'w BoundedArena \<Rightarrow> ArenaPin list \<Rightarrow> bool" where
  "pins_ok this a pins \<longleftrightarrow>
     unat (ba_live_pins a) = pin_count this pins \<and> (\<forall>p \<in> set pins. pin_arena p \<in> {nullptr, this})"

lemma pin_count_update:
  "i < length pins \<Longrightarrow> pin_count this (pins[i := p]) + (if pin_arena (pins ! i) = this then 1 else 0) =
     pin_count this pins + (if pin_arena p = this then 1 else 0)"
  unfolding pin_count_def by (rule sum_list_map_update)

lemma pins_ok_update:
  assumes "pins_ok this a pins" "i < length pins" "this \<noteq> nullptr"
  shows "\<exists>a'. pin_release (pins ! i) [this \<mapsto> a] = Some (\<lparr>pin_arena = nullptr\<rparr>, [this \<mapsto> a']) \<and>
    (\<exists>n. a' = a\<lparr>ba_live_pins := n\<rparr>) \<and> pins_ok this a' (pins[i := \<lparr>pin_arena = nullptr\<rparr>])"
proof (cases "pin_arena (pins ! i) = this")
  case True
  have count: "pin_count this pins = pin_count this (pins[i := \<lparr>pin_arena = nullptr\<rparr>]) + 1"
    using pin_count_update [OF assms(2), of this "\<lparr>pin_arena = nullptr\<rparr>"] True assms(3) by simp
  then have "ba_live_pins a \<noteq> 0" using assms(1) by (auto simp: pins_ok_def)
  moreover have "\<forall>p \<in> set (pins[i := \<lparr>pin_arena = nullptr\<rparr>]). pin_arena p \<in> {nullptr, this}"
    using assms(1) by (auto simp: pins_ok_def dest!: in_set_updateD)
  ultimately have "pins_ok this (a\<lparr>ba_live_pins := ba_live_pins a - 1\<rparr>) (pins[i := \<lparr>pin_arena = nullptr\<rparr>])"
    using assms(1) count by (simp add: pins_ok_def unat_decr)
  then show ?thesis using True assms(3) \<open>ba_live_pins a \<noteq> 0\<close>
    by (cases "pins ! i") (auto simp: pin_release_def release_pin_def)
next
  case False
  then have null: "pin_arena (pins ! i) = nullptr" using assms(1,2) by (auto simp: pins_ok_def)
  then have "pins ! i = \<lparr>pin_arena = nullptr\<rparr>" by (cases "pins ! i") simp
  then have "pins[i := \<lparr>pin_arena = nullptr\<rparr>] = pins" using list_update_id [of pins i] by simp
  with assms(1) null show ?thesis
    by (intro exI [of _ a]) (cases "pins ! i", auto simp: pin_release_def intro: exI [of _ "ba_live_pins a"])
qed

lemma pins_ok_moved:
  assumes "pins_ok this a pins" "i < length pins" "j < length pins" "i \<noteq> j" "this \<noteq> nullptr"
    and "pin_arena (pins ! i) = nullptr"
  shows "pins_ok this a (pins[i := pins ! j, j := \<lparr>pin_arena = nullptr\<rparr>])"
proof -
  have "pin_count this (pins[i := pins ! j, j := \<lparr>pin_arena = nullptr\<rparr>]) = pin_count this pins"
    using pin_count_update [of j "pins[i := pins ! j]" this "\<lparr>pin_arena = nullptr\<rparr>"]
      pin_count_update [OF assms(2), of this "pins ! j"] assms(2-6) by simp
  moreover have "\<forall>p \<in> set (pins[i := pins ! j, j := \<lparr>pin_arena = nullptr\<rparr>]). pin_arena p \<in> {nullptr, this}"
    using assms(1,3) nth_mem [OF assms(3)] unfolding pins_ok_def by (auto dest!: in_set_updateD)
  ultimately show ?thesis using assms(1) by (simp add: pins_ok_def)
qed

lemma pin_move_eq: "pin_move p = (p, \<lparr>pin_arena = nullptr\<rparr>)"
  by (cases p) (simp add: pin_move_def)


section \<open>Views\<close>

text \<open>The views of the current generation lie one behind the other in the used part of the block.\<close>

definition view_start :: "ArenaView \<Rightarrow> nat" where
  "view_start v = sp_data (av_bytes v)"

definition view_end :: "ArenaView \<Rightarrow> nat" where
  "view_end v = sp_data (av_bytes v) + unat (sp_size (av_bytes v))"

definition live_views :: "u64 \<Rightarrow> ArenaView list \<Rightarrow> ArenaView list" where
  "live_views generation vs = filter (\<lambda>v. av_generation v = generation \<and> sp_size (av_bytes v) \<noteq> 0) vs"

definition views_ok :: "addr \<Rightarrow> 'w BoundedArena \<Rightarrow> ArenaView list \<Rightarrow> bool" where
  "views_ok this a vs \<longleftrightarrow>
     (\<forall>v \<in> set vs. av_arena v = this \<and> av_generation v \<le> ba_generation a) \<and>
     sorted_wrt (\<lambda>u v. view_end u \<le> view_start v) (live_views (ba_generation a) vs) \<and>
     (\<forall>v \<in> set (live_views (ba_generation a) vs).
        sp_data (ba_storage a) \<le> view_start v \<and>
        view_end v \<le> sp_data (ba_storage a) + unat (ba_offset a))"

lemma views_ok_same:
  "views_ok this a vs \<Longrightarrow> ba_generation a' = ba_generation a \<Longrightarrow> ba_storage a' = ba_storage a \<Longrightarrow>
   ba_offset a' = ba_offset a \<Longrightarrow> views_ok this a' vs"
  by (simp add: views_ok_def)

lemma no_live_views:
  assumes "views_ok this a vs" "ba_offset a = 0"
  shows "live_views (ba_generation a) vs = []"
proof (rule ccontr)
  assume "live_views (ba_generation a) vs \<noteq> []"
  then obtain v where v: "v \<in> set (live_views (ba_generation a) vs)" by (meson last_in_set)
  then have "0 < unat (sp_size (av_bytes v))" by (simp add: live_views_def unat_gt_0)
  moreover have "sp_data (ba_storage a) \<le> view_start v" "view_end v \<le> sp_data (ba_storage a)"
    using assms v by (auto simp: views_ok_def)
  ultimately show False by (simp add: view_start_def view_end_def)
qed

lemma views_ok_allocated:
  assumes "views_ok this a vs" "allocated this bytes alignment a a' v" "arena_inv others (a, h, w)"
    and "0 < unat alignment"
  shows "views_ok this a' (vs @ [v])"
proof (cases "bytes = 0")
  case True
  then show ?thesis using assms(1,2) by (auto simp: allocated_def views_ok_def live_views_def empty_span_def)
next
  case False
  define up where "up = align_up (unat alignment) (unat (ba_offset a))"
  have v: "av_arena v = this" "av_generation v = ba_generation a" "ba_generation a' = ba_generation a"
      "view_start v = sp_data (ba_storage a') + up"
      "view_end v = sp_data (ba_storage a') + unat (ba_offset a')" "sp_size (av_bytes v) \<noteq> 0"
      "unat (ba_offset a') = up + unat bytes"
    using assms(2) False by (simp_all add: allocated_def view_start_def view_end_def up_def)
  have up: "unat (ba_offset a) \<le> up" using align_up_ge [OF assms(4)] by (simp add: up_def)
  have old: "view_end u \<le> sp_data (ba_storage a') + unat (ba_offset a) \<and> sp_data (ba_storage a') \<le> view_start u"
    if "u \<in> set (live_views (ba_generation a) vs)" for u
  proof (cases "ba_capacity a = 0")
    case True
    then have "ba_offset a = 0" using assms(3) by (simp add: arena_inv_def)
    with no_live_views [OF assms(1)] that show ?thesis by simp
  next
    case active: False
    with assms(2) False have "ba_storage a' = ba_storage a" by (simp add: allocated_def)
    with assms(1) that show ?thesis by (auto simp: views_ok_def)
  qed
  have live: "live_views (ba_generation a') (vs @ [v]) = live_views (ba_generation a) vs @ [v]"
    using v by (simp add: live_views_def)
  have "\<forall>u \<in> set (vs @ [v]). av_arena u = this \<and> av_generation u \<le> ba_generation a'"
    using assms(1) v(1-3) by (auto simp: views_ok_def)
  moreover have "sorted_wrt (\<lambda>u v. view_end u \<le> view_start v) (live_views (ba_generation a) vs @ [v])"
    using assms(1) old up v(4) by (fastforce simp: views_ok_def sorted_wrt_append)
  moreover have "\<forall>u \<in> set (live_views (ba_generation a) vs @ [v]).
      sp_data (ba_storage a') \<le> view_start u \<and> view_end u \<le> sp_data (ba_storage a') + unat (ba_offset a')"
    using old up v(4,5,7) by fastforce
  ultimately show ?thesis unfolding views_ok_def live by blast
qed

lemma views_ok_reset:
  assumes "views_ok this a vs" "ba_generation a \<noteq> umax" "ba_generation a' = ba_generation a + 1"
  shows "views_ok this a' vs"
proof -
  have next_gen: "unat (ba_generation a') = unat (ba_generation a) + 1"
    using assms(2,3) by (simp add: unat_incr)
  then have less: "av_generation v < ba_generation a'" if "v \<in> set vs" for v
    using assms(1) that by (auto simp: views_ok_def word_less_nat_alt word_le_nat_alt)
  then have "live_views (ba_generation a') vs = []"
    by (fastforce simp: live_views_def filter_empty_conv)
  with less assms(1) show ?thesis by (auto simp: views_ok_def less_imp_le)
qed

section \<open>Programs keep the invariant\<close>

definition arena_sys_inv :: "addr \<Rightarrow> MemoryReservation list \<Rightarrow> 'w ArenaSystem \<Rightarrow> bool" where
  "arena_sys_inv this others s \<longleftrightarrow>
     arena_inv others (as_arena s, as_budgets s, as_world s) \<and> pins_ok this (as_arena s) (as_pins s) \<and>
     views_ok this (as_arena s) (as_views s)"

lemma arena_inv_pins: "arena_inv others (a\<lparr>ba_live_pins := n\<rparr>, h, w) = arena_inv others (a, h, w)"
  by (simp add: arena_inv_def)

lemma arena_sys_inv_pins:
  "arena_sys_inv this others s \<Longrightarrow> pins_ok this (as_arena s\<lparr>ba_live_pins := n\<rparr>) pins \<Longrightarrow>
   arena_sys_inv this others (s\<lparr>as_arena := as_arena s\<lparr>ba_live_pins := n\<rparr>, as_pins := pins\<rparr>)"
  by (simp add: arena_sys_inv_def arena_inv_pins views_ok_def)

lemma pins_ok_same: "pins_ok this a pins \<Longrightarrow> same_arena a a' \<Longrightarrow> pins_ok this a' pins"
  by (simp add: pins_ok_def same_arena_def)

lemma arena_allocate_inv:
  assumes "arena_sys_inv this others s"
  shows "\<exists>r s'. arena_exec this (A_Allocate worker bytes alignment) s = Some (r, s') \<and> arena_sys_inv this others s'"
proof -
  have parts: "arena_inv others (as_arena s, as_budgets s, as_world s)" "pins_ok this (as_arena s) (as_pins s)"
      "views_ok this (as_arena s) (as_views s)"
    using assms by (simp_all add: arena_sys_inv_def)
  from ba_try_allocate_ok [OF parts(1), of this worker bytes alignment] obtain r a' h' w' where step:
    "ba_try_allocate this worker bytes alignment (as_arena s, as_budgets s, as_world s) = Some (r, a', h', w')"
    "arena_inv others (a', h', w')" "same_arena (as_arena s) a'"
    "case r of Inl e \<Rightarrow> a' = as_arena s \<and> h' = as_budgets s
       | Inr v \<Rightarrow> allocated this bytes alignment (as_arena s) a' v" by blast
  show ?thesis
  proof (cases r)
    case (Inl e)
    with step parts show ?thesis by (simp add: arena_sys_inv_def)
  next
    case (Inr v)
    then have "0 < unat alignment"
      using step(1) by (auto simp: ba_try_allocate_def ba_is_valid_alignment_def unat_gt_0
          split: sum.splits if_splits)
    then have "views_ok this a' (as_views s @ [v])"
      using views_ok_allocated [OF parts(3) _ parts(1)] step(4) Inr by simp
    with step Inr pins_ok_same [OF parts(2) step(3)] show ?thesis by (simp add: arena_sys_inv_def)
  qed
qed

lemma arena_reset_inv:
  assumes "arena_sys_inv this others s"
  shows "\<exists>r s'. arena_exec this (A_Reset worker i) s = Some (r, s') \<and> arena_sys_inv this others s'"
proof -
  have parts: "arena_inv others (as_arena s, as_budgets s, as_world s)" "pins_ok this (as_arena s) (as_pins s)"
      "views_ok this (as_arena s) (as_views s)"
    using assms by (simp_all add: arena_sys_inv_def)
  from ba_reset_ok [OF parts(1), of this worker "as_boundaries s ! i"] obtain r a' h' w' where step:
    "ba_reset this worker (as_boundaries s ! i) (as_arena s, as_budgets s, as_world s) = Some (r, a', h', w')"
    "arena_inv others (a', h', w')" "same_arena (as_arena s) a'"
    and out: "case r of Inl e \<Rightarrow> a' = as_arena s \<and> h' = as_budgets s
      | Inr _ \<Rightarrow> sid_value worker = sid_value (ba_worker (as_arena s)) \<and>
          qb_arena (as_boundaries s ! i) = this \<and>
          qb_generation (as_boundaries s ! i) = ba_generation (as_arena s) \<and> ba_live_pins (as_arena s) = 0 \<and>
          ba_generation (as_arena s) \<noteq> umax \<and> ba_capacity a' = 0 \<and> ba_offset a' = 0 \<and>
          ba_generation a' = ba_generation (as_arena s) + 1"
    by blast
  have "views_ok this a' (as_views s)"
    using out parts(3) views_ok_reset [OF parts(3), of a'] by (cases r) simp_all
  with step pins_ok_same [OF parts(2) step(3)] show ?thesis by (simp add: arena_sys_inv_def)
qed


lemma arena_pin_inv:
  assumes inv: "arena_sys_inv this others s"
  shows "\<exists>r s'. arena_exec this (A_Pin worker) s = Some (r, s') \<and> arena_sys_inv this others s'"
proof -
  have pins: "pins_ok this (as_arena s) (as_pins s)" using inv by (simp add: arena_sys_inv_def)
  obtain r a where pin: "ba_pin this worker (as_arena s) = (r, a)" by fastforce
  show ?thesis
  proof (cases r)
    case (Inl e)
    with pin have "a = as_arena s" by (auto simp: ba_pin_def split: sum.splits if_splits)
    with pin Inl inv show ?thesis by (simp add: arena_sys_inv_def)
  next
    case (Inr p)
    with pin have p: "p = \<lparr>pin_arena = this\<rparr>" "ba_live_pins (as_arena s) \<noteq> umax"
        "a = (as_arena s)\<lparr>ba_live_pins := ba_live_pins (as_arena s) + 1\<rparr>"
      by (auto simp: ba_pin_def split: sum.splits if_splits)
    have "pins_ok this a (as_pins s @ [p])"
      using pins p by (auto simp: pins_ok_def pin_count_def unat_incr)
    with arena_sys_inv_pins [OF inv] p pin Inr show ?thesis by simp
  qed
qed

lemma arena_pin_construct_inv:
  assumes inv: "arena_sys_inv this others s" and i: "i < length (as_pins s)" and at: "this \<noteq> nullptr"
  shows "\<exists>r s'. arena_exec this (A_Pin_Move_Construct i) s = Some (r, s') \<and> arena_sys_inv this others s'"
proof -
  let ?pins = "as_pins s @ [\<lparr>pin_arena = nullptr\<rparr>]"
  have "pins_ok this (as_arena s) ?pins" using inv at by (simp add: arena_sys_inv_def pins_ok_def pin_count_def)
  from pins_ok_moved [OF this, of "length (as_pins s)" i] i at
  have "pins_ok this (as_arena s) ((as_pins s)[i := \<lparr>pin_arena = nullptr\<rparr>] @ [as_pins s ! i])"
    by (simp add: nth_append list_update_append)
  with inv show ?thesis by (simp add: pin_move_eq arena_sys_inv_def)
qed

lemma arena_pin_assign_inv:
  assumes inv: "arena_sys_inv this others s" and ij: "i < length (as_pins s)" "j < length (as_pins s)"
    and at: "this \<noteq> nullptr"
  shows "\<exists>r s'. arena_exec this (A_Pin_Move_Assign i j) s = Some (r, s') \<and> arena_sys_inv this others s'"
proof (cases "i = j")
  case True
  with inv show ?thesis by simp
next
  case False
  have pins: "pins_ok this (as_arena s) (as_pins s)" using inv by (simp add: arena_sys_inv_def)
  from pins_ok_update [OF pins ij(1) at] obtain a' n where a':
    "pin_release (as_pins s ! i) [this \<mapsto> as_arena s] = Some (\<lparr>pin_arena = nullptr\<rparr>, [this \<mapsto> a'])"
    "a' = (as_arena s)\<lparr>ba_live_pins := n\<rparr>" "pins_ok this a' ((as_pins s)[i := \<lparr>pin_arena = nullptr\<rparr>])" by blast
  have "pins_ok this a' ((as_pins s)[i := as_pins s ! j, j := \<lparr>pin_arena = nullptr\<rparr>])"
    using pins_ok_moved [OF a'(3), of i j] ij False at by simp
  with arena_sys_inv_pins [OF inv] a' False show ?thesis by (simp add: pin_move_assign_def pin_move_eq)
qed

lemma arena_pin_drop_inv:
  assumes inv: "arena_sys_inv this others s" and i: "i < length (as_pins s)" and at: "this \<noteq> nullptr"
  shows "\<exists>r s'. arena_exec this (A_Pin_Drop i) s = Some (r, s') \<and> arena_sys_inv this others s'"
proof -
  have pins: "pins_ok this (as_arena s) (as_pins s)" using inv by (simp add: arena_sys_inv_def)
  from pins_ok_update [OF this i at] arena_sys_inv_pins [OF inv] show ?thesis by auto
qed

lemma arena_exec_inv:
  assumes "arena_sys_inv this others s" and "arena_op_ok op s" and "this \<noteq> nullptr"
  shows "\<exists>r s'. arena_exec this op s = Some (r, s') \<and> arena_sys_inv this others s'"
  using assms arena_allocate_inv [OF assms(1)] arena_pin_inv [OF assms(1)] arena_reset_inv [OF assms(1)]
    arena_pin_construct_inv [OF assms(1) _ assms(3)] arena_pin_assign_inv [OF assms(1) _ _ assms(3)]
    arena_pin_drop_inv [OF assms(1) _ assms(3)]
  by (cases op) (auto simp: arena_sys_inv_def split: sum.splits simp del: arena_exec.simps(1-5,7))

lemma arena_start_inv:
  assumes "h budget \<noteq> None" "budget_inv \<lparr>sys_budgets = h, sys_reservations = others\<rparr>" "arena_source_ok source"
  shows "arena_sys_inv this others
    (arena_start (bounded_arena worker budget source initial_capacity maximum_capacity) h w)"
proof -
  have "budget_inv \<lparr>sys_budgets = h, sys_reservations = empty_reservation # others\<rparr>"
    using assms(2) by (rule budget_inv_reservations) (auto simp: account_def)
  with assms show ?thesis
    by (simp add: arena_sys_inv_def arena_start_def bounded_arena_def arena_inv_def pins_ok_def pin_count_def
        views_ok_def live_views_def)
qed

interpretation arena_sys: guarded_steps "arena_exec this" arena_op_ok
    "\<lambda>s. this \<noteq> nullptr \<and> arena_sys_inv this others s" for this others
  by unfold_locales (use arena_exec_inv in blast)

lemma arena_run:
  assumes "this \<noteq> nullptr" "h budget \<noteq> None" "budget_inv \<lparr>sys_budgets = h, sys_reservations = others\<rparr>"
    "arena_source_ok source"
    and "run_ok (arena_exec this) arena_op_ok ops
           (arena_start (bounded_arena worker budget source initial_capacity maximum_capacity) h w)"
  shows "\<exists>rs s. run (arena_exec this) ops
             (arena_start (bounded_arena worker budget source initial_capacity maximum_capacity) h w) = Some (rs, s) \<and>
           arena_sys_inv this others s"
  using arena_sys.run_inv [OF conjI [OF assms(1) arena_start_inv [OF assms(2-4)]] assms(5)] by blast

text \<open>Two views that can be read are at different positions of the current views.\<close>

lemma readable_view:
  assumes "views_ok this a vs" "v \<in> set vs" "this \<noteq> nullptr"
  shows "view_bytes [this \<mapsto> a] v =
    Some (if av_generation v = ba_generation a then Inr (av_bytes v)
          else Inl (core_error EC_invalid_state ''bounded arena view was invalidated by reset''))"
  using assms by (auto simp: view_bytes_def view_for_def views_ok_def)

lemma views_apart:
  assumes "views_ok this a vs" "i < j" "j < length vs"
    and "av_generation (vs ! i) = ba_generation a" "av_generation (vs ! j) = ba_generation a"
  shows "region (av_bytes (vs ! i)) \<inter> region (av_bytes (vs ! j)) = {}"
proof (cases "sp_size (av_bytes (vs ! i)) = 0 \<or> sp_size (av_bytes (vs ! j)) = 0")
  case True
  then show ?thesis by (auto simp: region_def)
next
  case False
  have "vs = take j vs @ vs ! j # drop (Suc j) vs" using assms(3) by (rule id_take_nth_drop)
  then have "live_views (ba_generation a) vs =
      live_views (ba_generation a) (take j vs) @ vs ! j # live_views (ba_generation a) (drop (Suc j) vs)"
    using False assms(5) by (metis (mono_tags, lifting) filter.simps(2) filter_append live_views_def)
  moreover have "vs ! i \<in> set (live_views (ba_generation a) (take j vs))"
    using False assms(2-4) by (auto simp: live_views_def in_set_conv_nth intro!: exI [of _ i])
  ultimately have "view_end (vs ! i) \<le> view_start (vs ! j)"
    using assms(1) by (auto simp: views_ok_def sorted_wrt_append)
  then show ?thesis by (auto simp: region_def view_start_def view_end_def)
qed

lemma view_in_block:
  assumes "views_ok this a vs" "v \<in> set vs" "av_generation v = ba_generation a"
  shows "region (av_bytes v) \<subseteq> {sp_data (ba_storage a) ..< sp_data (ba_storage a) + unat (ba_offset a)}"
proof (cases "sp_size (av_bytes v) = 0")
  case True
  then show ?thesis by (simp add: region_def)
next
  case False
  with assms(2,3) have "v \<in> set (live_views (ba_generation a) vs)" by (simp add: live_views_def)
  with assms(1) have "sp_data (ba_storage a) \<le> view_start v"
    "view_end v \<le> sp_data (ba_storage a) + unat (ba_offset a)" by (auto simp: views_ok_def)
  then show ?thesis by (auto simp: region_def view_start_def view_end_def)
qed

section \<open>Properties\<close>

text \<open>
  C16: Allocations of an arena never overlap while they can be read. After any sequence of
  allocations, pins, boundaries and resets, for every block source that lends blocks with an
  address, any two views whose bytes are handed out are disjoint and lie in the used part of the
  block; a view from before a reset is refused.
\<close>

theorem arena_views_separate:
  assumes "this \<noteq> nullptr" "h budget \<noteq> None" "budget_inv \<lparr>sys_budgets = h, sys_reservations = others\<rparr>"
    "arena_source_ok source"
    and "run_ok (arena_exec this) arena_op_ok ops
           (arena_start (bounded_arena worker budget source initial_capacity maximum_capacity) h w)"
  shows "\<exists>rs s. run (arena_exec this) ops
             (arena_start (bounded_arena worker budget source initial_capacity maximum_capacity) h w) = Some (rs, s) \<and>
           (\<forall>v \<in> set (as_views s).
              if av_generation v = ba_generation (as_arena s)
              then view_bytes [this \<mapsto> as_arena s] v = Some (Inr (av_bytes v)) \<and>
                   region (av_bytes v) \<subseteq> {sp_data (ba_storage (as_arena s)) ..<
                     sp_data (ba_storage (as_arena s)) + unat (ba_offset (as_arena s))}
              else \<exists>e. view_bytes [this \<mapsto> as_arena s] v = Some (Inl e)) \<and>
           (\<forall>i j b c. i < j \<longrightarrow> j < length (as_views s) \<longrightarrow>
              view_bytes [this \<mapsto> as_arena s] (as_views s ! i) = Some (Inr b) \<longrightarrow>
              view_bytes [this \<mapsto> as_arena s] (as_views s ! j) = Some (Inr c) \<longrightarrow> region b \<inter> region c = {})"
proof -
  from arena_run [OF assms] obtain rs s where run: "run (arena_exec this) ops
      (arena_start (bounded_arena worker budget source initial_capacity maximum_capacity) h w) = Some (rs, s)"
    and views: "views_ok this (as_arena s) (as_views s)" by (auto simp: arena_sys_inv_def)
  have "region b \<inter> region c = {}" if "i < j" "j < length (as_views s)"
    "view_bytes [this \<mapsto> as_arena s] (as_views s ! i) = Some (Inr b)"
    "view_bytes [this \<mapsto> as_arena s] (as_views s ! j) = Some (Inr c)" for i j b c
    using views_apart [OF views that(1,2)] readable_view [OF views _ assms(1)] that
    by (auto split: if_splits)
  with run show ?thesis using readable_view [OF views _ assms(1)] view_in_block [OF views]
    by (intro exI [of _ rs] exI [of _ s]) auto
qed

text \<open>A source that lends one block of a hundred bytes, twice.\<close>

definition sample_arena_source :: "nat ArenaBlockSource" where
  "sample_arena_source =
     \<lparr>asrc_acquire = Some (\<lambda>n c. (if c < 2 then Inr \<lparr>sp_data = 4096, sp_size = 100\<rparr>
                                 else Inl (core_error EC_exhaustion ''no block''), Suc c)),
      asrc_reset = Some (\<lambda>c. (Inr (), c))\<rparr>"

lemma sample_arena_source_ok: "arena_source_ok sample_arena_source"
  by (auto simp: arena_source_ok_def sample_arena_source_def split: if_splits)

definition sample_arena_ops :: "arena_op list" where
  "sample_arena_ops =
     [A_Allocate \<lparr>sid_value = 7\<rparr> 3 1, A_Allocate \<lparr>sid_value = 7\<rparr> 8 8, A_Boundary \<lparr>sid_value = 7\<rparr>,
      A_Pin \<lparr>sid_value = 7\<rparr>]"

abbreviation sample_arena :: "nat ArenaSystem" where
  "sample_arena \<equiv> arena_start (bounded_arena \<lparr>sid_value = 7\<rparr> 64 sample_arena_source 4 100) sample_budgets 0"

lemma sample_arena_ops_ok: "run_ok (arena_exec 32) arena_op_ok sample_arena_ops sample_arena"
  by (simp add: sample_arena_ops_def split: option.splits prod.splits)

theorem arena_views_separate_witness:
  "\<exists>rs s. run (arena_exec 32) sample_arena_ops sample_arena = Some (rs, s) \<and>
     (\<forall>i j b c. i < j \<longrightarrow> j < length (as_views s) \<longrightarrow>
        view_bytes [32 \<mapsto> as_arena s] (as_views s ! i) = Some (Inr b) \<longrightarrow>
        view_bytes [32 \<mapsto> as_arena s] (as_views s ! j) = Some (Inr c) \<longrightarrow> region b \<inter> region c = {})"
  using arena_views_separate [OF _ sample_budgets_ok sample_arena_source_ok sample_arena_ops_ok] by auto


text \<open>
  C19: An arena pays for exactly what it may hand out, and counts its pins. After any sequence of
  operations the used bytes are at most the capacity, the capacity is at most the maximum, the
  reservation is the capacity, every budget is charged the live reservations beneath it within its
  limit, and the counter of pins is the number of pins the program holds.
\<close>

theorem arena_charges_capacity:
  assumes "this \<noteq> nullptr" "h budget \<noteq> None" "budget_inv \<lparr>sys_budgets = h, sys_reservations = others\<rparr>"
    "arena_source_ok source"
    and "run_ok (arena_exec this) arena_op_ok ops
           (arena_start (bounded_arena worker budget source initial_capacity maximum_capacity) h w)"
  shows "\<exists>rs s. run (arena_exec this) ops
             (arena_start (bounded_arena worker budget source initial_capacity maximum_capacity) h w) = Some (rs, s) \<and>
           ba_offset (as_arena s) \<le> ba_capacity (as_arena s) \<and>
           ba_capacity (as_arena s) \<le> ba_maximum_capacity (as_arena s) \<and>
           mr_bytes (ba_reservation (as_arena s)) = ba_capacity (as_arena s) \<and>
           (\<forall>x bud. as_budgets s x = Some bud \<longrightarrow>
              unat (mb_charged bud) = reserved_bytes (as_budgets s) (ba_reservation (as_arena s) # others) x \<and>
              mb_charged bud \<le> mb_limit bud) \<and>
           unat (ba_live_pins (as_arena s)) = pin_count this (as_pins s)"
proof -
  from arena_run [OF assms] obtain rs s where run: "run (arena_exec this) ops
      (arena_start (bounded_arena worker budget source initial_capacity maximum_capacity) h w) = Some (rs, s)"
    and inv: "arena_inv others (as_arena s, as_budgets s, as_world s)" "pins_ok this (as_arena s) (as_pins s)"
    by (auto simp: arena_sys_inv_def)
  then have "budget_inv \<lparr>sys_budgets = as_budgets s, sys_reservations = ba_reservation (as_arena s) # others\<rparr>"
    by (simp add: arena_inv_def)
  from budget_inv_ok [OF this] run inv show ?thesis
    unfolding arena_inv_def pins_ok_def budget_ok_def
    by (intro exI [of _ rs] exI [of _ s]) (auto split: if_splits)
qed

theorem arena_charges_capacity_witness:
  "\<exists>rs s. run (arena_exec 32) sample_arena_ops sample_arena = Some (rs, s) \<and>
     mr_bytes (ba_reservation (as_arena s)) = ba_capacity (as_arena s) \<and>
     unat (ba_live_pins (as_arena s)) = pin_count 32 (as_pins s)"
  using arena_charges_capacity [OF _ sample_budgets_ok sample_arena_source_ok sample_arena_ops_ok] by auto

text \<open>
  C18: What an allocation does. In every state of an arena that keeps its invariant, allocating
  returns: a nonempty view starts in the block at the used bytes rounded up to the alignment, so
  its address is a multiple of the alignment wherever the block's address is, and the used bytes
  end where it ends; on an error, the arena and the budgets are unchanged.
\<close>

theorem arena_allocates_aligned:
  assumes "arena_inv others (a, h, w)"
  shows "\<exists>r a' h' w'. ba_try_allocate this worker bytes alignment (a, h, w) = Some (r, a', h', w') \<and>
           (case r of
              Inl e \<Rightarrow> a' = a \<and> h' = h
            | Inr v \<Rightarrow> sp_size (av_bytes v) = bytes \<and>
                (bytes \<noteq> 0 \<longrightarrow>
                   view_start v = sp_data (ba_storage a') + align_up (unat alignment) (unat (ba_offset a)) \<and>
                   view_end v = sp_data (ba_storage a') + unat (ba_offset a') \<and>
                   view_end v \<le> sp_data (ba_storage a') + unat (sp_size (ba_storage a')) \<and>
                   (unat alignment dvd sp_data (ba_storage a') \<longrightarrow> unat alignment dvd view_start v)))"
proof -
  from ba_try_allocate_ok [OF assms] obtain r a' h' w' where step:
    "ba_try_allocate this worker bytes alignment (a, h, w) = Some (r, a', h', w')" "arena_inv others (a', h', w')"
    "case r of Inl e \<Rightarrow> a' = a \<and> h' = h | Inr v \<Rightarrow> allocated this bytes alignment a a' v" by blast
  show ?thesis
  proof (cases r)
    case (Inl e)
    with step show ?thesis by auto
  next
    case (Inr v)
    have "view_start v = sp_data (ba_storage a') + align_up (unat alignment) (unat (ba_offset a))"
        "view_end v = sp_data (ba_storage a') + unat (ba_offset a')"
        "unat (ba_offset a') \<le> unat (sp_size (ba_storage a'))" if "bytes \<noteq> 0"
    proof -
      have v: "unat (ba_offset a') = align_up (unat alignment) (unat (ba_offset a)) + unat bytes"
          "sp_data (av_bytes v) = sp_data (ba_storage a') + align_up (unat alignment) (unat (ba_offset a))"
          "sp_size (av_bytes v) = bytes"
        using step(3) Inr that by (simp_all add: allocated_def)
      have "ba_capacity a' \<noteq> 0"
        using step(2) v(1) that by (auto simp: arena_inv_def unat_eq_0)
      then have "ba_offset a' \<le> sp_size (ba_storage a')" using step(2) by (auto simp: arena_inv_def)
      with v show "view_start v = sp_data (ba_storage a') + align_up (unat alignment) (unat (ba_offset a))"
        "view_end v = sp_data (ba_storage a') + unat (ba_offset a')"
        "unat (ba_offset a') \<le> unat (sp_size (ba_storage a'))"
        by (simp_all add: view_start_def view_end_def word_le_nat_alt)
    qed
    moreover have "unat alignment dvd align_up (unat alignment) n" for n by (simp add: align_up_def)
    moreover have "sp_size (av_bytes v) = bytes"
      using step(3) Inr by (auto simp: allocated_def empty_span_def split: if_splits)
    ultimately show ?thesis using step(1) Inr by (intro exI [of _ r] exI conjI) (auto simp: dvd_add)
  qed
qed

theorem arena_allocates_aligned_witness:
  "\<exists>r a' h' w'. ba_try_allocate 32 \<lparr>sid_value = 7\<rparr> 8 8 (as_arena sample_arena, sample_budgets, 0)
       = Some (r, a', h', w') \<and>
     (case r of Inl e \<Rightarrow> a' = as_arena sample_arena \<and> h' = sample_budgets | Inr v \<Rightarrow> sp_size (av_bytes v) = 8)"
proof -
  have "arena_inv [] (as_arena sample_arena, sample_budgets, 0 :: nat)"
    using arena_start_inv [OF sample_budgets_ok sample_arena_source_ok]
    by (simp add: arena_sys_inv_def arena_start_def)
  from arena_allocates_aligned [OF this, of 32 "\<lparr>sid_value = 7\<rparr>" 8 8] show ?thesis
  proof (elim exE conjE, goal_cases)
    case (1 r a' h' w')
    then show ?case by (intro exI [of _ r] exI [of _ a'] exI [of _ h'] exI [of _ w']) (cases r; simp)
  qed
qed

text \<open>
  C17: A reset happens exactly at the current boundary of an arena with no pins. It succeeds just
  when its worker owns the arena, the boundary is of this arena and generation, no pin is live, the
  generation can be counted and the source resets. Then the charge is returned, the arena is empty
  and every view handed out before is refused; otherwise the arena and the budgets are unchanged.
\<close>

theorem arena_reset_exact:
  assumes "arena_inv others (a, h, w)" "views_ok this a vs" "this \<noteq> nullptr"
  shows "\<exists>r a' h' w'. ba_reset this worker boundary (a, h, w) = Some (r, a', h', w') \<and>
           (r = Inr () \<longleftrightarrow> sid_value worker = sid_value (ba_worker a) \<and> qb_arena boundary = this \<and>
              qb_generation boundary = ba_generation a \<and> ba_live_pins a = 0 \<and> ba_generation a \<noteq> umax \<and>
              (\<exists>f w1. asrc_reset (ba_source a) = Some f \<and> f w = (Inr (), w1))) \<and>
           (if r = Inr ()
            then ba_capacity a' = 0 \<and> ba_offset a' = 0 \<and> ba_reservation a' = empty_reservation \<and>
                 budget_inv \<lparr>sys_budgets = h', sys_reservations = others\<rparr> \<and>
                 (\<forall>v \<in> set vs. \<exists>e. view_bytes [this \<mapsto> a'] v = Some (Inl e))
            else a' = a \<and> h' = h)"
proof -
  from ba_reset_ok [OF assms(1)] obtain r a' h' w' where step:
    "ba_reset this worker boundary (a, h, w) = Some (r, a', h', w')" "arena_inv others (a', h', w')"
    and out: "case r of Inl e \<Rightarrow> a' = a \<and> h' = h
      | Inr _ \<Rightarrow> sid_value worker = sid_value (ba_worker a) \<and> qb_arena boundary = this \<and>
          qb_generation boundary = ba_generation a \<and> ba_live_pins a = 0 \<and> ba_generation a \<noteq> umax \<and>
          ba_capacity a' = 0 \<and> ba_offset a' = 0 \<and> ba_generation a' = ba_generation a + 1" by blast
  show ?thesis
  proof (cases r)
    case (Inl e)
    with step(1) out show ?thesis
      by (auto simp: ba_reset_def ba_require_worker_def bind_eq_Some_conv split: if_splits prod.splits)
  next
    case (Inr u)
    then have gen: "ba_generation a \<noteq> umax" "ba_generation a' = ba_generation a + 1" using out by simp_all
    have "\<exists>f w1. asrc_reset (ba_source a) = Some f \<and> f w = (Inr (), w1)"
      using step(1) Inr by (auto simp: ba_reset_def split: sum.splits if_splits option.splits prod.splits)
    moreover have "ba_reservation a' = empty_reservation" using step(2) out Inr by (simp add: arena_inv_def)
    moreover from this have "budget_inv \<lparr>sys_budgets = h', sys_reservations = others\<rparr>"
      using step(2) unfolding arena_inv_def by (auto elim!: budget_inv_reservations simp: account_def)
    moreover have "\<exists>e. view_bytes [this \<mapsto> a'] v = Some (Inl e)" if "v \<in> set vs" for v
    proof -
      have "av_generation v \<le> ba_generation a" using assms(2) that by (simp add: views_ok_def)
      then have "av_generation v \<noteq> ba_generation a'"
        using gen unat_incr [OF gen(1)] by (auto simp: word_le_nat_alt)
      then show ?thesis using readable_view [OF views_ok_reset [OF assms(2) gen] that assms(3)] by simp
    qed
    ultimately show ?thesis using step(1) out Inr by (intro exI [of _ r] exI conjI) auto
  qed
qed

theorem arena_reset_exact_witness:
  "\<exists>r a' h' w'. ba_reset 32 \<lparr>sid_value = 7\<rparr> \<lparr>qb_arena = 32, qb_generation = 1\<rparr>
       (as_arena sample_arena, sample_budgets, 0) = Some (r, a', h', w') \<and> r = Inr () \<and> ba_capacity a' = 0"
proof -
  have inv: "arena_inv [] (as_arena sample_arena, sample_budgets, 0 :: nat)"
    using arena_start_inv [OF sample_budgets_ok sample_arena_source_ok]
    by (simp add: arena_sys_inv_def arena_start_def)
  have "views_ok 32 (as_arena sample_arena) []" by (simp add: views_ok_def live_views_def)
  from arena_reset_exact [OF inv this, of "\<lparr>sid_value = 7\<rparr>" "\<lparr>qb_arena = 32, qb_generation = 1\<rparr>"]
  show ?thesis by (auto simp: arena_start_def bounded_arena_def sample_arena_source_def)
qed

section \<open>Alignment of the block\<close>

text \<open>
  The arena rounds the offset, not the address: in a block that starts at an odd address an
  allocation with alignment 8 is at an odd address.
\<close>

definition odd_arena :: "unit BoundedArena" where
  "odd_arena = (bounded_arena \<lparr>sid_value = 7\<rparr> 64
     \<lparr>asrc_acquire = Some (\<lambda>n w. (Inr \<lparr>sp_data = 4097, sp_size = 64\<rparr>, w)), asrc_reset = Some (\<lambda>w. (Inr (), w))\<rparr>
     16 64)\<lparr>ba_storage := \<lparr>sp_data = 4097, sp_size = 64\<rparr>, ba_capacity := 16,
            ba_reservation := \<lparr>mr_budget = Some 64, mr_bytes = 16\<rparr>\<rparr>"

lemma arena_unaligned_block:
  "\<exists>v s. ba_try_allocate 32 \<lparr>sid_value = 7\<rparr> 8 8 (odd_arena, h, ()) = Some (Inr v, s) \<and>
     \<not> 8 dvd sp_data (av_bytes v)"
  by (simp add: ba_try_allocate_def odd_arena_def bounded_arena_def ba_require_worker_def ba_is_valid_alignment_def
      ensure_capacity_def checked_add_def mutable_byte_view_from_def subspan_def)

end
