(* ===== verification/Dependency_Errors.thy ===== *)
theory Dependency_Errors
  imports Error_Contract
begin

text \<open>
  \<open>src/adapters/dependency.cpp\<close> and its two headers: the boundary at which an error of a native
  library becomes an \<open>Error\<close> and, if the caller has a sink, a log record. Enumerations are normalised
  first, and the texts are built from them alone. The sink is a function of the caller on a state of
  type \<open>'w\<close>. The lemmas show that every text fits its buffer, that the diagnostic identifies the
  dependency, the operation and the status, and what a sink is given.
\<close>

section \<open>Definitions\<close>

datatype DependencyLogLevel = LL_warning | LL_error

definition component_capacity :: nat where "component_capacity = 24"
definition message_capacity :: nat where "message_capacity = 96"

record DependencyLogRecord =
  rec_level :: DependencyLogLevel
  rec_dependency :: DependencyId
  rec_operation :: DependencyOperation
  rec_status :: DependencyStatus
  rec_native_code :: "32 word"
  rec_component_bytes :: "char list"
  rec_message_bytes :: "char list"
  rec_component_size :: u8
  rec_message_size :: u8

definition empty_record :: DependencyLogRecord where
  "empty_record =
     \<lparr>rec_level = LL_error, rec_dependency = DI_none, rec_operation = OP_none, rec_status = DS_unknown,
      rec_native_code = 0, rec_component_bytes = replicate component_capacity (CHR 0x00),
      rec_message_bytes = replicate message_capacity (CHR 0x00), rec_component_size = 0,
      rec_message_size = 0\<rparr>"

definition rec_component :: "DependencyLogRecord \<Rightarrow> string" where
  "rec_component r = take (unat (rec_component_size r)) (rec_component_bytes r)"

definition rec_message :: "DependencyLogRecord \<Rightarrow> string" where
  "rec_message r = take (unat (rec_message_size r)) (rec_message_bytes r)"

record 'w DependencyLogSink =
  sink_write :: "(DependencyLogRecord \<Rightarrow> 'w \<Rightarrow> 'w) option"

definition sink_enabled :: "'w DependencyLogSink \<Rightarrow> bool" where
  "sink_enabled sink \<longleftrightarrow> sink_write sink \<noteq> None"

definition normalize_dependency_id :: "DependencyId \<Rightarrow> DependencyId" where
  "normalize_dependency_id v =
     (case v of
        DI_none \<Rightarrow> v | DI_openssl \<Rightarrow> v | DI_libressl \<Rightarrow> v | DI_yyjson \<Rightarrow> v | DI_nghttp2 \<Rightarrow> v
      | DI_ngtcp2 \<Rightarrow> v | DI_nghttp3 \<Rightarrow> v | DI_c_ares \<Rightarrow> v | DI_pcre2_8bit \<Rightarrow> v
      | DI_zlib_ng \<Rightarrow> v | DI_brotli \<Rightarrow> v | DI_zstd \<Rightarrow> v | DI_libmaxminddb \<Rightarrow> v
      | DI_libidn2 \<Rightarrow> v | DI_libxcrypt \<Rightarrow> v | DI_protobuf_c \<Rightarrow> v | DI_unlisted _ \<Rightarrow> DI_none)"

definition normalize_dependency_operation :: "DependencyOperation \<Rightarrow> DependencyOperation" where
  "normalize_dependency_operation v =
     (case v of
        OP_none \<Rightarrow> v | OP_sha256 \<Rightarrow> v | OP_hmac_sha256 \<Rightarrow> v | OP_ed25519_private_key \<Rightarrow> v
      | OP_ed25519_sign \<Rightarrow> v | OP_ed25519_verify \<Rightarrow> v | OP_spki_decode \<Rightarrow> v
      | OP_idna_lookup \<Rightarrow> v | OP_password_verify \<Rightarrow> v | OP_json_parse \<Rightarrow> v
      | OP_http2_session \<Rightarrow> v | OP_http2_receive \<Rightarrow> v | OP_http2_send \<Rightarrow> v
      | OP_http2_submit \<Rightarrow> v | OP_quic_session \<Rightarrow> v | OP_quic_receive \<Rightarrow> v | OP_quic_send \<Rightarrow> v
      | OP_quic_stream \<Rightarrow> v | OP_quic_expiry \<Rightarrow> v | OP_http3_session \<Rightarrow> v
      | OP_http3_receive \<Rightarrow> v | OP_http3_send \<Rightarrow> v | OP_http3_submit \<Rightarrow> v
      | OP_dns_session \<Rightarrow> v | OP_dns_query \<Rightarrow> v | OP_regex_compile \<Rightarrow> v | OP_regex_match \<Rightarrow> v
      | OP_codec_initialize \<Rightarrow> v | OP_codec_process \<Rightarrow> v | OP_geoip_open \<Rightarrow> v
      | OP_geoip_lookup \<Rightarrow> v | OP_unlisted _ \<Rightarrow> OP_none)"

definition normalize_dependency_status :: "DependencyStatus \<Rightarrow> DependencyStatus" where
  "normalize_dependency_status v =
     (case v of
        DS_invalid_input \<Rightarrow> v | DS_invalid_range \<Rightarrow> v | DS_unavailable \<Rightarrow> v
      | DS_exhaustion \<Rightarrow> v | DS_unsupported_version \<Rightarrow> v | DS_corrupt_data \<Rightarrow> v
      | DS_checksum \<Rightarrow> v | DS_crypto \<Rightarrow> v | DS_io \<Rightarrow> v | DS_unknown \<Rightarrow> v
      | DS_unlisted _ \<Rightarrow> DS_unknown)"

definition dependency_name :: "DependencyId \<Rightarrow> string" where
  "dependency_name v =
     (case v of
        DI_none \<Rightarrow> ''none'' | DI_openssl \<Rightarrow> ''openssl'' | DI_libressl \<Rightarrow> ''libressl''
      | DI_yyjson \<Rightarrow> ''yyjson'' | DI_nghttp2 \<Rightarrow> ''nghttp2'' | DI_ngtcp2 \<Rightarrow> ''ngtcp2''
      | DI_nghttp3 \<Rightarrow> ''nghttp3'' | DI_c_ares \<Rightarrow> ''c_ares'' | DI_pcre2_8bit \<Rightarrow> ''pcre2_8bit''
      | DI_zlib_ng \<Rightarrow> ''zlib_ng'' | DI_brotli \<Rightarrow> ''brotli'' | DI_zstd \<Rightarrow> ''zstd''
      | DI_libmaxminddb \<Rightarrow> ''libmaxminddb'' | DI_libidn2 \<Rightarrow> ''libidn2''
      | DI_libxcrypt \<Rightarrow> ''libxcrypt'' | DI_protobuf_c \<Rightarrow> ''protobuf_c''
      | DI_unlisted _ \<Rightarrow> ''none'')"

definition operation_name :: "DependencyOperation \<Rightarrow> string" where
  "operation_name v =
     (case v of
        OP_none \<Rightarrow> ''none'' | OP_sha256 \<Rightarrow> ''sha256'' | OP_hmac_sha256 \<Rightarrow> ''hmac_sha256''
      | OP_ed25519_private_key \<Rightarrow> ''ed25519_private_key''
      | OP_ed25519_sign \<Rightarrow> ''ed25519_sign'' | OP_ed25519_verify \<Rightarrow> ''ed25519_verify''
      | OP_spki_decode \<Rightarrow> ''spki_decode'' | OP_idna_lookup \<Rightarrow> ''idna_lookup''
      | OP_password_verify \<Rightarrow> ''password_verify'' | OP_json_parse \<Rightarrow> ''json_parse''
      | OP_http2_session \<Rightarrow> ''http2_session'' | OP_http2_receive \<Rightarrow> ''http2_receive''
      | OP_http2_send \<Rightarrow> ''http2_send'' | OP_http2_submit \<Rightarrow> ''http2_submit''
      | OP_quic_session \<Rightarrow> ''quic_session'' | OP_quic_receive \<Rightarrow> ''quic_receive''
      | OP_quic_send \<Rightarrow> ''quic_send'' | OP_quic_stream \<Rightarrow> ''quic_stream''
      | OP_quic_expiry \<Rightarrow> ''quic_expiry'' | OP_http3_session \<Rightarrow> ''http3_session''
      | OP_http3_receive \<Rightarrow> ''http3_receive'' | OP_http3_send \<Rightarrow> ''http3_send''
      | OP_http3_submit \<Rightarrow> ''http3_submit'' | OP_dns_session \<Rightarrow> ''dns_session''
      | OP_dns_query \<Rightarrow> ''dns_query'' | OP_regex_compile \<Rightarrow> ''regex_compile''
      | OP_regex_match \<Rightarrow> ''regex_match'' | OP_codec_initialize \<Rightarrow> ''codec_initialize''
      | OP_codec_process \<Rightarrow> ''codec_process'' | OP_geoip_open \<Rightarrow> ''geoip_open''
      | OP_geoip_lookup \<Rightarrow> ''geoip_lookup'' | OP_unlisted _ \<Rightarrow> ''none'')"

definition status_name :: "DependencyStatus \<Rightarrow> string" where
  "status_name v =
     (case v of
        DS_invalid_input \<Rightarrow> ''invalid_input'' | DS_invalid_range \<Rightarrow> ''invalid_range''
      | DS_unavailable \<Rightarrow> ''unavailable'' | DS_exhaustion \<Rightarrow> ''exhaustion''
      | DS_unsupported_version \<Rightarrow> ''unsupported_version''
      | DS_corrupt_data \<Rightarrow> ''corrupt_data'' | DS_checksum \<Rightarrow> ''checksum''
      | DS_crypto \<Rightarrow> ''crypto'' | DS_io \<Rightarrow> ''io'' | DS_unknown \<Rightarrow> ''unknown''
      | DS_unlisted _ \<Rightarrow> ''unknown'')"

text \<open>A buffer of fixed capacity, with the number of characters in use.\<close>

definition append_text :: "string \<Rightarrow> char list \<times> nat \<Rightarrow> char list \<times> nat" where
  "append_text v = (\<lambda>(buffer, used).
     let remaining = length buffer - used;
         copied = (if length v < remaining then length v else remaining)
     in (write_at buffer used (take copied v), used + copied))"

definition set_text :: "string \<Rightarrow> char list \<Rightarrow> char list \<times> u8" where
  "set_text v buffer = (case append_text v (buffer, 0) of (buffer, copied) \<Rightarrow> (buffer, of_nat copied))"

definition log_level_for :: "Error \<Rightarrow> DependencyLogLevel" where
  "log_level_for e =
     (if err_retryability e = may_retry \<and> err_security_relevance e = ordinary then LL_warning
      else LL_error)"

definition normalize_dependency_error ::
    "DependencyId \<Rightarrow> DependencyOperation \<Rightarrow> DependencyStatus \<Rightarrow> 32 word \<Rightarrow> Error" where
  "normalize_dependency_error dependency operation status native_code =
     (let normalized_dependency = normalize_dependency_id dependency;
          normalized_operation = normalize_dependency_operation operation;
          normalized_status = normalize_dependency_status status;
          diagnostic = (replicate diagnostic_context_capacity (CHR 0x00), 0);
          diagnostic = append_text ''dependency='' diagnostic;
          diagnostic = append_text (dependency_name normalized_dependency) diagnostic;
          diagnostic = append_text '' operation='' diagnostic;
          diagnostic = append_text (operation_name normalized_operation) diagnostic;
          diagnostic = append_text '' status='' diagnostic;
          diagnostic = append_text (status_name normalized_status) diagnostic
      in from_dependency_operation normalized_dependency normalized_operation normalized_status
           native_code (take (snd diagnostic) (fst diagnostic)))"

definition log_dependency_error :: "'w DependencyLogSink \<Rightarrow> Error \<Rightarrow> 'w \<Rightarrow> 'w" where
  "log_dependency_error sink e w =
     (if \<not> sink_enabled sink \<or> err_domain e \<noteq> Dom_dependency then w
      else
        let r = empty_record\<lparr>rec_level := log_level_for e,
                             rec_dependency := normalize_dependency_id (err_dependency_id e),
                             rec_operation := normalize_dependency_operation (err_dependency_operation e),
                             rec_status := normalize_dependency_status (err_dependency_status e),
                             rec_native_code := err_native_code e\<rparr>;
            (component, component_size) =
              set_text (dependency_name (rec_dependency r)) (rec_component_bytes r);
            r = r\<lparr>rec_component_bytes := component, rec_component_size := component_size\<rparr>;
            message = (replicate message_capacity (CHR 0x00), 0);
            message = append_text ''operation='' message;
            message = append_text (operation_name (rec_operation r)) message;
            message = append_text '' status='' message;
            message = append_text (status_name (rec_status r)) message;
            (bytes, bytes_size) = set_text (take (snd message) (fst message)) (rec_message_bytes r);
            r = r\<lparr>rec_message_bytes := bytes, rec_message_size := bytes_size\<rparr>
        in the (sink_write sink) r w)"

text \<open>The state an adapter owns while a native library may call back.\<close>

record 'w DependencyCallbackState =
  cb_log_sink :: "'w DependencyLogSink"
  cb_dependency :: DependencyId
  cb_operation :: DependencyOperation
  cb_status :: DependencyStatus
  cb_error :: Error
  cb_failed :: bool

definition dependency_failure_callback ::
    "'w DependencyCallbackState option \<Rightarrow> 32 word \<Rightarrow> 'w \<Rightarrow> 'w DependencyCallbackState option \<times> 'w" where
  "dependency_failure_callback context native_code w =
     (case context of
        None \<Rightarrow> (None, w)
      | Some s \<Rightarrow>
          let e = normalize_dependency_error (cb_dependency s) (cb_operation s) (cb_status s) native_code;
              s = s\<lparr>cb_error := e, cb_failed := True\<rparr>
          in (Some s, log_dependency_error (cb_log_sink s) e w))"

section \<open>Texts\<close>

text \<open>Appending in a cleared buffer that has room.\<close>

definition filled :: "nat \<Rightarrow> string \<Rightarrow> char list \<times> nat" where
  "filled capacity v = (v @ replicate (capacity - length v) (CHR 0x00), length v)"

lemma append_text_filled:
  assumes "length u + length v \<le> capacity"
  shows "append_text v (filled capacity u) = filled capacity (u @ v)"
proof -
  have "write_at (u @ replicate (capacity - length u) (CHR 0x00)) (length u) v =
      (u @ v) @ replicate (capacity - length (u @ v)) (CHR 0x00)"
    using assms by (subst write_at_eq) simp_all
  with assms show ?thesis by (auto simp: append_text_def filled_def Let_def)
qed

lemma take_filled: "take (snd (filled capacity v)) (fst (filled capacity v)) = v"
  by (simp add: filled_def)

lemma set_text_filled:
  assumes "length v \<le> capacity" "capacity < 256"
  shows "set_text v (replicate capacity (CHR 0x00)) = (fst (filled capacity v), of_nat (length v))"
    "take (unat (of_nat (length v) :: u8)) (fst (filled capacity v)) = v"
proof -
  have "append_text v (replicate capacity (CHR 0x00), 0) = filled capacity v"
    using append_text_filled [of "[]" v capacity] assms(1) by (simp add: filled_def)
  then show "set_text v (replicate capacity (CHR 0x00)) = (fst (filled capacity v), of_nat (length v))"
    by (simp add: set_text_def filled_def)
  show "take (unat (of_nat (length v) :: u8)) (fst (filled capacity v)) = v"
    using assms by (simp add: filled_def unat_of_nat)
qed

lemma dependency_name_facts: "length (dependency_name i) \<le> 12" "CHR '' '' \<notin> set (dependency_name i)"
  by (cases i; simp add: dependency_name_def)+

lemma operation_name_facts: "length (operation_name oper) \<le> 19" "CHR '' '' \<notin> set (operation_name oper)"
  by (cases oper; simp add: operation_name_def)+

lemma status_name_facts: "length (status_name s) \<le> 19" "CHR '' '' \<notin> set (status_name s)"
  by (cases s; simp add: status_name_def)+

lemmas name_facts = dependency_name_facts operation_name_facts status_name_facts

lemma dependency_name_inject:
  "dependency_name (normalize_dependency_id i) = dependency_name (normalize_dependency_id j) \<Longrightarrow>
   normalize_dependency_id i = normalize_dependency_id j"
  by (cases i; cases j; simp add: dependency_name_def normalize_dependency_id_def)

lemma operation_name_inject:
  "operation_name (normalize_dependency_operation i) = operation_name (normalize_dependency_operation j) \<Longrightarrow>
   normalize_dependency_operation i = normalize_dependency_operation j"
  by (cases i; cases j; simp add: operation_name_def normalize_dependency_operation_def)

lemma status_name_inject:
  "status_name (normalize_dependency_status i) = status_name (normalize_dependency_status j) \<Longrightarrow>
   normalize_dependency_status i = normalize_dependency_status j"
  by (cases i; cases j; simp add: status_name_def normalize_dependency_status_def)

text \<open>The texts of the diagnostic and of the log message.\<close>

definition diagnostic_text :: "DependencyId \<Rightarrow> DependencyOperation \<Rightarrow> DependencyStatus \<Rightarrow> string" where
  "diagnostic_text i oper s =
     ''dependency='' @ dependency_name i @ '' operation='' @ operation_name oper @ '' status='' @ status_name s"

definition message_text :: "DependencyOperation \<Rightarrow> DependencyStatus \<Rightarrow> string" where
  "message_text oper s = ''operation='' @ operation_name oper @ '' status='' @ status_name s"

lemma diagnostic_text_length: "length (diagnostic_text i oper s) \<le> 80"
  using name_facts(1) [of i] name_facts(3) [of oper] name_facts(5) [of s] by (simp add: diagnostic_text_def)

lemma message_text_length: "length (message_text oper s) \<le> 56"
  using name_facts(3) [of oper] name_facts(5) [of s] by (simp add: message_text_def)

lemma cleared_buffer: "(replicate n (CHR 0x00), 0) = filled n []"
  by (simp add: filled_def)

lemma split_at_space:
  "CHR '' '' \<notin> set a \<Longrightarrow> CHR '' '' \<notin> set b \<Longrightarrow> a @ CHR '' '' # x = b @ CHR '' '' # y \<Longrightarrow> a = b \<and> x = y"
proof (induction a arbitrary: b)
  case Nil
  then show ?case by (cases b) auto
next
  case (Cons c a)
  then show ?case by (cases b) auto
qed

lemma diagnostic_text_inject:
  assumes "diagnostic_text i oper s = diagnostic_text i' oper' s'"
  shows "dependency_name i = dependency_name i' \<and> operation_name oper = operation_name oper' \<and>
    status_name s = status_name s'"
proof -
  have "dependency_name i = dependency_name i'"
    and rest: "''operation='' @ operation_name oper @ '' status='' @ status_name s =
      ''operation='' @ operation_name oper' @ '' status='' @ status_name s'"
    using assms split_at_space [OF name_facts(2) name_facts(2), of i _ i'] by (auto simp: diagnostic_text_def)
  then show ?thesis
    using split_at_space [OF name_facts(4) name_facts(4), of oper _ oper'] by auto
qed

lemma normalize_dependency_error_eq:
  "normalize_dependency_error i oper s n =
     (let i = normalize_dependency_id i; oper = normalize_dependency_operation oper;
          s = normalize_dependency_status s
      in from_dependency_operation i oper s n (diagnostic_text i oper s))"
proof -
  define i' oper' s' where "i' = normalize_dependency_id i" "oper' = normalize_dependency_operation oper"
    "s' = normalize_dependency_status s"
  note len = diagnostic_text_length [of i' oper' s', unfolded diagnostic_text_def, simplified]
  show ?thesis
    unfolding normalize_dependency_error_def Let_def cleared_buffer diagnostic_context_capacity_def
      i'_oper'_s'_def(1,2,3) [symmetric]
    using len by (simp add: append_text_filled take_filled diagnostic_text_def del: One_nat_def)
qed


section \<open>Log records\<close>

text \<open>What a record says of an error.\<close>

definition records :: "Error \<Rightarrow> DependencyLogRecord \<Rightarrow> bool" where
  "records e r \<longleftrightarrow>
     rec_level r = log_level_for e \<and> rec_native_code r = err_native_code e \<and>
     rec_dependency r = normalize_dependency_id (err_dependency_id e) \<and>
     rec_operation r = normalize_dependency_operation (err_dependency_operation e) \<and>
     rec_status r = normalize_dependency_status (err_dependency_status e) \<and>
     length (rec_component_bytes r) = component_capacity \<and> length (rec_message_bytes r) = message_capacity \<and>
     rec_component r = dependency_name (rec_dependency r) \<and>
     rec_message r = message_text (rec_operation r) (rec_status r)"

lemma log_dependency_error_eq:
  assumes "sink_write sink = Some f" "err_domain e = Dom_dependency"
  shows "\<exists>r. records e r \<and> log_dependency_error sink e w = f r w"
proof -
  define i oper s where nrm: "i = normalize_dependency_id (err_dependency_id e)"
    "oper = normalize_dependency_operation (err_dependency_operation e)"
    "s = normalize_dependency_status (err_dependency_status e)"
  have len: "length (message_text oper s) \<le> 96" "length (dependency_name i) \<le> 24"
    using message_text_length [of oper s] name_facts(1) [of i] by simp_all
  have message: "append_text (status_name s) (append_text '' status='' (append_text (operation_name oper)
      (append_text ''operation='' (filled 96 [])))) = filled 96 (message_text oper s)"
    using len(1) by (simp add: append_text_filled message_text_def)
  let ?r = "empty_record\<lparr>rec_level := log_level_for e, rec_dependency := i, rec_operation := oper, rec_status := s,
    rec_native_code := err_native_code e,
    rec_component_bytes := fst (filled 24 (dependency_name i)), rec_component_size := of_nat (length (dependency_name i)),
    rec_message_bytes := fst (filled 96 (message_text oper s)), rec_message_size := of_nat (length (message_text oper s))\<rparr>"
  have "log_dependency_error sink e w = f ?r w"
    using assms len unfolding log_dependency_error_def Let_def cleared_buffer
    by (simp add: sink_enabled_def nrm [symmetric] empty_record_def component_capacity_def message_capacity_def
        message take_filled set_text_filled(1))
  moreover have "records e ?r"
    using len set_text_filled(2) [OF len(1)] set_text_filled(2) [OF len(2)]
    by (simp add: records_def nrm [symmetric] rec_component_def rec_message_def component_capacity_def
        message_capacity_def) (simp add: filled_def)
  ultimately show ?thesis by blast
qed

lemma diagnostic_context_dependency:
  "diagnostic_context (from_dependency_operation i oper s n d) = take diagnostic_context_capacity d"
  using diagnostic_context_make_error [of Dom_dependency "normalize_dependency s" n d]
  by (simp add: from_dependency_operation_def diagnostic_context_def)

lemma normalized_diagnostic:
  "diagnostic_context (normalize_dependency_error i oper s n) =
     diagnostic_text (normalize_dependency_id i) (normalize_dependency_operation oper) (normalize_dependency_status s)"
  using diagnostic_text_length [of "normalize_dependency_id i" "normalize_dependency_operation oper"
      "normalize_dependency_status s"]
  by (simp add: normalize_dependency_error_eq Let_def diagnostic_context_dependency diagnostic_context_capacity_def)

section \<open>Properties\<close>

text \<open>
  C23: Every error that crosses the dependency boundary is well formed, whatever raw values the
  native side supplies. It is in the dependency domain, its classifications follow from its code,
  its dependency and status are enumerators, its native code is kept, and its diagnostic is
  the full text, never cut.
\<close>

theorem normalized_error_wf:
  "error_wf (normalize_dependency_error i oper s n) \<and>
   err_domain (normalize_dependency_error i oper s n) = Dom_dependency \<and>
   err_code (normalize_dependency_error i oper s n) = normalize_dependency s \<and>
   err_native_code (normalize_dependency_error i oper s n) = n \<and>
   is_known_dependency_id (err_dependency_id (normalize_dependency_error i oper s n)) \<and>
   (\<forall>x. err_dependency_status (normalize_dependency_error i oper s n) \<noteq> DS_unlisted x) \<and>
   (\<forall>x. err_dependency_operation (normalize_dependency_error i oper s n) \<noteq> OP_unlisted x) \<and>
   \<not> err_diagnostic_truncated (normalize_dependency_error i oper s n) \<and>
   diagnostic_context (normalize_dependency_error i oper s n) =
     diagnostic_text (normalize_dependency_id i) (normalize_dependency_operation oper) (normalize_dependency_status s)"
proof -
  let ?d = "diagnostic_text (normalize_dependency_id i) (normalize_dependency_operation oper)
    (normalize_dependency_status s)"
  have e: "normalize_dependency_error i oper s n = from_dependency_operation (normalize_dependency_id i)
      (normalize_dependency_operation oper) (normalize_dependency_status s) n ?d"
    by (simp add: normalize_dependency_error_eq Let_def)
  have "is_known_dependency_id (normalize_dependency_id i)"
    by (cases i; simp add: normalize_dependency_id_def is_known_dependency_id_def)
  moreover have "normalize_dependency_status s \<noteq> DS_unlisted x" for x
    by (cases s; simp add: normalize_dependency_status_def)
  moreover have "normalize_dependency_operation oper \<noteq> OP_unlisted x" for x
    by (cases oper; simp add: normalize_dependency_operation_def)
  moreover have "normalize_dependency (normalize_dependency_status s) = normalize_dependency s"
    by (cases s; simp add: normalize_dependency_status_def normalize_dependency_def)
  moreover have "\<not> err_diagnostic_truncated (make_error Dom_dependency c n ?d)" for c
    using order_trans [OF diagnostic_text_length, of 96 "normalize_dependency_id i"
        "normalize_dependency_operation oper" "normalize_dependency_status s"]
    by (simp add: make_error_def set_diagnostic_context_fields(3) diagnostic_context_capacity_def not_less)
  moreover have wf: "error_wf (normalize_dependency_error i oper s n)"
    unfolding e by (rule error_wf_from_dependency_operation)
  ultimately show ?thesis
    by (intro conjI wf normalized_diagnostic) (simp_all add: e from_dependency_operation_def)
qed

text \<open>
  C24: A diagnostic identifies the failure: two normalised errors have the same diagnostic exactly
  if they name the same dependency, operation and status.
\<close>

theorem diagnostic_identifies_failure:
  "diagnostic_context (normalize_dependency_error i oper s n) =
     diagnostic_context (normalize_dependency_error i' oper' s' n') \<longleftrightarrow>
   normalize_dependency_id i = normalize_dependency_id i' \<and>
   normalize_dependency_operation oper = normalize_dependency_operation oper' \<and>
   normalize_dependency_status s = normalize_dependency_status s'"
  unfolding normalized_diagnostic
  using diagnostic_text_inject dependency_name_inject operation_name_inject status_name_inject by metis

text \<open>
  C25: A failure reported by a native library is recorded once. The callback marks the adapter's
  state as failed and stores the normalised error; if the sink is enabled it is given exactly one
  record, which carries the error's level, identifiers, native code and full texts, and with no
  sink nothing is written.
\<close>

theorem callback_records_failure:
  "\<exists>s'. fst (dependency_failure_callback (Some s) n w) = Some s' \<and> cb_failed s' \<and>
     cb_error s' = normalize_dependency_error (cb_dependency s) (cb_operation s) (cb_status s) n \<and>
     (case sink_write (cb_log_sink s) of
        None \<Rightarrow> snd (dependency_failure_callback (Some s) n w) = w
      | Some f \<Rightarrow> \<exists>r. records (cb_error s') r \<and> snd (dependency_failure_callback (Some s) n w) = f r w)"
proof -
  let ?e = "normalize_dependency_error (cb_dependency s) (cb_operation s) (cb_status s) n"
  have "err_domain ?e = Dom_dependency"
    by (simp add: normalize_dependency_error_eq Let_def from_dependency_operation_def)
  then show ?thesis
    using log_dependency_error_eq [of "cb_log_sink s" _ ?e w]
    by (auto simp: dependency_failure_callback_def Let_def log_dependency_error_def sink_enabled_def
        split: option.splits)
qed

end
