(* ===== verification/Dependency_Lifecycle.thy ===== *)
theory Dependency_Lifecycle
  imports Error_Contract Guarded_Systems
begin

text \<open>
  \<open>src/adapters/dependency_lifecycle.cpp\<close> and its header: the registry that takes the native
  dependencies of a process through preflight, fork, worker initialisation and the two cleanups.
  The hooks of a dependency are functions of the caller on a state of type \<open>'w\<close>; the process that
  calls an operation is given by the answer of \<open>getpid\<close>, so that the copy of a registry in a forked
  child continues with another number. The lemmas show that every hook that succeeded is undone
  exactly once, in reverse order, on every path, and which process may do what in which phase.
\<close>

section \<open>Definitions\<close>

definition dependency_lifecycle_capacity :: nat where
  "dependency_lifecycle_capacity = 14"

record DependencyLiveState =
  live_sessions :: u32
  live_contexts :: u32
  live_threads :: u32
  live_callbacks :: u32

definition is_quiescent :: "DependencyLiveState \<Rightarrow> bool" where
  "is_quiescent s \<longleftrightarrow>
     live_sessions s = 0 \<and> live_contexts s = 0 \<and> live_threads s = 0 \<and> live_callbacks s = 0"

type_synonym 'w DependencyLifecycleAction = "'w \<Rightarrow> unit Result \<times> 'w"

record 'w DependencyLifecycleHooks =
  hk_dependency :: DependencyId
  hk_preflight :: "'w DependencyLifecycleAction option"
  hk_worker_initialize :: "'w DependencyLifecycleAction option"
  hk_worker_cleanup :: "'w DependencyLifecycleAction option"
  hk_master_cleanup :: "'w DependencyLifecycleAction option"
  hk_live_state :: "('w \<Rightarrow> DependencyLiveState \<times> 'w) option"

definition hooks_valid :: "'w DependencyLifecycleHooks \<Rightarrow> bool" where
  "hooks_valid h \<longleftrightarrow>
     hk_dependency h \<noteq> DI_none \<and> is_known_dependency_id (hk_dependency h) \<and> hk_preflight h \<noteq> None \<and>
     hk_worker_initialize h \<noteq> None \<and> hk_worker_cleanup h \<noteq> None \<and> hk_master_cleanup h \<noteq> None \<and>
     hk_live_state h \<noteq> None"

record DependencyForkEpoch =
  epoch_master_process :: u64
  epoch_value :: u64

definition epoch_valid :: "DependencyForkEpoch \<Rightarrow> bool" where
  "epoch_valid e \<longleftrightarrow> epoch_master_process e \<noteq> 0 \<and> epoch_value e \<noteq> 0"

datatype DependencyLifecyclePhase =
    PH_collecting
  | PH_preflighted
  | PH_preflight_failed
  | PH_preflight_rollback_failed
  | PH_fork_ready
  | PH_worker_ready
  | PH_worker_rolled_back
  | PH_worker_rollback_failed
  | PH_worker_cleaned
  | PH_worker_cleanup_failed
  | PH_master_cleaned
  | PH_master_cleanup_failed

text \<open>
  The hooks are the first \<open>count_\<close> elements of the array. The counters never exceed the capacity,
  so they are natural numbers.
\<close>

record 'w DependencyLifecycleRegistry =
  reg_hooks :: "'w DependencyLifecycleHooks list"
  reg_phase :: DependencyLifecyclePhase
  reg_terminal_failure :: Error
  reg_master_process :: u64
  reg_worker_process :: u64
  reg_fork_epoch :: u64
  reg_preflighted_count :: nat
  reg_worker_initialized_count :: nat
  reg_has_terminal_failure :: bool

definition current_process :: "int \<Rightarrow> u64" where
  "current_process pid = (if pid > 0 then word_of_int pid else 0)"

definition lifecycle_error :: "ErrorCode \<Rightarrow> string \<Rightarrow> Error" where
  "lifecycle_error code diagnostic = core_error code diagnostic"

definition lifecycle_failure :: "ErrorCode \<Rightarrow> string \<Rightarrow> unit Result" where
  "lifecycle_failure code diagnostic = Inl (lifecycle_error code diagnostic)"

definition fork_failure :: "ErrorCode \<Rightarrow> string \<Rightarrow> DependencyForkEpoch Result" where
  "fork_failure code diagnostic = Inl (lifecycle_error code diagnostic)"

definition is_master_process :: "int \<Rightarrow> 'w DependencyLifecycleRegistry \<Rightarrow> bool" where
  "is_master_process pid g \<longleftrightarrow> reg_master_process g \<noteq> 0 \<and> current_process pid = reg_master_process g"

definition is_tls_provider :: "DependencyId \<Rightarrow> bool" where
  "is_tls_provider d \<longleftrightarrow> d = DI_openssl \<or> d = DI_libressl"

definition lifecycle_registry :: "int \<Rightarrow> 'w DependencyLifecycleRegistry" where
  "lifecycle_registry pid =
     \<lparr>reg_hooks = [], reg_phase = PH_collecting,
      reg_terminal_failure = core_error EC_invalid_state [], reg_master_process = current_process pid,
      reg_worker_process = 0, reg_fork_epoch = 0, reg_preflighted_count = 0,
      reg_worker_initialized_count = 0, reg_has_terminal_failure = False\<rparr>"

definition persistent_failure :: "'w DependencyLifecycleRegistry \<Rightarrow> unit Result" where
  "persistent_failure g =
     (if \<not> reg_has_terminal_failure g
        then lifecycle_failure EC_invalid_state ''dependency lifecycle failure state is missing detail''
      else Inl (reg_terminal_failure g))"

definition persistent_fork_failure :: "'w DependencyLifecycleRegistry \<Rightarrow> DependencyForkEpoch Result" where
  "persistent_fork_failure g =
     (if \<not> reg_has_terminal_failure g
        then fork_failure EC_invalid_state ''dependency lifecycle failure state is missing detail''
      else Inl (reg_terminal_failure g))"

definition set_terminal_failure ::
    "DependencyLifecyclePhase \<Rightarrow> Error \<Rightarrow> 'w DependencyLifecycleRegistry \<Rightarrow> 'w DependencyLifecycleRegistry" where
  "set_terminal_failure phase failure g =
     g\<lparr>reg_terminal_failure := failure, reg_has_terminal_failure := True, reg_phase := phase\<rparr>"

text \<open>The first conflict with a registered dependency, in the order of registration.\<close>

primrec registration_conflict ::
    "DependencyId \<Rightarrow> 'w DependencyLifecycleHooks list \<Rightarrow> string option" where
  "registration_conflict d [] = None"
| "registration_conflict d (h # hs) =
     (if hk_dependency h = d then Some ''dependency lifecycle registration is duplicate''
      else if is_tls_provider (hk_dependency h) \<and> is_tls_provider d
        then Some ''dependency lifecycle TLS providers conflict''
      else registration_conflict d hs)"

definition register_dependency ::
    "int \<Rightarrow> 'w DependencyLifecycleHooks \<Rightarrow> 'w DependencyLifecycleRegistry \<Rightarrow>
     unit Result \<times> 'w DependencyLifecycleRegistry" where
  "register_dependency pid hooks g =
     (if \<not> is_master_process pid g
        then (lifecycle_failure EC_invalid_state
                ''dependency lifecycle registration requires master owner'', g)
      else if reg_phase g \<noteq> PH_collecting
        then (lifecycle_failure EC_invalid_state
                ''dependency lifecycle registration transition is invalid'', g)
      else if \<not> hooks_valid hooks
        then (lifecycle_failure EC_invalid_input ''dependency lifecycle hooks are invalid'', g)
      else case registration_conflict (hk_dependency hooks) (reg_hooks g) of
        Some diagnostic \<Rightarrow> (lifecycle_failure EC_invalid_state diagnostic, g)
      | None \<Rightarrow>
          if length (reg_hooks g) = dependency_lifecycle_capacity
            then (lifecycle_failure EC_exhaustion ''dependency lifecycle registry capacity exhausted'', g)
          else (Inr (), g\<lparr>reg_hooks := reg_hooks g @ [hooks]\<rparr>))"

text \<open>
  The two loops the operations share: call a hook of each dependency until one fails, counting the
  successes; and call a hook of the first \<open>n\<close> dependencies backwards, keeping the first error.
\<close>

primrec forward_loop ::
    "('h \<Rightarrow> 'w \<Rightarrow> unit Result \<times> 'w) \<Rightarrow> 'h list \<Rightarrow> nat \<Rightarrow> 'w \<Rightarrow> Error option \<times> nat \<times> 'w" where
  "forward_loop call [] n w = (None, n, w)"
| "forward_loop call (h # hs) n w =
     (case call h w of
        (Inl e, w) \<Rightarrow> (Some e, n, w)
      | (Inr _, w) \<Rightarrow> forward_loop call hs (n + 1) w)"

primrec backward_loop ::
    "('h \<Rightarrow> 'w \<Rightarrow> unit Result \<times> 'w) \<Rightarrow> 'h list \<Rightarrow> nat \<Rightarrow> Error option \<Rightarrow> 'w \<Rightarrow> Error option \<times> 'w" where
  "backward_loop call hs 0 first w = (first, w)"
| "backward_loop call hs (Suc n) first w =
     (case call (hs ! n) w of
        (Inl e, w) \<Rightarrow> backward_loop call hs n (if first = None then Some e else first) w
      | (Inr _, w) \<Rightarrow> backward_loop call hs n first w)"

definition preflight ::
    "int \<Rightarrow> 'w DependencyLifecycleRegistry \<times> 'w \<Rightarrow> unit Result \<times> 'w DependencyLifecycleRegistry \<times> 'w" where
  "preflight pid = (\<lambda>(g, w).
     if \<not> is_master_process pid g
       then (lifecycle_failure EC_invalid_state ''dependency lifecycle preflight requires master owner'', g, w)
     else if reg_phase g = PH_preflighted \<or> reg_phase g = PH_fork_ready then (Inr (), g, w)
     else if reg_phase g = PH_preflight_rollback_failed then (persistent_failure g, g, w)
     else if reg_phase g \<noteq> PH_collecting
       then (lifecycle_failure EC_invalid_state
               ''dependency lifecycle preflight transition is invalid'', g, w)
     else
       case forward_loop (the \<circ> hk_preflight) (reg_hooks g) (reg_preflighted_count g) w of
         (None, n, w) \<Rightarrow> (Inr (), g\<lparr>reg_preflighted_count := n, reg_phase := PH_preflighted\<rparr>, w)
       | (Some e, n, w) \<Rightarrow>
           (case backward_loop (the \<circ> hk_master_cleanup) (reg_hooks g) n None w of
              (Some first_cleanup_failure, w) \<Rightarrow>
                (Inl first_cleanup_failure,
                 set_terminal_failure PH_preflight_rollback_failed first_cleanup_failure
                   (g\<lparr>reg_preflighted_count := 0\<rparr>), w)
            | (None, w) \<Rightarrow>
                (Inl e, g\<lparr>reg_preflighted_count := 0, reg_phase := PH_preflight_failed\<rparr>, w)))"

text \<open>The live states are read until one is not quiescent.\<close>

primrec all_quiescent :: "'w DependencyLifecycleHooks list \<Rightarrow> 'w \<Rightarrow> bool \<times> 'w" where
  "all_quiescent [] w = (True, w)"
| "all_quiescent (h # hs) w =
     (case the (hk_live_state h) w of
        (s, w) \<Rightarrow> if is_quiescent s then all_quiescent hs w else (False, w))"

definition prepare_fork ::
    "int \<Rightarrow> u32 \<Rightarrow> 'w DependencyLifecycleRegistry \<times> 'w \<Rightarrow>
     DependencyForkEpoch Result \<times> 'w DependencyLifecycleRegistry \<times> 'w" where
  "prepare_fork pid master_thread_count = (\<lambda>(g, w).
     if \<not> is_master_process pid g
       then (fork_failure EC_invalid_state ''dependency lifecycle fork requires master owner'', g, w)
     else if reg_phase g = PH_preflight_rollback_failed \<or> reg_phase g = PH_master_cleanup_failed
       then (persistent_fork_failure g, g, w)
     else if reg_phase g \<noteq> PH_preflighted \<and> reg_phase g \<noteq> PH_fork_ready
       then (fork_failure EC_invalid_state ''dependency lifecycle fork transition is invalid'', g, w)
     else if master_thread_count \<noteq> 1
       then (fork_failure EC_invalid_state ''dependency lifecycle fork requires one master thread'', g, w)
     else case all_quiescent (reg_hooks g) w of
       (False, w) \<Rightarrow>
         (fork_failure EC_invalid_state ''dependency lifecycle fork requires quiescent state'', g, w)
     | (True, w) \<Rightarrow>
         if reg_phase g = PH_fork_ready
           then (Inr \<lparr>epoch_master_process = reg_master_process g, epoch_value = reg_fork_epoch g\<rparr>, g, w)
         else if reg_fork_epoch g = umax
           then (fork_failure EC_overflow ''dependency lifecycle fork epoch is exhausted'', g, w)
         else
           let g = g\<lparr>reg_fork_epoch := reg_fork_epoch g + 1, reg_phase := PH_fork_ready\<rparr> in
           (Inr \<lparr>epoch_master_process = reg_master_process g, epoch_value = reg_fork_epoch g\<rparr>, g, w))"

definition worker_initialize ::
    "int \<Rightarrow> DependencyForkEpoch \<Rightarrow> 'w DependencyLifecycleRegistry \<times> 'w \<Rightarrow>
     unit Result \<times> 'w DependencyLifecycleRegistry \<times> 'w" where
  "worker_initialize pid epoch = (\<lambda>(g, w).
     let process = current_process pid in
     if \<not> epoch_valid epoch \<or> epoch_master_process epoch \<noteq> reg_master_process g \<or>
        epoch_value epoch \<noteq> reg_fork_epoch g
       then (lifecycle_failure EC_invalid_state ''dependency lifecycle worker epoch is invalid'', g, w)
     else if process = 0 \<or> process = reg_master_process g
       then (lifecycle_failure EC_invalid_state
               ''dependency lifecycle worker initialization requires forked child'', g, w)
     else if reg_phase g = PH_worker_rollback_failed \<or> reg_phase g = PH_worker_cleanup_failed
       then (persistent_failure g, g, w)
     else if reg_phase g = PH_worker_ready \<and> reg_worker_process g = process then (Inr (), g, w)
     else if reg_phase g \<noteq> PH_fork_ready
       then (lifecycle_failure EC_invalid_state
               ''dependency lifecycle worker initialization transition is invalid'', g, w)
     else
       let g = g\<lparr>reg_worker_process := process\<rparr> in
       case forward_loop (the \<circ> hk_worker_initialize) (reg_hooks g) (reg_worker_initialized_count g) w of
         (None, n, w) \<Rightarrow> (Inr (), g\<lparr>reg_worker_initialized_count := n, reg_phase := PH_worker_ready\<rparr>, w)
       | (Some e, n, w) \<Rightarrow>
           (case backward_loop (the \<circ> hk_worker_cleanup) (reg_hooks g) n None w of
              (Some first_cleanup_failure, w) \<Rightarrow>
                (Inl first_cleanup_failure,
                 set_terminal_failure PH_worker_rollback_failed first_cleanup_failure
                   (g\<lparr>reg_worker_initialized_count := 0\<rparr>), w)
            | (None, w) \<Rightarrow>
                (Inl e, g\<lparr>reg_worker_initialized_count := 0, reg_phase := PH_worker_rolled_back\<rparr>, w)))"

definition worker_cleanup ::
    "int \<Rightarrow> 'w DependencyLifecycleRegistry \<times> 'w \<Rightarrow> unit Result \<times> 'w DependencyLifecycleRegistry \<times> 'w" where
  "worker_cleanup pid = (\<lambda>(g, w).
     let process = current_process pid in
     if process = 0 \<or> process = reg_master_process g \<or> process \<noteq> reg_worker_process g
       then (lifecycle_failure EC_invalid_state
               ''dependency lifecycle worker cleanup requires worker owner'', g, w)
     else if reg_phase g = PH_worker_rollback_failed \<or> reg_phase g = PH_worker_cleanup_failed
       then (persistent_failure g, g, w)
     else if reg_phase g = PH_worker_rolled_back \<or> reg_phase g = PH_worker_cleaned then (Inr (), g, w)
     else if reg_phase g \<noteq> PH_worker_ready
       then (lifecycle_failure EC_invalid_state
               ''dependency lifecycle worker cleanup transition is invalid'', g, w)
     else
       case backward_loop (the \<circ> hk_worker_cleanup) (reg_hooks g) (reg_worker_initialized_count g) None w of
         (Some first_error, w) \<Rightarrow>
           (let g = set_terminal_failure PH_worker_cleanup_failed first_error
                      (g\<lparr>reg_worker_initialized_count := 0\<rparr>)
            in (persistent_failure g, g, w))
       | (None, w) \<Rightarrow>
           (Inr (), g\<lparr>reg_worker_initialized_count := 0, reg_phase := PH_worker_cleaned\<rparr>, w))"

definition master_cleanup ::
    "int \<Rightarrow> 'w DependencyLifecycleRegistry \<times> 'w \<Rightarrow> unit Result \<times> 'w DependencyLifecycleRegistry \<times> 'w" where
  "master_cleanup pid = (\<lambda>(g, w).
     if \<not> is_master_process pid g
       then (lifecycle_failure EC_invalid_state
               ''dependency lifecycle master cleanup requires master owner'', g, w)
     else if reg_phase g = PH_preflight_rollback_failed \<or> reg_phase g = PH_master_cleanup_failed
       then (persistent_failure g, g, w)
     else if reg_phase g = PH_master_cleaned \<or> reg_phase g = PH_preflight_failed then (Inr (), g, w)
     else if reg_phase g \<noteq> PH_preflighted \<and> reg_phase g \<noteq> PH_fork_ready
       then (lifecycle_failure EC_invalid_state
               ''dependency lifecycle master cleanup transition is invalid'', g, w)
     else
       case backward_loop (the \<circ> hk_master_cleanup) (reg_hooks g) (reg_preflighted_count g) None w of
         (Some first_error, w) \<Rightarrow>
           (let g = set_terminal_failure PH_master_cleanup_failed first_error (g\<lparr>reg_preflighted_count := 0\<rparr>)
            in (persistent_failure g, g, w))
       | (None, w) \<Rightarrow> (Inr (), g\<lparr>reg_preflighted_count := 0, reg_phase := PH_master_cleaned\<rparr>, w))"


subsection \<open>Programs with a registry\<close>

text \<open>Hooks that leave a record of every call of an action, with its dependency and its success.\<close>

datatype hook_kind = HK_preflight | HK_worker_initialize | HK_worker_cleanup | HK_master_cleanup

type_synonym hook_event = "hook_kind \<times> DependencyId \<times> bool"

definition traced_action ::
    "hook_kind \<Rightarrow> DependencyId \<Rightarrow> 'v DependencyLifecycleAction \<Rightarrow> ('v \<times> hook_event list) DependencyLifecycleAction" where
  "traced_action kind d f =
     (\<lambda>(v, log). case f v of (r, v') \<Rightarrow> (r, v', log @ [(kind, d, has_value r)]))"

definition traced_hooks ::
    "'v DependencyLifecycleHooks \<Rightarrow> ('v \<times> hook_event list) DependencyLifecycleHooks" where
  "traced_hooks h =
     \<lparr>hk_dependency = hk_dependency h,
      hk_preflight = map_option (traced_action HK_preflight (hk_dependency h)) (hk_preflight h),
      hk_worker_initialize =
        map_option (traced_action HK_worker_initialize (hk_dependency h)) (hk_worker_initialize h),
      hk_worker_cleanup = map_option (traced_action HK_worker_cleanup (hk_dependency h)) (hk_worker_cleanup h),
      hk_master_cleanup = map_option (traced_action HK_master_cleanup (hk_dependency h)) (hk_master_cleanup h),
      hk_live_state =
        map_option (\<lambda>f (v, log). case f v of (s, v') \<Rightarrow> (s, v', log)) (hk_live_state h)\<rparr>"

text \<open>The calls of a program, each with the process that makes it.\<close>

datatype 'v lifecycle_op =
    L_Register int "'v DependencyLifecycleHooks"
  | L_Preflight int
  | L_Prepare_Fork int u32
  | L_Worker_Initialize int DependencyForkEpoch
  | L_Worker_Cleanup int
  | L_Master_Cleanup int

type_synonym 'v lifecycle_state =
  "('v \<times> hook_event list) DependencyLifecycleRegistry \<times> 'v \<times> hook_event list"

fun lifecycle_exec ::
    "'v lifecycle_op \<Rightarrow> 'v lifecycle_state \<Rightarrow> (unit Result \<times> 'v lifecycle_state) option" where
  "lifecycle_exec (L_Register pid h) (g, w) =
     (case register_dependency pid (traced_hooks h) g of (r, g) \<Rightarrow> Some (r, g, w))"
| "lifecycle_exec (L_Preflight pid) s = Some (preflight pid s)"
| "lifecycle_exec (L_Prepare_Fork pid n) s =
     (case prepare_fork pid n s of (r, s) \<Rightarrow> Some (map_sum id (\<lambda>_. ()) r, s))"
| "lifecycle_exec (L_Worker_Initialize pid e) s = Some (worker_initialize pid e s)"
| "lifecycle_exec (L_Worker_Cleanup pid) s = Some (worker_cleanup pid s)"
| "lifecycle_exec (L_Master_Cleanup pid) s = Some (master_cleanup pid s)"

definition lifecycle_start :: "int \<Rightarrow> 'v \<Rightarrow> 'v lifecycle_state" where
  "lifecycle_start pid v = (lifecycle_registry pid, v, [])"

text \<open>
  What a record of calls leaves open, as a stack: a successful call of the first kind opens a
  dependency, a call of the second kind closes the one opened last. There is no result if a call
  of the second kind closes anything else.
\<close>

fun replay ::
    "hook_kind \<Rightarrow> hook_kind \<Rightarrow> hook_event list \<Rightarrow> DependencyId list \<Rightarrow> DependencyId list option" where
  "replay a r [] opened = Some opened"
| "replay a r ((k, d, ok) # es) opened =
     (if k = a then replay a r es (if ok then d # opened else opened)
      else if k = r then
        (case opened of
           [] \<Rightarrow> None
         | x # xs \<Rightarrow> if x = d then replay a r es xs else None)
      else replay a r es opened)"

section \<open>Loops and records\<close>

lemma replay_append:
  "replay a r (es @ fs) opened =
     (case replay a r es opened of None \<Rightarrow> None | Some opened' \<Rightarrow> replay a r fs opened')"
  by (induction a r es opened rule: replay.induct) (auto split: list.splits)

definition open_stack :: "nat \<Rightarrow> 'w DependencyLifecycleHooks list \<Rightarrow> DependencyId list" where
  "open_stack n hs = rev (map hk_dependency (take n hs))"

lemma open_stack_Suc: "n < length hs \<Longrightarrow> open_stack (Suc n) hs = hk_dependency (hs ! n) # open_stack n hs"
  by (simp add: open_stack_def take_Suc_conv_app_nth)

lemma open_stack_0 [simp]: "open_stack 0 hs = []"
  by (simp add: open_stack_def)

text \<open>An action that records its calls under a kind.\<close>

definition records_calls ::
    "hook_kind \<Rightarrow> ('h \<Rightarrow> DependencyId) \<Rightarrow> ('h \<Rightarrow> ('v \<times> hook_event list) DependencyLifecycleAction) \<Rightarrow> 'h list \<Rightarrow> bool" where
  "records_calls kind dep act hs \<longleftrightarrow> (\<forall>h \<in> set hs. \<exists>f. act h = traced_action kind (dep h) f)"

lemma recorded_call:
  assumes "records_calls kind dep act hs" "h \<in> set hs"
  obtains r v' where "act h (v, log) = (r, v', log @ [(kind, dep h, has_value r)])"
  using assms by (fastforce simp: records_calls_def traced_action_def split: prod.splits)

lemma forward_loop_trace:
  assumes "records_calls kind hk_dependency act hs" "n + length rest = length hs" "rest = drop n hs"
    and "forward_loop act rest n (v, log) = (res, m, v', log')" "replay kind r log [] = Some (open_stack n hs)"
  shows "m \<le> length hs" "res = None \<Longrightarrow> m = length hs" "replay kind r log' [] = Some (open_stack m hs)"
    "\<And>a b. kind \<noteq> a \<Longrightarrow> kind \<noteq> b \<Longrightarrow> replay a b log' [] = replay a b log []"
proof -
  have "m \<le> length hs \<and> (res = None \<longrightarrow> m = length hs) \<and> replay kind r log' [] = Some (open_stack m hs) \<and>
      (\<forall>a b. kind \<noteq> a \<longrightarrow> kind \<noteq> b \<longrightarrow> replay a b log' [] = replay a b log [])"
    using assms(2-5)
  proof (induction rest arbitrary: n v log)
    case Nil
    then show ?case by simp
  next
    case (Cons h rest)
    have n: "n < length hs" using Cons.prems(1) by simp
    have h: "h = hs ! n" "rest = drop (Suc n) hs"
      using Cons.prems(2) Cons_nth_drop_Suc [OF n] by (metis list.inject)+
    obtain x v1 where call: "act h (v, log) = (x, v1, log @ [(kind, hk_dependency h, has_value x)])"
      using recorded_call [OF assms(1)] n h(1) by (metis nth_mem)
    have others: "replay a b (log @ [(kind, hk_dependency h, has_value x)]) [] = replay a b log []"
      if "kind \<noteq> a" "kind \<noteq> b" for a b
      using that by (simp add: replay_append split: option.splits)
    show ?case
    proof (cases x)
      case (Inl e)
      with Cons.prems(3,4) call n others show ?thesis by (auto simp: replay_append)
    next
      case (Inr u)
      have "replay kind r (log @ [(kind, hk_dependency h, has_value x)]) [] = Some (open_stack (Suc n) hs)"
        using Cons.prems(4) Inr n h by (simp add: replay_append open_stack_Suc)
      from Cons.IH [OF _ h(2) _ this, of v1] Cons.prems(1,3) Inr call others show ?thesis by simp
    qed
  qed
  then show "m \<le> length hs" "res = None \<Longrightarrow> m = length hs" "replay kind r log' [] = Some (open_stack m hs)"
    "\<And>a b. kind \<noteq> a \<Longrightarrow> kind \<noteq> b \<Longrightarrow> replay a b log' [] = replay a b log []" by blast+
qed

lemma backward_loop_trace:
  assumes "records_calls kind hk_dependency act hs" "n \<le> length hs" "a \<noteq> kind"
    and "backward_loop act hs n first (v, log) = (res, v', log')" "replay a kind log [] = Some (open_stack n hs)"
  shows "replay a kind log' [] = Some []"
    "\<And>a b. kind \<noteq> a \<Longrightarrow> kind \<noteq> b \<Longrightarrow> replay a b log' [] = replay a b log []"
proof -
  have "replay a kind log' [] = Some [] \<and>
      (\<forall>a b. kind \<noteq> a \<longrightarrow> kind \<noteq> b \<longrightarrow> replay a b log' [] = replay a b log [])"
    using assms(2,4,5)
  proof (induction n arbitrary: first v log)
    case 0
    then show ?case by simp
  next
    case (Suc n)
    then have n: "n < length hs" by simp
    obtain x v1 where call: "act (hs ! n) (v, log) = (x, v1, log @ [(kind, hk_dependency (hs ! n), has_value x)])"
      using recorded_call [OF assms(1) nth_mem [OF n]] by metis
    have "replay a kind (log @ [(kind, hk_dependency (hs ! n), has_value x)]) [] = Some (open_stack n hs)"
      using Suc.prems(3) n assms(3) by (simp add: replay_append open_stack_Suc)
    moreover have "replay c b (log @ [(kind, hk_dependency (hs ! n), has_value x)]) [] = replay c b log []"
      if "kind \<noteq> c" "kind \<noteq> b" for c b
      using that by (simp add: replay_append split: option.splits)
    ultimately show ?case using Suc.IH [OF _ _ , of _ v1] Suc.prems(2) call n by (cases x) auto
  qed
  then show "replay a kind log' [] = Some []"
    "\<And>a b. kind \<noteq> a \<Longrightarrow> kind \<noteq> b \<Longrightarrow> replay a b log' [] = replay a b log []" by blast+
qed


section \<open>Registration\<close>

text \<open>The registered dependencies are valid, different, and at most one of them provides TLS.\<close>

definition registered_ok :: "'w DependencyLifecycleHooks list \<Rightarrow> bool" where
  "registered_ok hs \<longleftrightarrow> list_all hooks_valid hs \<and> distinct (map hk_dependency hs) \<and>
     \<not> (DI_openssl \<in> set (map hk_dependency hs) \<and> DI_libressl \<in> set (map hk_dependency hs))"

lemma registration_conflict_None:
  "registration_conflict d hs = None \<longleftrightarrow>
     d \<notin> set (map hk_dependency hs) \<and> (is_tls_provider d \<longrightarrow> (\<forall>h \<in> set hs. \<not> is_tls_provider (hk_dependency h)))"
  by (induction hs) (auto split: if_splits)

definition selectable :: "DependencyId list" where
  "selectable = [DI_yyjson, DI_nghttp2, DI_ngtcp2, DI_nghttp3, DI_c_ares, DI_pcre2_8bit, DI_zlib_ng,
     DI_brotli, DI_zstd, DI_libmaxminddb, DI_libidn2, DI_libxcrypt, DI_protobuf_c]"

lemma known_dependency:
  "d \<noteq> DI_none \<Longrightarrow> is_known_dependency_id d \<Longrightarrow> d \<in> {DI_openssl, DI_libressl} \<union> set selectable"
  by (cases d) (simp_all add: is_known_dependency_id_def selectable_def)

lemma registered_bound:
  assumes "registered_ok hs"
  shows "length hs \<le> dependency_lifecycle_capacity"
proof -
  let ?ds = "set (map hk_dependency hs)"
  have known: "?ds \<subseteq> {DI_openssl, DI_libressl} \<union> set selectable"
    using assms known_dependency by (auto simp: registered_ok_def hooks_valid_def list_all_iff)
  have "\<exists>t. ?ds \<subseteq> {t} \<union> set selectable"
    using known assms unfolding registered_ok_def by blast
  then obtain t where "?ds \<subseteq> {t} \<union> set selectable" ..
  then have "card ?ds \<le> card ({t} \<union> set selectable)" by (intro card_mono) auto
  also have "\<dots> \<le> 1 + card (set selectable)" by (metis card_Un_le card.empty card.insert finite.emptyI is_singletonI is_singleton_altdef)
  also have "card (set selectable) \<le> 13" using card_length [of selectable] by (simp add: selectable_def)
  finally have "card ?ds \<le> 14" by simp
  moreover have "length hs = card ?ds" using assms distinct_card [of "map hk_dependency hs"] by (simp add: registered_ok_def)
  ultimately show ?thesis by (simp add: dependency_lifecycle_capacity_def)
qed

lemma registered_ok_append:
  assumes "registered_ok hs" "hooks_valid h" "registration_conflict (hk_dependency h) hs = None"
  shows "registered_ok (hs @ [h])"
  using assms unfolding registered_ok_def registration_conflict_None
  by (auto simp: is_tls_provider_def)

section \<open>Invariant\<close>

text \<open>How many preflights and worker initialisations are open in a phase.\<close>

definition phase_counts :: "'w DependencyLifecycleRegistry \<Rightarrow> bool" where
  "phase_counts g \<longleftrightarrow>
     reg_preflighted_count g =
       (if reg_phase g \<in> {PH_collecting, PH_preflight_failed, PH_preflight_rollback_failed,
                          PH_master_cleaned, PH_master_cleanup_failed} then 0 else length (reg_hooks g)) \<and>
     reg_worker_initialized_count g = (if reg_phase g = PH_worker_ready then length (reg_hooks g) else 0)"

abbreviation failed_phases :: "DependencyLifecyclePhase set" where
  "failed_phases \<equiv> {PH_preflight_rollback_failed, PH_worker_rollback_failed, PH_worker_cleanup_failed,
                    PH_master_cleanup_failed}"

definition lifecycle_inv :: "'v lifecycle_state \<Rightarrow> bool" where
  "lifecycle_inv = (\<lambda>(g, v, log).
     (\<exists>raw. reg_hooks g = map traced_hooks raw) \<and> registered_ok (reg_hooks g) \<and> phase_counts g \<and>
     (reg_has_terminal_failure g \<longleftrightarrow> reg_phase g \<in> failed_phases) \<and>
     replay HK_preflight HK_master_cleanup log [] = Some (open_stack (reg_preflighted_count g) (reg_hooks g)) \<and>
     replay HK_worker_initialize HK_worker_cleanup log [] =
       Some (open_stack (reg_worker_initialized_count g) (reg_hooks g)))"

lemma hooks_record:
  assumes "reg_hooks g = map traced_hooks raw" "registered_ok (reg_hooks g)"
  shows "records_calls HK_preflight hk_dependency (the \<circ> hk_preflight) (reg_hooks g)"
    "records_calls HK_worker_initialize hk_dependency (the \<circ> hk_worker_initialize) (reg_hooks g)"
    "records_calls HK_worker_cleanup hk_dependency (the \<circ> hk_worker_cleanup) (reg_hooks g)"
    "records_calls HK_master_cleanup hk_dependency (the \<circ> hk_master_cleanup) (reg_hooks g)"
  using assms unfolding records_calls_def registered_ok_def list_all_iff hooks_valid_def traced_hooks_def
  by (auto 0 4 simp: option.the_def)

lemma quiescent_log:
  assumes "reg_hooks g = map traced_hooks raw" "registered_ok (reg_hooks g)"
    and "all_quiescent (reg_hooks g) (v, log) = (r, v', log')"
  shows "log' = log"
proof -
  have "\<forall>h \<in> set hs. \<exists>f. hk_live_state h = Some (\<lambda>(v, log). case f v of (s, v') \<Rightarrow> (s, v', log)) \<Longrightarrow>
      all_quiescent hs (v, log) = (r, v', log') \<Longrightarrow> log' = log" for hs
    by (induction hs arbitrary: v) (fastforce split: if_splits prod.splits)+
  moreover have "\<forall>h \<in> set (reg_hooks g). \<exists>f. hk_live_state h = Some (\<lambda>(v, log). case f v of (s, v') \<Rightarrow> (s, v', log))"
  proof
    fix h
    assume "h \<in> set (reg_hooks g)"
    then obtain h0 where h: "h = traced_hooks h0" using assms(1) by auto
    moreover have "hk_live_state h \<noteq> None"
      using \<open>h \<in> _\<close> assms(2) by (auto simp: registered_ok_def list_all_iff hooks_valid_def)
    ultimately show "\<exists>f. hk_live_state h = Some (\<lambda>(v, log). case f v of (s, v') \<Rightarrow> (s, v', log))"
      by (auto simp: traced_hooks_def)
  qed
  ultimately show ?thesis using assms(3) by blast
qed


lemmas lifecycle_defs = preflight_def prepare_fork_def worker_initialize_def worker_cleanup_def
  master_cleanup_def set_terminal_failure_def

lemma lifecycle_inv_hooks:
  "lifecycle_inv (g, v, log) \<Longrightarrow> (\<exists>raw. reg_hooks g = map traced_hooks raw) \<and> registered_ok (reg_hooks g)"
  by (simp add: lifecycle_inv_def)

lemma register_inv:
  assumes "lifecycle_inv (g, v, log)" "register_dependency pid (traced_hooks h) g = (r, g')"
  shows "lifecycle_inv (g', v, log)"
proof -
  let ?hs = "reg_hooks g @ [traced_hooks h]"
  consider "g' = g" | "g' = g\<lparr>reg_hooks := ?hs\<rparr>" "reg_phase g = PH_collecting" "registered_ok ?hs"
    using assms registered_ok_append
    unfolding register_dependency_def lifecycle_inv_def by (fastforce split: if_splits option.splits)
  then show ?thesis
  proof cases
    case 2
    moreover obtain raw where "reg_hooks g = map traced_hooks raw" using assms(1) by (auto simp: lifecycle_inv_def)
    moreover from this have "?hs = map traced_hooks (raw @ [h])" by simp
    ultimately show ?thesis using assms(1) by (auto simp: lifecycle_inv_def phase_counts_def intro: exI [of _ "raw @ [h]"])
  qed (use assms in simp)
qed

lemma preflight_inv:
  assumes "lifecycle_inv (g, v, log)" "preflight pid (g, v, log) = (r, g', v', log')"
  shows "lifecycle_inv (g', v', log')"
proof (cases "(g', v', log') = (g, v, log)")
  case False
  with assms(2) have phase: "reg_phase g = PH_collecting" by (auto simp: preflight_def split: if_splits)
  obtain raw where raw: "reg_hooks g = map traced_hooks raw" and ok: "registered_ok (reg_hooks g)"
    and counts: "reg_preflighted_count g = 0" "reg_worker_initialized_count g = 0"
    and logs: "replay HK_preflight HK_master_cleanup log [] = Some (open_stack 0 (reg_hooks g))"
      "replay HK_worker_initialize HK_worker_cleanup log [] = Some []"
    and fail: "\<not> reg_has_terminal_failure g"
    using assms(1) phase by (auto simp: lifecycle_inv_def phase_counts_def)
  note records = hooks_record [OF raw ok]
  obtain e n v1 log1 where fwd: "forward_loop (the \<circ> hk_preflight) (reg_hooks g) 0 (v, log) = (e, n, v1, log1)"
    by (metis prod_cases4)
  note ft = forward_loop_trace [OF records(1) _ _ fwd logs(1)]
  obtain c v2 log2 where bwd: "backward_loop (the \<circ> hk_master_cleanup) (reg_hooks g) n None (v1, log1) = (c, v2, log2)"
    by (metis prod_cases3)
  note bt = backward_loop_trace [OF records(4) _ _ bwd, of HK_preflight]
  show ?thesis
  proof (cases e)
    case None
    with assms(2) False phase fwd counts have "g' = g\<lparr>reg_preflighted_count := n, reg_phase := PH_preflighted\<rparr>" "log' = log1"
      by (auto simp: preflight_def split: if_splits)
    with None ft raw ok counts logs fail show ?thesis by (auto simp: lifecycle_inv_def phase_counts_def)
  next
    case (Some x)
    have "log' = log2" "reg_hooks g' = reg_hooks g" "reg_preflighted_count g' = 0"
        "reg_worker_initialized_count g' = 0"
        "reg_phase g' \<in> {PH_preflight_failed, PH_preflight_rollback_failed}"
        "reg_has_terminal_failure g' \<longleftrightarrow> reg_phase g' = PH_preflight_rollback_failed"
      using assms(2) False phase fwd bwd counts fail Some
      by (auto simp: preflight_def set_terminal_failure_def split: if_splits option.splits)
    with ft bt raw ok logs show ?thesis by (auto simp: lifecycle_inv_def phase_counts_def)
  qed
qed (use assms in simp)

lemma prepare_fork_inv:
  assumes "lifecycle_inv (g, v, log)" "prepare_fork pid n (g, v, log) = (r, g', v', log')"
  shows "lifecycle_inv (g', v', log')"
proof -
  obtain raw where raw: "reg_hooks g = map traced_hooks raw" and ok: "registered_ok (reg_hooks g)"
    using lifecycle_inv_hooks [OF assms(1)] by auto
  obtain q v1 log1 where q: "all_quiescent (reg_hooks g) (v, log) = (q, v1, log1)" by (metis prod_cases3)
  have "log1 = log" by (rule quiescent_log [OF raw ok q])
  let ?g = "g\<lparr>reg_fork_epoch := reg_fork_epoch g + 1, reg_phase := PH_fork_ready\<rparr>"
  have "snd (prepare_fork pid n (g, v, log)) \<in> {(g, v, log), (g, v1, log)} \<union>
      (if reg_phase g = PH_preflighted then {(?g, v1, log)} else {})"
    using q \<open>log1 = log\<close> by (cases q) (simp_all add: prepare_fork_def Let_def)
  with assms(2) consider "g' = g" "log' = log" | "reg_phase g = PH_preflighted" "g' = ?g" "log' = log"
    by (auto split: if_splits)
  then show ?thesis
    by cases (use assms(1) in \<open>simp_all add: lifecycle_inv_def phase_counts_def\<close>)
qed


lemma worker_initialize_inv:
  assumes "lifecycle_inv (g, v, log)" "worker_initialize pid epoch (g, v, log) = (r, g', v', log')"
  shows "lifecycle_inv (g', v', log')"
proof (cases "(g', v', log') = (g, v, log)")
  case False
  with assms(2) have phase: "reg_phase g = PH_fork_ready" by (auto simp: worker_initialize_def Let_def split: if_splits)
  obtain raw where raw: "reg_hooks g = map traced_hooks raw" and ok: "registered_ok (reg_hooks g)"
    and counts: "reg_preflighted_count g = length (reg_hooks g)" "reg_worker_initialized_count g = 0"
    and logs: "replay HK_worker_initialize HK_worker_cleanup log [] = Some (open_stack 0 (reg_hooks g))"
      "replay HK_preflight HK_master_cleanup log [] = Some (open_stack (length (reg_hooks g)) (reg_hooks g))"
    and fail: "\<not> reg_has_terminal_failure g"
    using assms(1) phase by (auto simp: lifecycle_inv_def phase_counts_def)
  note records = hooks_record [OF raw ok]
  obtain e n v1 log1 where fwd: "forward_loop (the \<circ> hk_worker_initialize) (reg_hooks g) 0 (v, log) = (e, n, v1, log1)"
    by (metis prod_cases4)
  note ft = forward_loop_trace [OF records(2) _ _ fwd logs(1)]
  obtain c v2 log2 where bwd: "backward_loop (the \<circ> hk_worker_cleanup) (reg_hooks g) n None (v1, log1) = (c, v2, log2)"
    by (metis prod_cases3)
  note bt = backward_loop_trace [OF records(3) _ _ bwd, of HK_worker_initialize]
  show ?thesis
  proof (cases e)
    case None
    with assms(2) False phase fwd counts have "log' = log1"
        "g' = g\<lparr>reg_worker_process := current_process pid, reg_worker_initialized_count := n, reg_phase := PH_worker_ready\<rparr>"
      by (auto simp: worker_initialize_def Let_def split: if_splits)
    with None ft raw ok counts logs fail show ?thesis by (auto simp: lifecycle_inv_def phase_counts_def)
  next
    case (Some x)
    have "log' = log2" "reg_hooks g' = reg_hooks g" "reg_preflighted_count g' = length (reg_hooks g)"
        "reg_worker_initialized_count g' = 0"
        "reg_phase g' \<in> {PH_worker_rolled_back, PH_worker_rollback_failed}"
        "reg_has_terminal_failure g' \<longleftrightarrow> reg_phase g' = PH_worker_rollback_failed"
      using assms(2) False phase fwd bwd counts fail Some
      by (auto simp: worker_initialize_def Let_def set_terminal_failure_def split: if_splits option.splits)
    with ft bt raw ok logs show ?thesis by (auto simp: lifecycle_inv_def phase_counts_def)
  qed
qed (use assms in simp)

lemma worker_cleanup_inv:
  assumes "lifecycle_inv (g, v, log)" "worker_cleanup pid (g, v, log) = (r, g', v', log')"
  shows "lifecycle_inv (g', v', log')"
proof (cases "(g', v', log') = (g, v, log)")
  case False
  with assms(2) have phase: "reg_phase g = PH_worker_ready" by (auto simp: worker_cleanup_def Let_def split: if_splits)
  obtain raw where raw: "reg_hooks g = map traced_hooks raw" and ok: "registered_ok (reg_hooks g)"
    and counts: "reg_preflighted_count g = length (reg_hooks g)" "reg_worker_initialized_count g = length (reg_hooks g)"
    and logs: "replay HK_worker_initialize HK_worker_cleanup log [] = Some (open_stack (length (reg_hooks g)) (reg_hooks g))"
      "replay HK_preflight HK_master_cleanup log [] = Some (open_stack (length (reg_hooks g)) (reg_hooks g))"
    and fail: "\<not> reg_has_terminal_failure g"
    using assms(1) phase by (auto simp: lifecycle_inv_def phase_counts_def)
  obtain c v2 log2 where bwd:
    "backward_loop (the \<circ> hk_worker_cleanup) (reg_hooks g) (length (reg_hooks g)) None (v, log) = (c, v2, log2)"
    by (metis prod_cases3)
  note bt = backward_loop_trace [OF hooks_record(3) [OF raw ok] _ _ bwd logs(1)]
  have "log' = log2" "reg_hooks g' = reg_hooks g" "reg_preflighted_count g' = length (reg_hooks g)"
      "reg_worker_initialized_count g' = 0" "reg_phase g' \<in> {PH_worker_cleaned, PH_worker_cleanup_failed}"
      "reg_has_terminal_failure g' \<longleftrightarrow> reg_phase g' = PH_worker_cleanup_failed"
    using assms(2) False phase bwd counts fail
    by (auto simp: worker_cleanup_def Let_def set_terminal_failure_def split: if_splits option.splits)
  with bt raw ok logs show ?thesis by (auto simp: lifecycle_inv_def phase_counts_def)
qed (use assms in simp)

lemma master_cleanup_inv:
  assumes "lifecycle_inv (g, v, log)" "master_cleanup pid (g, v, log) = (r, g', v', log')"
  shows "lifecycle_inv (g', v', log')"
proof (cases "(g', v', log') = (g, v, log)")
  case False
  with assms(2) have phase: "reg_phase g \<in> {PH_preflighted, PH_fork_ready}" and master: "is_master_process pid g"
    by (auto simp: master_cleanup_def split: if_splits)
  obtain raw where raw: "reg_hooks g = map traced_hooks raw" and ok: "registered_ok (reg_hooks g)"
    using lifecycle_inv_hooks [OF assms(1)] by auto
  have "phase_counts g" "reg_has_terminal_failure g \<longleftrightarrow> reg_phase g \<in> failed_phases"
    using assms(1) by (simp_all add: lifecycle_inv_def)
  with phase have counts: "reg_preflighted_count g = length (reg_hooks g)" "reg_worker_initialized_count g = 0"
    and fail: "\<not> reg_has_terminal_failure g"
    by (auto simp: phase_counts_def)
  have logs: "replay HK_preflight HK_master_cleanup log [] = Some (open_stack (length (reg_hooks g)) (reg_hooks g))"
      "replay HK_worker_initialize HK_worker_cleanup log [] = Some []"
    using assms(1) counts by (simp_all add: lifecycle_inv_def)
  obtain c v2 log2 where bwd:
    "backward_loop (the \<circ> hk_master_cleanup) (reg_hooks g) (length (reg_hooks g)) None (v, log) = (c, v2, log2)"
    by (metis prod_cases3)
  note bt = backward_loop_trace [OF hooks_record(4) [OF raw ok] _ _ bwd logs(1)]
  have "snd (master_cleanup pid (g, v, log)) =
      (case c of
         None \<Rightarrow> (g\<lparr>reg_preflighted_count := 0, reg_phase := PH_master_cleaned\<rparr>, v2, log2)
       | Some e \<Rightarrow> (set_terminal_failure PH_master_cleanup_failed e (g\<lparr>reg_preflighted_count := 0\<rparr>), v2, log2))"
    using phase master bwd counts(1) by (auto simp: master_cleanup_def Let_def split: option.split)
  then have "log' = log2" "reg_hooks g' = reg_hooks g" "reg_preflighted_count g' = 0"
      "reg_worker_initialized_count g' = 0" "reg_phase g' \<in> {PH_master_cleaned, PH_master_cleanup_failed}"
      "reg_has_terminal_failure g' \<longleftrightarrow> reg_phase g' = PH_master_cleanup_failed"
    using assms(2) counts(2) fail by (cases c; simp add: set_terminal_failure_def)+
  with bt raw ok logs show ?thesis by (auto simp: lifecycle_inv_def phase_counts_def)
qed (use assms in simp)

lemma lifecycle_exec_inv:
  assumes "lifecycle_inv s" "lifecycle_exec op s = Some (r, s')"
  shows "lifecycle_inv s'"
proof -
  obtain g v log where s: "s = (g, v, log)" by (metis prod_cases3)
  obtain g' v' log' where s': "s' = (g', v', log')" by (metis prod_cases3)
  note inv = assms(1) [unfolded s]
  show ?thesis
  proof (cases op)
    case (L_Register pid h)
    with assms(2) register_inv [OF inv] show ?thesis by (auto simp: s s' split: prod.splits)
  next
    case (L_Prepare_Fork pid n)
    with assms(2) prepare_fork_inv [OF inv] show ?thesis by (auto simp: s s' split: prod.splits)
  qed (use assms(2) preflight_inv [OF inv] worker_initialize_inv [OF inv] worker_cleanup_inv [OF inv]
         master_cleanup_inv [OF inv] in \<open>simp_all add: s s'\<close>)
qed

lemma lifecycle_exec_total: "\<exists>r s'. lifecycle_exec op s = Some (r, s')"
proof -
  have "lifecycle_exec op s \<noteq> None" by (cases s; cases op) (simp_all split: prod.split)
  then show ?thesis by auto
qed

lemma lifecycle_start_inv: "lifecycle_inv (lifecycle_start pid v)"
  by (simp add: lifecycle_start_def lifecycle_registry_def lifecycle_inv_def phase_counts_def registered_ok_def)

text \<open>Every call of a program is answered, in whatever process it is made.\<close>

interpretation lifecycle_sys: guarded_system lifecycle_exec "\<lambda>_ _. True" "lifecycle_start pid v" lifecycle_inv
proof unfold_locales
  fix op :: "'v lifecycle_op" and s :: "'v lifecycle_state"
  assume inv: "lifecycle_inv s"
  obtain r s' where "lifecycle_exec op s = Some (r, s')" using lifecycle_exec_total [of op s] by auto
  with lifecycle_exec_inv [OF inv this] show "\<exists>r s'. lifecycle_exec op s = Some (r, s') \<and> lifecycle_inv s'" by auto
qed (rule lifecycle_start_inv)

lemma run_ok_always: "run_ok exec (\<lambda>_ _. True) ops s"
  by (induction ops arbitrary: s) (auto split: option.splits)

section \<open>Properties\<close>

text \<open>
  C20: in every program, whatever the hooks do and whichever process makes each call, the hooks are
  properly nested: a master cleanup always undoes the successful preflight made last that is not yet
  undone, and a worker cleanup the worker initialisation made last. Before the preflight, after a
  failed preflight and after the master cleanup nothing is left to undo, otherwise exactly one
  preflight of every registered dependency; and outside a ready worker no initialisation is left.
\<close>

theorem lifecycle_hooks_nested:
  "\<exists>rs g v' log. run lifecycle_exec ops (lifecycle_start pid v) = Some (rs, g, v', log) \<and>
     length rs = length ops \<and>
     replay HK_preflight HK_master_cleanup log [] =
       Some (if reg_phase g \<in> {PH_collecting, PH_preflight_failed, PH_preflight_rollback_failed,
                               PH_master_cleaned, PH_master_cleanup_failed} then []
             else rev (map hk_dependency (reg_hooks g))) \<and>
     replay HK_worker_initialize HK_worker_cleanup log [] =
       Some (if reg_phase g = PH_worker_ready then rev (map hk_dependency (reg_hooks g)) else [])"
proof -
  obtain rs g v' log where s: "run lifecycle_exec ops (lifecycle_start pid v) = Some (rs, g, v', log)"
    "length rs = length ops" "lifecycle_inv (g, v', log)"
    using lifecycle_sys.run_inv [OF lifecycle_start_inv run_ok_always, of ops pid v] by auto
  show ?thesis
    by (intro exI conjI, rule s(1), rule s(2))
      (use s(3) in \<open>auto simp: lifecycle_inv_def phase_counts_def open_stack_def\<close>)
qed

text \<open>
  C21: in every state a program reaches, a dependency is registered exactly if the master calls
  before the preflight with complete hooks, the dependency is not registered yet and is not a second
  TLS provider. The capacity of the registry never refuses one.
\<close>

theorem registration_exact:
  assumes "reachable lifecycle_exec (\<lambda>_ _. True) (lifecycle_start pid v) (g, w)"
  shows "register_dependency caller (traced_hooks h) g = (Inr (), g\<lparr>reg_hooks := reg_hooks g @ [traced_hooks h]\<rparr>) \<longleftrightarrow>
     is_master_process caller g \<and> reg_phase g = PH_collecting \<and> hooks_valid h \<and>
     hk_dependency h \<notin> hk_dependency ` set (reg_hooks g) \<and>
     \<not> (is_tls_provider (hk_dependency h) \<and> (\<exists>x \<in> set (reg_hooks g). is_tls_provider (hk_dependency x)))"
proof -
  have ok: "registered_ok (reg_hooks g)"
    using lifecycle_sys.reachable_inv [OF assms] by (auto simp: lifecycle_inv_def split: prod.splits)
  have valid: "hooks_valid (traced_hooks h) = hooks_valid h" "hk_dependency (traced_hooks h) = hk_dependency h"
    by (auto simp: hooks_valid_def traced_hooks_def)
  have room: "length (reg_hooks g) \<noteq> dependency_lifecycle_capacity"
    if "hooks_valid h" "registration_conflict (hk_dependency h) (reg_hooks g) = None"
    using registered_bound [OF registered_ok_append [OF ok, of "traced_hooks h"]] that valid by simp
  have step: "register_dependency caller (traced_hooks h) g = (Inr (), g\<lparr>reg_hooks := reg_hooks g @ [traced_hooks h]\<rparr>) \<longleftrightarrow>
      is_master_process caller g \<and> reg_phase g = PH_collecting \<and> hooks_valid h \<and>
      registration_conflict (hk_dependency h) (reg_hooks g) = None"
    using room unfolding register_dependency_def lifecycle_failure_def valid by (auto split: option.splits)
  show ?thesis unfolding step registration_conflict_None by auto
qed

definition example_hooks :: "DependencyId \<Rightarrow> nat DependencyLifecycleHooks" where
  "example_hooks d =
     \<lparr>hk_dependency = d, hk_preflight = Some (\<lambda>v. (Inr (), v + 1)),
      hk_worker_initialize = Some (\<lambda>v. (Inr (), v)), hk_worker_cleanup = Some (\<lambda>v. (Inr (), v)),
      hk_master_cleanup = Some (\<lambda>v. (Inr (), v - 1)), hk_live_state =
        Some (\<lambda>v. (\<lparr>live_sessions = 0, live_contexts = of_nat v, live_threads = 0, live_callbacks = 0\<rparr>, v))\<rparr>"

text \<open>Witness: a new registry takes its first dependency.\<close>

theorem registration_exact_witness:
  "fst (register_dependency 7 (traced_hooks (example_hooks DI_zstd)) (fst (lifecycle_start 7 (0::nat)))) = Inr ()"
proof -
  have "reachable lifecycle_exec (\<lambda>_ _. True) (lifecycle_start 7 (0::nat))
      (fst (lifecycle_start 7 (0::nat)), snd (lifecycle_start 7 (0::nat)))"
    by (simp add: reachable_start)
  from registration_exact [OF this, of 7 "example_hooks DI_zstd"] show ?thesis
    by (simp add: lifecycle_start_def lifecycle_registry_def is_master_process_def current_process_def
        hooks_valid_def example_hooks_def is_known_dependency_id_def is_tls_provider_def)
qed

text \<open>
  C22: after a failed preflight, after the master cleanup and after a worker has rolled back or been
  cleaned up, the lifecycle is over: no sequence of calls by any process changes the registry again or
  runs another hook.
\<close>

theorem terminal_phase_final:
  assumes "reg_phase g \<in> {PH_preflight_failed, PH_preflight_rollback_failed, PH_master_cleaned,
      PH_master_cleanup_failed, PH_worker_rolled_back, PH_worker_rollback_failed, PH_worker_cleaned,
      PH_worker_cleanup_failed}"
  shows "\<exists>rs. run lifecycle_exec ops (g, w) = Some (rs, g, w)"
proof (induction ops)
  case (Cons op ops)
  have "\<exists>r. lifecycle_exec op (g, w) = Some (r, g, w)"
    using assms by (cases op) (auto simp: lifecycle_defs register_dependency_def Let_def)
  with Cons.IH show ?case by auto
qed simp

text \<open>Witness: the master cleans up before any dependency is registered and calls again.\<close>

theorem terminal_phase_final_witness:
  "\<exists>rs g w. run lifecycle_exec [L_Preflight 7, L_Master_Cleanup 7] (lifecycle_start 7 (0::nat)) = Some (rs, g, w) \<and>
     (\<exists>rs'. run lifecycle_exec [L_Preflight 7, L_Prepare_Fork 7 1, L_Master_Cleanup 7] (g, w) = Some (rs', g, w))"
proof -
  obtain rs g w where s: "run lifecycle_exec [L_Preflight 7, L_Master_Cleanup 7] (lifecycle_start 7 (0::nat)) = Some (rs, g, w)"
    "reg_phase g = PH_master_cleaned"
    by (simp add: lifecycle_start_def lifecycle_registry_def lifecycle_defs is_master_process_def current_process_def)
  from terminal_phase_final [of g _ w] s(2)
  have "\<exists>rs'. run lifecycle_exec [L_Preflight 7, L_Prepare_Fork 7 1, L_Master_Cleanup 7] (g, w) = Some (rs', g, w)" by blast
  with s(1) show ?thesis by blast
qed

end
