(* ===== verification/Password_Auth.thy ===== *)
theory Password_Auth
  imports Dependency_Errors Views Identifiers
begin

text \<open>
  \<open>src/adapters/password_auth.cpp\<close>, its contract header and the private header with
  \<open>SecretPassword\<close>: verification of a password against an encoded bcrypt or SHA-512 hash. Texts are
  lists of bytes read from an explicit memory; every comparison of a \<open>char\<close> in the code is against
  ASCII characters, where signed and unsigned bytes agree. \<open>crypt_r\<close> of libxcrypt is a parameter: a
  function of the two C strings it is given and of the state of the outside world, whose answer
  is a null pointer or the memory behind the returned pointer, and \<open>errno\<close>. The lemmas show that the
  parser accepts exactly the two grammars, that the comparison without early exit decides equality,
  and which requests reach the native library.
\<close>

section \<open>Definitions\<close>

definition ascii :: "string \<Rightarrow> byte list" where
  "ascii s = map of_char s"

definition maximum_supported_password_bytes :: nat where
  "maximum_supported_password_bytes = 511"

record PasswordVerificationLimits =
  lim_maximum_password_bytes :: size_t
  lim_minimum_bcrypt_cost :: u32
  lim_maximum_bcrypt_cost :: u32
  lim_minimum_sha512_rounds :: u32
  lim_maximum_sha512_rounds :: u32

record PasswordAuthWorker =
  aw_worker :: WorkerId
  aw_maximum_in_flight :: size_t
  aw_active :: size_t

definition password_auth_worker :: "WorkerId \<Rightarrow> size_t \<Rightarrow> PasswordAuthWorker" where
  "password_auth_worker worker maximum_in_flight =
     \<lparr>aw_worker = worker, aw_maximum_in_flight = maximum_in_flight, aw_active = 0\<rparr>"

definition encoded_password_capacity :: nat where "encoded_password_capacity = 256"
definition password_c_string_capacity :: nat where
  "password_c_string_capacity = maximum_supported_password_bytes + 1"
definition bcrypt_minimum_cost :: u32 where "bcrypt_minimum_cost = 4"
definition bcrypt_maximum_cost :: u32 where "bcrypt_maximum_cost = 31"
definition sha512_minimum_rounds :: u32 where "sha512_minimum_rounds = 1000"
definition sha512_maximum_rounds :: u32 where "sha512_maximum_rounds = 999999999"
definition sha512_crypt_standard_rounds :: u32 where "sha512_crypt_standard_rounds = 5000"

datatype PasswordScheme = PS_bcrypt | PS_sha512

record ParsedPasswordHash =
  parsed_scheme :: PasswordScheme
  parsed_work_factor :: u32

text \<open>The lease of one slot: its constructor counts the slot, its destructor gives it back.\<close>

definition lease_begin :: "PasswordAuthWorker \<Rightarrow> PasswordAuthWorker" where
  "lease_begin aw = aw\<lparr>aw_active := aw_active aw + 1\<rparr>"

definition lease_end :: "PasswordAuthWorker \<Rightarrow> PasswordAuthWorker" where
  "lease_end aw = aw\<lparr>aw_active := aw_active aw - 1\<rparr>"

definition is_crypt_character :: "byte \<Rightarrow> bool" where
  "is_crypt_character character \<longleftrightarrow>
     character \<ge> of_char (CHR ''a'') \<and> character \<le> of_char (CHR ''z'') \<or>
     character \<ge> of_char (CHR ''A'') \<and> character \<le> of_char (CHR ''Z'') \<or>
     character \<ge> of_char (CHR ''0'') \<and> character \<le> of_char (CHR ''9'') \<or>
     character = of_char (CHR ''.'') \<or> character = of_char (CHR ''/'')"

definition input_error :: "ErrorCode \<Rightarrow> string \<Rightarrow> Error" where
  "input_error code diagnostic = core_error code diagnostic"

definition validate_limits :: "PasswordVerificationLimits \<Rightarrow> unit Result" where
  "validate_limits limits =
     (if lim_maximum_password_bytes limits = 0 \<or>
         unat (lim_maximum_password_bytes limits) > maximum_supported_password_bytes \<or>
         lim_minimum_bcrypt_cost limits < bcrypt_minimum_cost \<or>
         lim_maximum_bcrypt_cost limits > bcrypt_maximum_cost \<or>
         lim_minimum_bcrypt_cost limits > lim_maximum_bcrypt_cost limits \<or>
         lim_minimum_sha512_rounds limits < sha512_minimum_rounds \<or>
         lim_maximum_sha512_rounds limits > sha512_maximum_rounds \<or>
         lim_minimum_sha512_rounds limits > lim_maximum_sha512_rounds limits
        then Inl (input_error EC_invalid_input ''password verification limits are invalid'')
      else Inr ())"

primrec parse_digits :: "byte list \<Rightarrow> u32 \<Rightarrow> u32 option" where
  "parse_digits [] parsed = Some parsed"
| "parse_digits (character # rest) parsed =
     (if character < of_char (CHR ''0'') \<or> character > of_char (CHR ''9'') then None
      else
        let digit = ucast (character - of_char (CHR ''0'')) :: u32 in
        if parsed > (umax - digit) div 10 then None
        else parse_digits rest (parsed * 10 + digit))"

definition parse_decimal :: "byte list \<Rightarrow> u32 option" where
  "parse_decimal txt = (if txt = [] then None else parse_digits txt 0)"

definition parse_bcrypt :: "byte list \<Rightarrow> ParsedPasswordHash Result" where
  "parse_bcrypt encoded_hash =
     (if length encoded_hash \<noteq> 60 \<or> encoded_hash ! 0 \<noteq> of_char (CHR ''$'') \<or>
         encoded_hash ! 1 \<noteq> of_char (CHR ''2'') \<or>
         (encoded_hash ! 2 \<noteq> of_char (CHR ''a'') \<and> encoded_hash ! 2 \<noteq> of_char (CHR ''b'') \<and>
          encoded_hash ! 2 \<noteq> of_char (CHR ''y'')) \<or>
         encoded_hash ! 3 \<noteq> of_char (CHR ''$'') \<or> encoded_hash ! 6 \<noteq> of_char (CHR ''$'')
        then Inl (input_error EC_invalid_input ''bcrypt encoding is malformed'')
      else case parse_decimal (take 2 (drop 4 encoded_hash)) of
        None \<Rightarrow> Inl (input_error EC_invalid_input ''bcrypt work factor is malformed'')
      | Some cost \<Rightarrow>
          if cost < bcrypt_minimum_cost \<or> cost > bcrypt_maximum_cost
            then Inl (input_error EC_invalid_input ''bcrypt work factor is malformed'')
          else if \<not> list_all is_crypt_character (drop 7 encoded_hash)
            then Inl (input_error EC_invalid_input ''bcrypt encoding is malformed'')
          else Inr \<lparr>parsed_scheme = PS_bcrypt, parsed_work_factor = cost\<rparr>)"

text \<open>\<open>string_view::starts_with\<close> and \<open>string_view::find\<close>.\<close>

definition starts_with :: "byte list \<Rightarrow> byte list \<Rightarrow> bool" where
  "starts_with txt start \<longleftrightarrow> take (length start) txt = start"

definition find_from :: "byte \<Rightarrow> byte list \<Rightarrow> nat \<Rightarrow> nat option" where
  "find_from c txt cursor =
     (let before = takeWhile (\<lambda>x. x \<noteq> c) (drop cursor txt)
      in if cursor + length before < length txt then Some (cursor + length before) else None)"

definition parse_sha512_rest :: "byte list \<Rightarrow> nat \<Rightarrow> u32 \<Rightarrow> ParsedPasswordHash Result" where
  "parse_sha512_rest encoded_hash cursor rounds =
     (case find_from (of_char (CHR ''$'')) encoded_hash cursor of
        None \<Rightarrow> Inl (input_error EC_invalid_input ''SHA-512 crypt salt is malformed'')
      | Some salt_end \<Rightarrow>
          if salt_end = cursor \<or> salt_end - cursor > 16
            then Inl (input_error EC_invalid_input ''SHA-512 crypt salt is malformed'')
          else if \<not> list_all is_crypt_character (take (salt_end - cursor) (drop cursor encoded_hash))
            then Inl (input_error EC_invalid_input ''SHA-512 crypt salt is malformed'')
          else
            let checksum = drop (salt_end + 1) encoded_hash in
            if length checksum \<noteq> 86
              then Inl (input_error EC_invalid_input ''SHA-512 crypt checksum is malformed'')
            else if \<not> list_all is_crypt_character checksum
              then Inl (input_error EC_invalid_input ''SHA-512 crypt checksum is malformed'')
            else Inr \<lparr>parsed_scheme = PS_sha512, parsed_work_factor = rounds\<rparr>)"

definition parse_sha512 :: "byte list \<Rightarrow> ParsedPasswordHash Result" where
  "parse_sha512 encoded_hash =
     (if \<not> starts_with encoded_hash (ascii ''$6$'')
        then Inl (input_error EC_invalid_input ''SHA-512 crypt encoding is malformed'')
      else
        let cursor = 3; rounds = sha512_crypt_standard_rounds in
        if starts_with (drop cursor encoded_hash) (ascii ''rounds='')
          then
            let cursor = cursor + 7;
                malformed = Inl (input_error EC_invalid_input ''SHA-512 crypt rounds are malformed'')
            in
            (case find_from (of_char (CHR ''$'')) encoded_hash cursor of
               None \<Rightarrow> malformed
             | Some rounds_end \<Rightarrow>
                 (case parse_decimal (take (rounds_end - cursor) (drop cursor encoded_hash)) of
                    None \<Rightarrow> malformed
                  | Some rounds \<Rightarrow>
                      if rounds < sha512_minimum_rounds \<or> rounds > sha512_maximum_rounds then malformed
                      else parse_sha512_rest encoded_hash (rounds_end + 1) rounds))
        else parse_sha512_rest encoded_hash cursor rounds)"

definition parse_password_hash :: "byte list \<Rightarrow> ParsedPasswordHash Result" where
  "parse_password_hash encoded_hash =
     (if starts_with encoded_hash (ascii ''$2'') then parse_bcrypt encoded_hash
      else if starts_with encoded_hash (ascii ''$6$'') then parse_sha512 encoded_hash
      else Inl (input_error EC_invalid_input ''password scheme is not permitted''))"

definition validate_work_factor :: "ParsedPasswordHash \<Rightarrow> PasswordVerificationLimits \<Rightarrow> unit Result" where
  "validate_work_factor parsed limits =
     (if parsed_scheme parsed = PS_bcrypt \<and>
         (parsed_work_factor parsed < lim_minimum_bcrypt_cost limits \<or>
          parsed_work_factor parsed > lim_maximum_bcrypt_cost limits) \<or>
         parsed_scheme parsed = PS_sha512 \<and>
         (parsed_work_factor parsed < lim_minimum_sha512_rounds limits \<or>
          parsed_work_factor parsed > lim_maximum_sha512_rounds limits)
        then Inl (input_error EC_invalid_range ''password work factor is outside caller limits'')
      else Inr ())"

text \<open>The bytes behind the returned pointer are read up to the first NUL, at most the capacity.\<close>

definition bounded_crypt_output :: "(nat \<Rightarrow> byte) option \<Rightarrow> byte list Result" where
  "bounded_crypt_output v =
     (case v of
        None \<Rightarrow> Inl (make_error Dom_dependency EC_dependency 0 ''libxcrypt returned no password result'')
      | Some p \<Rightarrow>
          (case List.find (\<lambda>index. p index = 0) [0 ..< encoded_password_capacity] of
             Some index \<Rightarrow> Inr (map p [0 ..< index])
           | None \<Rightarrow> Inl (make_error Dom_dependency EC_corrupt_data 0
                            ''libxcrypt output exceeded bounded capacity'')))"

definition constant_time_hash_equal :: "byte list \<Rightarrow> byte list \<Rightarrow> bool" where
  "constant_time_hash_equal expected actual =
     (let expected_bytes = write_at (replicate encoded_password_capacity 0) 0 expected;
          actual_bytes = write_at (replicate encoded_password_capacity 0) 0 actual;
          difference = foldl (\<lambda>difference index.
              difference OR (ucast (expected_bytes ! index XOR actual_bytes ! index) :: 32 word))
            0 [0 ..< encoded_password_capacity]
      in difference = 0)"

definition crypt_status :: "int \<Rightarrow> DependencyStatus" where
  "crypt_status native_code =
     (if native_code = EINVAL then DS_invalid_input
      else if native_code = ERANGE then DS_invalid_range
      else if native_code = ENOMEM then DS_exhaustion
      else if native_code = ENOSYS \<or> native_code = ENOTSUP \<or> native_code = EOPNOTSUPP then DS_unavailable
      else DS_io)"

definition password_auth_native_error :: "32 word \<Rightarrow> 'w DependencyLogSink \<Rightarrow> 'w \<Rightarrow> Error \<times> 'w" where
  "password_auth_native_error native_code log_sink w =
     (let e = normalize_dependency_error DI_libxcrypt OP_password_verify
                (crypt_status (sint native_code)) native_code
      in (e, log_dependency_error log_sink e w))"


subsection \<open>The secret copy of a password\<close>

record SecretPassword =
  secret_bytes :: "byte list"
  secret_size :: size_t

definition empty_secret :: SecretPassword where
  "empty_secret = \<lparr>secret_bytes = replicate password_c_string_capacity 0, secret_size = 0\<rparr>"

text \<open>
  The loop that overwrites the bytes writes through a volatile reference, so that it is part of the
  observable behaviour; it is recorded by the bytes it overwrites.
\<close>

type_synonym wipes = "byte list list"

definition secret_cleanse :: "SecretPassword \<Rightarrow> SecretPassword \<times> wipes" where
  "secret_cleanse s =
     (s\<lparr>secret_bytes := map (\<lambda>_. 0) (secret_bytes s), secret_size := 0\<rparr>, [secret_bytes s])"

text \<open>The destructor, with the storage it leaves behind.\<close>

definition secret_destroy :: "SecretPassword \<Rightarrow> SecretPassword \<times> wipes" where
  "secret_destroy s = secret_cleanse s"

text \<open>Moving out of a secret, and constructing one from another: the new value and the source.\<close>

definition secret_move_from :: "SecretPassword \<Rightarrow> SecretPassword \<Rightarrow> (SecretPassword \<times> SecretPassword) \<times> wipes" where
  "secret_move_from this_secret other =
     (let this_secret = this_secret\<lparr>secret_bytes := secret_bytes other, secret_size := secret_size other\<rparr>;
          (other, wiped) = secret_cleanse other
      in ((this_secret, other), wiped))"

definition secret_move_construct :: "SecretPassword \<Rightarrow> (SecretPassword \<times> SecretPassword) \<times> wipes" where
  "secret_move_construct other = secret_move_from empty_secret other"

text \<open>Assignment between two of a program's secrets, which are compared by address and may be the same.\<close>

definition secret_move_assign :: "nat \<Rightarrow> nat \<Rightarrow> SecretPassword list \<Rightarrow> SecretPassword list \<times> wipes" where
  "secret_move_assign this_address other_address secrets =
     (if this_address \<noteq> other_address
      then let (this_secret, wiped) = secret_cleanse (secrets ! this_address);
               ((this_secret, other), wiped') = secret_move_from this_secret (secrets ! other_address)
           in (secrets[this_address := this_secret, other_address := other], wiped @ wiped')
      else (secrets, []))"

text \<open>The loop of \<open>from\<close> fills the local secret until it ends or meets a zero.\<close>

primrec secret_copy :: "byte list \<Rightarrow> nat \<Rightarrow> SecretPassword \<Rightarrow> unit Result \<times> SecretPassword" where
  "secret_copy [] index output = (Inr (), output)"
| "secret_copy (character # rest) index output =
     (if character = 0 then (Inl (core_error EC_invalid_input ''text contains an embedded NUL''), output)
      else secret_copy rest (index + 1)
             (output\<lparr>secret_bytes := (secret_bytes output)[index := character]\<rparr>))"

text \<open>The local secret is destroyed at the end; on success it is moved to the result before.\<close>

definition secret_from :: "memory \<Rightarrow> TextView \<Rightarrow> SecretPassword Result \<times> wipes" where
  "secret_from m password =
     (if unat (sp_size password) \<ge> password_c_string_capacity
        then (Inl (core_error EC_invalid_range ''text does not fit including terminator''), [])
      else case secret_copy (span_bytes m password) 0 empty_secret of
        (Inl e, output) \<Rightarrow> (Inl e, snd (secret_destroy output))
      | (Inr _, output) \<Rightarrow>
          let output = output\<lparr>secret_size := sp_size password\<rparr>;
              ((result, output), wiped) = secret_move_construct output
          in (Inr result, wiped @ snd (secret_destroy output)))"

definition secret_view :: "SecretPassword \<Rightarrow> byte list" where
  "secret_view s = take (unat (secret_size s)) (secret_bytes s)"

definition secret_c_str :: "SecretPassword \<Rightarrow> byte list" where
  "secret_c_str s = takeWhile (\<lambda>b. b \<noteq> 0) (secret_bytes s)"

definition is_cleansed :: "SecretPassword \<Rightarrow> bool" where
  "is_cleansed s \<longleftrightarrow> secret_size s = 0 \<and> list_all (\<lambda>b. b = 0) (secret_bytes s)"

subsection \<open>Verification\<close>

type_synonym 'w crypt = "byte list \<Rightarrow> byte list \<Rightarrow> 'w \<Rightarrow> (nat \<Rightarrow> byte) option \<times> int \<times> 'w"

definition verify_with_slot ::
    "'w crypt \<Rightarrow> SecretPassword \<Rightarrow> StaticCString \<Rightarrow> 'w DependencyLogSink \<Rightarrow> 'w \<Rightarrow> bool Result \<times> 'w" where
  "verify_with_slot crypt_r bounded_password bounded_hash log_sink w =
     (case crypt_r (secret_c_str bounded_password) (c_str bounded_hash) w of
        (native_result, errno, w) \<Rightarrow>
          if native_result = None \<or> the native_result 0 = of_char (CHR ''*'')
            then (case password_auth_native_error (word_of_int errno) log_sink w of (e, w) \<Rightarrow> (Inl e, w))
          else case bounded_crypt_output native_result of
            Inl _ \<Rightarrow>
              let e = normalize_dependency_error DI_libxcrypt OP_password_verify DS_corrupt_data 0
              in (Inl e, log_dependency_error log_sink e w)
          | Inr output \<Rightarrow> (Inr (constant_time_hash_equal (c_string_view bounded_hash) output), w))"

text \<open>The request behind the copy of the password.\<close>

definition verify_bounded ::
    "'w crypt \<Rightarrow> memory \<Rightarrow> SecretPassword \<Rightarrow> TextView \<Rightarrow> TextView \<Rightarrow> PasswordVerificationLimits \<Rightarrow>
     'w DependencyLogSink \<Rightarrow> PasswordAuthWorker \<Rightarrow> 'w \<Rightarrow> bool Result \<times> PasswordAuthWorker \<times> 'w" where
  "verify_bounded crypt_r m bounded_password password encoded_hash limits log_sink auth_worker w =
     (case to_c_string encoded_password_capacity m encoded_hash of
       Inl e \<Rightarrow> (Inl e, auth_worker, w)
     | Inr bounded_hash \<Rightarrow>
     case parse_password_hash (c_string_view bounded_hash) of
       Inl e \<Rightarrow> (Inl e, auth_worker, w)
     | Inr parsed_hash \<Rightarrow>
     if parsed_scheme parsed_hash = PS_bcrypt \<and> sp_size password > 72
       then (Inl (input_error EC_invalid_range ''bcrypt password exceeds 72 bytes''), auth_worker, w)
     else case validate_work_factor parsed_hash limits of
       Inl e \<Rightarrow> (Inl e, auth_worker, w)
     | Inr _ \<Rightarrow>
     if aw_active auth_worker \<ge> aw_maximum_in_flight auth_worker
       then (Inl (input_error EC_exhaustion ''password auth worker capacity is exhausted''), auth_worker, w)
     else
       let auth_worker = lease_begin auth_worker in
       case verify_with_slot crypt_r bounded_password bounded_hash log_sink w of
         (r, w) \<Rightarrow> (r, lease_end auth_worker, w))"

text \<open>
  The whole function with what it wipes: the secret is destroyed on every way out of its scope. Callers
  see its first component.
\<close>

definition verify_password_wiping ::
    "'w crypt \<Rightarrow> memory \<Rightarrow> WorkerId \<Rightarrow> TextView \<Rightarrow> TextView \<Rightarrow> PasswordVerificationLimits \<Rightarrow>
     'w DependencyLogSink \<Rightarrow> PasswordAuthWorker \<times> 'w \<Rightarrow> (bool Result \<times> PasswordAuthWorker \<times> 'w) \<times> wipes" where
  "verify_password_wiping crypt_r m worker password encoded_hash limits log_sink = (\<lambda>(auth_worker, w).
     case validate_limits limits of
       Inl e \<Rightarrow> ((Inl e, auth_worker, w), [])
     | Inr _ \<Rightarrow>
     if sid_value (aw_worker auth_worker) \<noteq> sid_value worker
       then ((Inl (input_error EC_invalid_state ''password work requires its designated auth worker''),
             auth_worker, w), [])
     else if aw_maximum_in_flight auth_worker = 0
       then ((Inl (input_error EC_invalid_input ''password auth worker requires a positive bound''),
             auth_worker, w), [])
     else if sp_size password > lim_maximum_password_bytes limits
       then ((Inl (input_error EC_invalid_range ''password exceeds caller limit''), auth_worker, w), [])
     else case secret_from m password of
       (Inl e, wiped) \<Rightarrow> ((Inl e, auth_worker, w), wiped)
     | (Inr bounded_password, wiped) \<Rightarrow>
         (verify_bounded crypt_r m bounded_password password encoded_hash limits log_sink auth_worker w,
          wiped @ snd (secret_destroy bounded_password)))"

definition verify_password ::
    "'w crypt \<Rightarrow> memory \<Rightarrow> WorkerId \<Rightarrow> TextView \<Rightarrow> TextView \<Rightarrow> PasswordVerificationLimits \<Rightarrow>
     'w DependencyLogSink \<Rightarrow> PasswordAuthWorker \<times> 'w \<Rightarrow> bool Result \<times> PasswordAuthWorker \<times> 'w" where
  "verify_password crypt_r m worker password encoded_hash limits log_sink s =
     fst (verify_password_wiping crypt_r m worker password encoded_hash limits log_sink s)"


section \<open>Decimal numbers\<close>

definition is_decimal_byte :: "byte \<Rightarrow> bool" where
  "is_decimal_byte c \<longleftrightarrow> 48 \<le> c \<and> c \<le> 57"

definition digits_value :: "byte list \<Rightarrow> nat \<Rightarrow> nat" where
  "digits_value ds n = decimal_value unat ds n"

lemma digits_value_simps [simp]:
  "digits_value [] n = n" "digits_value (d # ds) n = digits_value ds (n * 10 + (unat d - 48))"
  by (simp_all add: digits_value_def)

lemma digits_value_ge: "n \<le> digits_value ds n"
  by (simp add: digits_value_def decimal_value_ge)

lemma unat_ucast_byte: "unat (ucast (c :: byte) :: u32) = unat c"
  by (simp add: unsigned_ucast_eq take_bit_nat_eq_self unat_bound less_trans [OF unat_bound])

lemma unat_digit: "is_decimal_byte c \<Longrightarrow> unat (ucast (c - 48) :: u32) = unat c - 48 \<and> unat c - 48 \<le> 9"
  unfolding unat_ucast_byte by (auto simp: is_decimal_byte_def word_le_nat_alt unat_sub)

lemma digit_fits:
  fixes p d :: u32
  assumes "unat d \<le> 9"
  shows "p > (umax - d) div 10 \<longleftrightarrow> unat p * 10 + unat d \<ge> 2 ^ 32"
    and "unat p * 10 + unat d < 2 ^ 32 \<Longrightarrow> unat (p * 10 + d) = unat p * 10 + unat d"
proof -
  have "unat (umax - d) = 2 ^ 32 - 1 - unat d"
    by (simp add: unat_umax_minus)
  then have "unat ((umax - d) div 10) = (2 ^ 32 - 1 - unat d) div 10" by (simp add: unat_div)
  then show "p > (umax - d) div 10 \<longleftrightarrow> unat p * 10 + unat d \<ge> 2 ^ 32"
    using assms by (simp add: word_less_nat_alt) arith
  show "unat (p * 10 + d) = unat p * 10 + unat d" if "unat p * 10 + unat d < 2 ^ 32"
    using that by (simp add: unat_word_ariths)
qed

lemma parse_digits_exact:
  "parse_digits ds p = Some v \<longleftrightarrow> list_all is_decimal_byte ds \<and> digits_value ds (unat p) = unat v"
proof (induction ds arbitrary: p)
  case (Cons c ds)
  show ?case
  proof (cases "is_decimal_byte c")
    case True
    let ?d = "ucast (c - 48) :: u32"
    have d: "unat ?d = unat c - 48" "unat ?d \<le> 9" using unat_digit [OF True] by simp_all
    show ?thesis
    proof (cases "unat p * 10 + unat ?d < 2 ^ 32")
      case fits: True
      then show ?thesis
        using True d digit_fits [OF d(2), of p] Cons.IH [of "p * 10 + ?d"]
        by (auto simp: is_decimal_byte_def Let_def)
    next
      case False
      then have "unat v < digits_value ds (unat p * 10 + unat ?d)"
        using digits_value_ge [of "unat p * 10 + unat ?d" ds] unat_bound [of v] by simp
      then show ?thesis
        using True False d digit_fits(1) [OF d(2), of p] by (auto simp: is_decimal_byte_def Let_def)
    qed
  qed (auto simp: is_decimal_byte_def not_le)
qed (auto simp: word_unat_eq_iff)

lemma parse_decimal_exact:
  "parse_decimal ds = Some v \<longleftrightarrow> ds \<noteq> [] \<and> list_all is_decimal_byte ds \<and> digits_value ds 0 = unat v"
  by (simp add: parse_decimal_def parse_digits_exact)

section \<open>Comparison\<close>

lemma foldl_or_zero:
  "foldl (\<lambda>a i. a OR f i) (a :: 'a::len word) xs = 0 \<longleftrightarrow> a = 0 \<and> (\<forall>i \<in> set xs. f i = 0)"
  by (induction xs arbitrary: a) (auto simp: or_eq_0_iff)

lemma ucast_xor_zero: "(ucast (x XOR y :: byte) :: 32 word) = 0 \<longleftrightarrow> x = y"
proof
  assume "(ucast (x XOR y :: byte) :: 32 word) = 0"
  then have "unat (x XOR y) = 0" by (metis unat_ucast_byte unat_0)
  then have "x XOR y = 0" by (simp add: unat_eq_0)
  then have "(x XOR y) XOR y = y" by simp
  then show "x = y" by (simp add: xor.assoc)
qed simp

lemma constant_time_hash_equal_iff:
  assumes "length xs \<le> encoded_password_capacity" "length ys \<le> encoded_password_capacity"
    "0 \<notin> set xs" "0 \<notin> set ys"
  shows "constant_time_hash_equal xs ys \<longleftrightarrow> xs = ys"
proof -
  let ?pad = "\<lambda>zs. zs @ replicate (encoded_password_capacity - length zs) (0 :: byte)"
  have strip: "takeWhile (\<lambda>b. b \<noteq> 0) (?pad zs) = zs" if "0 \<notin> set zs" for zs
  proof -
    have "takeWhile (\<lambda>b. b \<noteq> 0) (replicate n (0 :: byte)) = []" for n by (cases n) simp_all
    then show ?thesis using that by (subst takeWhile_append2) auto
  qed
  have "constant_time_hash_equal xs ys \<longleftrightarrow> (\<forall>i < encoded_password_capacity. ?pad xs ! i = ?pad ys ! i)"
    using assms(1,2)
    by (simp add: constant_time_hash_equal_def foldl_or_zero ucast_xor_zero write_at_0 Ball_def)
  also have "\<dots> \<longleftrightarrow> ?pad xs = ?pad ys"
    using assms(1,2) by (auto simp: list_eq_iff_nth_eq)
  also have "\<dots> \<longleftrightarrow> xs = ys" using strip assms(3,4) by metis
  finally show ?thesis .
qed

lemma bounded_crypt_output_Inr:
  "bounded_crypt_output (Some p) = Inr bs \<longleftrightarrow>
   (\<exists>i < encoded_password_capacity. p i = 0 \<and> (\<forall>j < i. p j \<noteq> 0) \<and> bs = map p [0 ..< i])"
proof (cases "List.find (\<lambda>i. p i = 0) [0 ..< encoded_password_capacity]")
  case None
  then have "\<not> (i < encoded_password_capacity \<and> p i = 0)" for i by (simp add: find_None_iff)
  moreover have "bounded_crypt_output (Some p) \<noteq> Inr bs" unfolding bounded_crypt_output_def using None by simp
  ultimately show ?thesis by metis
next
  case (Some k)
  then have k: "k < encoded_password_capacity" "p k = 0" "\<forall>j < k. p j \<noteq> 0"
    by (auto simp: find_Some_iff)
  have unique: "i = k" if "p i = 0" "\<forall>j < i. p j \<noteq> 0" for i
    using that k by (cases i k rule: linorder_cases) auto
  have "bounded_crypt_output (Some p) = Inr (map p [0 ..< k])"
    unfolding bounded_crypt_output_def using Some by simp
  moreover have "(\<exists>i < encoded_password_capacity. p i = 0 \<and> (\<forall>j < i. p j \<noteq> 0) \<and> bs = map p [0 ..< i]) \<longleftrightarrow>
      bs = map p [0 ..< k]"
    using k unique by metis
  ultimately show ?thesis by auto
qed


section \<open>Grammar\<close>

abbreviation dollar :: byte where
  "dollar \<equiv> 36"

lemma ascii_simps [simp]: "ascii [] = []" "ascii (c # cs) = of_char c # ascii cs"
  by (simp_all add: ascii_def)

definition bcrypt_encoding :: "ParsedPasswordHash \<Rightarrow> byte list \<Rightarrow> bool" where
  "bcrypt_encoding p s \<longleftrightarrow> (\<exists>minor cost rest.
     s = ascii ''$2'' @ [minor] @ ascii ''$'' @ cost @ ascii ''$'' @ rest \<and>
     minor \<in> set (ascii ''aby'') \<and> length cost = 2 \<and> list_all is_decimal_byte cost \<and>
     4 \<le> digits_value cost 0 \<and> digits_value cost 0 \<le> 31 \<and>
     length rest = 53 \<and> list_all is_crypt_character rest \<and>
     p = \<lparr>parsed_scheme = PS_bcrypt, parsed_work_factor = of_nat (digits_value cost 0)\<rparr>)"

definition sha512_encoding :: "ParsedPasswordHash \<Rightarrow> byte list \<Rightarrow> bool" where
  "sha512_encoding p s \<longleftrightarrow> (\<exists>rounds salt checksum.
     s = ascii ''$6$'' @ (case rounds of None \<Rightarrow> [] | Some ds \<Rightarrow> ascii ''rounds='' @ ds @ ascii ''$'') @
         salt @ ascii ''$'' @ checksum \<and>
     (case rounds of None \<Rightarrow> True
      | Some ds \<Rightarrow> ds \<noteq> [] \<and> list_all is_decimal_byte ds \<and> 1000 \<le> digits_value ds 0 \<and> digits_value ds 0 \<le> 999999999) \<and>
     1 \<le> length salt \<and> length salt \<le> 16 \<and> list_all is_crypt_character salt \<and>
     length checksum = 86 \<and> list_all is_crypt_character checksum \<and>
     p = \<lparr>parsed_scheme = PS_sha512,
          parsed_work_factor = (case rounds of None \<Rightarrow> 5000 | Some ds \<Rightarrow> of_nat (digits_value ds 0))\<rparr>)"

lemma decimal_between:
  assumes "lo = of_nat l" "hi = of_nat h" "l < 2 ^ 32" "h < 2 ^ 32"
  shows "(\<exists>v :: u32. parse_decimal ds = Some v \<and> \<not> v < lo \<and> \<not> v > hi \<and> P v) \<longleftrightarrow>
     ds \<noteq> [] \<and> list_all is_decimal_byte ds \<and> l \<le> digits_value ds 0 \<and> digits_value ds 0 \<le> h \<and> P (of_nat (digits_value ds 0))"
proof -
  have "unat lo = l" "unat hi = h" using assms by (simp_all add: unat_of_nat_small)
  moreover have "digits_value ds 0 = unat v \<longleftrightarrow> v = of_nat (digits_value ds 0) \<and> digits_value ds 0 < 2 ^ 32"
    for v :: u32
    using unat_bound [of v] by (auto simp: unat_of_nat_small)
  ultimately show ?thesis
    using assms(4) unfolding parse_decimal_exact word_less_nat_alt not_less
    by (auto simp: unat_of_nat_small)
qed

lemma seven_and_rest:
  assumes "length s = 60"
  obtains a b c d e f g rest where "s = a # b # c # d # e # f # g # rest" "length rest = 53"
proof -
  have "s = s ! 0 # s ! 1 # s ! 2 # s ! 3 # s ! 4 # s ! 5 # s ! 6 # drop 7 s"
    using assms by (simp add: Cons_nth_drop_Suc eval_nat_numeral)
  then show thesis by (rule that) (use assms in simp)
qed

lemma parse_bcrypt_exact: "parse_bcrypt s = Inr p \<longleftrightarrow> bcrypt_encoding p s"
proof (cases "length s = 60")
  case True
  obtain a b c d e f g rest where s: "s = a # b # c # d # e # f # g # rest" "length rest = 53"
    using seven_and_rest [OF True] .
  have "parse_bcrypt s = Inr p \<longleftrightarrow> a = 36 \<and> b = 50 \<and> c \<in> set (ascii ''aby'') \<and> d = 36 \<and> g = 36 \<and>
      (\<exists>cost. parse_decimal [e, f] = Some cost \<and> \<not> cost < bcrypt_minimum_cost \<and> \<not> cost > bcrypt_maximum_cost \<and>
         list_all is_crypt_character rest \<and> p = \<lparr>parsed_scheme = PS_bcrypt, parsed_work_factor = cost\<rparr>)"
    using s(2) unfolding s(1) parse_bcrypt_def by (auto split: option.splits)
  also have "\<dots> \<longleftrightarrow> a = 36 \<and> b = 50 \<and> c \<in> set (ascii ''aby'') \<and> d = 36 \<and> g = 36 \<and>
      list_all is_decimal_byte [e, f] \<and> 4 \<le> digits_value [e, f] 0 \<and> digits_value [e, f] 0 \<le> 31 \<and>
      list_all is_crypt_character rest \<and>
      p = \<lparr>parsed_scheme = PS_bcrypt, parsed_work_factor = of_nat (digits_value [e, f] 0)\<rparr>"
    (is "_ \<longleftrightarrow> ?parsed")
    by (subst decimal_between [of bcrypt_minimum_cost 4 bcrypt_maximum_cost 31])
      (simp_all add: bcrypt_minimum_cost_def bcrypt_maximum_cost_def)
  also have "\<dots> \<longleftrightarrow> bcrypt_encoding p s"
  proof
    assume ?parsed
    with s show "bcrypt_encoding p s"
      unfolding bcrypt_encoding_def by (intro exI [of _ c] exI [of _ "[e, f]"] exI [of _ rest]) simp
  next
    assume "bcrypt_encoding p s"
    then show ?parsed
      using s(2) unfolding s(1) bcrypt_encoding_def numeral_2_eq_2 length_Suc_conv by auto
  qed
  finally show ?thesis .
qed (auto simp: parse_bcrypt_def bcrypt_encoding_def)

lemma find_from_append:
  "find_from c (pre @ rest) (length pre) =
     (if c \<in> set rest then Some (length pre + length (takeWhile (\<lambda>x. x \<noteq> c) rest)) else None)"
proof -
  have "length (takeWhile (\<lambda>x. x \<noteq> c) rest) < length rest \<longleftrightarrow> c \<in> set rest"
    by (induction rest) auto
  then show ?thesis by (simp add: find_from_def Let_def)
qed

lemma takeWhile_upto: "c \<notin> set a \<Longrightarrow> takeWhile (\<lambda>x. x \<noteq> c) (a @ c # b) = a"
  by (subst takeWhile_append2) auto

lemma first_occurrence: "c \<in> set xs \<Longrightarrow> \<exists>a b. xs = a @ c # b \<and> c \<notin> set a \<and> takeWhile (\<lambda>x. x \<noteq> c) xs = a"
proof -
  assume "c \<in> set xs"
  then obtain a b where "xs = a @ c # b" "c \<notin> set a" using split_list_first by metis
  moreover from this have "takeWhile (\<lambda>x. x \<noteq> c) xs = a" by (simp add: takeWhile_upto)
  ultimately show ?thesis by blast
qed


definition salted_checksum :: "byte list \<Rightarrow> bool" where
  "salted_checksum rest \<longleftrightarrow> (\<exists>salt checksum.
     rest = salt @ dollar # checksum \<and> 1 \<le> length salt \<and> length salt \<le> 16 \<and> list_all is_crypt_character salt \<and>
     length checksum = 86 \<and> list_all is_crypt_character checksum)"

lemma crypt_characters: "list_all is_crypt_character s \<Longrightarrow> dollar \<notin> set s \<and> 61 \<notin> set s"
  by (auto simp: list_all_iff is_crypt_character_def)

lemma digits_no_dollar: "list_all is_decimal_byte s \<Longrightarrow> dollar \<notin> set s"
  by (auto simp: list_all_iff is_decimal_byte_def)

lemma parse_sha512_rest_exact:
  "parse_sha512_rest (pre @ rest) (length pre) rounds = Inr p \<longleftrightarrow>
   salted_checksum rest \<and> p = \<lparr>parsed_scheme = PS_sha512, parsed_work_factor = rounds\<rparr>"
proof (cases "dollar \<in> set rest")
  case True
  obtain a b where rest: "rest = a @ dollar # b" "dollar \<notin> set a" "takeWhile (\<lambda>x. x \<noteq> dollar) rest = a"
    using first_occurrence [OF True] by blast
  have "salted_checksum rest \<longleftrightarrow> 1 \<le> length a \<and> length a \<le> 16 \<and> list_all is_crypt_character a \<and>
      length b = 86 \<and> list_all is_crypt_character b"
  proof
    assume "salted_checksum rest"
    then obtain salt checksum where "rest = salt @ dollar # checksum" "1 \<le> length salt" "length salt \<le> 16"
      "list_all is_crypt_character salt" "length checksum = 86" "list_all is_crypt_character checksum"
      unfolding salted_checksum_def by blast
    moreover from this(1,4) have "a = salt \<and> b = checksum"
      using rest(1,3) crypt_characters [of salt] takeWhile_upto [of dollar salt checksum] by simp
    ultimately show "1 \<le> length a \<and> length a \<le> 16 \<and> list_all is_crypt_character a \<and>
        length b = 86 \<and> list_all is_crypt_character b" by simp
  qed (auto simp: salted_checksum_def rest(1))
  moreover have "parse_sha512_rest (pre @ rest) (length pre) rounds = Inr p \<longleftrightarrow>
      1 \<le> length a \<and> length a \<le> 16 \<and> list_all is_crypt_character a \<and>
      length b = 86 \<and> list_all is_crypt_character b \<and> p = \<lparr>parsed_scheme = PS_sha512, parsed_work_factor = rounds\<rparr>"
  proof -
    have "find_from (of_char (CHR ''$'')) (pre @ rest) (length pre) = Some (length pre + length a)"
      using True rest(3) by (simp add: find_from_append)
    moreover have "take (length a) rest = a" "drop (length a + 1) rest = b" by (simp_all add: rest(1))
    ultimately show ?thesis
      by (cases "a = []") (auto simp: parse_sha512_rest_def Let_def Suc_le_eq add.commute)
  qed
  ultimately show ?thesis by blast
next
  case False
  then show ?thesis by (auto simp: parse_sha512_rest_def find_from_append salted_checksum_def)
qed

lemma starts_with_iff: "starts_with s start \<longleftrightarrow> (\<exists>rest. s = start @ rest)"
  by (auto simp: starts_with_def) (metis append_take_drop_id)

lemma salted_no_rounds: "salted_checksum rest \<Longrightarrow> \<not> starts_with rest (ascii ''rounds='')"
proof
  assume "salted_checksum rest" "starts_with rest (ascii ''rounds='')"
  then have "61 \<in> set rest" by (auto simp: starts_with_iff)
  with \<open>salted_checksum rest\<close> show False using crypt_characters by (auto simp: salted_checksum_def)
qed

lemma sha512_encoding_eq:
  "sha512_encoding p s \<longleftrightarrow>
   (\<exists>rest. s = ascii ''$6$'' @ rest \<and> salted_checksum rest \<and>
      p = \<lparr>parsed_scheme = PS_sha512, parsed_work_factor = 5000\<rparr>) \<or>
   (\<exists>ds rest. s = ascii ''$6$rounds='' @ ds @ dollar # rest \<and> salted_checksum rest \<and>
      ds \<noteq> [] \<and> list_all is_decimal_byte ds \<and> 1000 \<le> digits_value ds 0 \<and> digits_value ds 0 \<le> 999999999 \<and>
      p = \<lparr>parsed_scheme = PS_sha512, parsed_work_factor = of_nat (digits_value ds 0)\<rparr>)"
  unfolding sha512_encoding_def salted_checksum_def by (simp add: split_option_ex) blast


lemma parse_sha512_rounds:
  assumes "u = ds @ dollar # v" "dollar \<notin> set ds"
  shows "parse_sha512 (ascii ''$6$rounds='' @ u) = Inr p \<longleftrightarrow>
     ds \<noteq> [] \<and> list_all is_decimal_byte ds \<and> 1000 \<le> digits_value ds 0 \<and> digits_value ds 0 \<le> 999999999 \<and>
     salted_checksum v \<and> p = \<lparr>parsed_scheme = PS_sha512, parsed_work_factor = of_nat (digits_value ds 0)\<rparr>"
proof -
  let ?pre = "ascii ''$6$rounds=''"
  let ?s = "?pre @ u"
  have split: "?s = (?pre @ ds @ [dollar]) @ v" "length (?pre @ ds @ [dollar]) = 10 + length ds + 1"
    using assms(1) by simp_all
  have ten: "drop 3 ?s = ascii ''rounds='' @ u" "drop 10 ?s = u" "length ?pre = 10" by simp_all
  have found: "find_from (of_char (CHR ''$'')) ?s 10 = Some (10 + length ds)"
    using find_from_append [of dollar ?pre u] takeWhile_upto [OF assms(2), of v] assms(1) unfolding ten(3) by simp
  have rest: "parse_sha512_rest ?s (10 + length ds + 1) r = Inr p \<longleftrightarrow>
      salted_checksum v \<and> p = \<lparr>parsed_scheme = PS_sha512, parsed_work_factor = r\<rparr>" for r
    using parse_sha512_rest_exact [of "?pre @ ds @ [dollar]" v r p] unfolding split(1) split(2) .
  have "starts_with ?s (ascii ''$6$'')" "starts_with (drop 3 ?s) (ascii ''rounds='')"
    unfolding ten starts_with_iff by simp_all
  then have "parse_sha512 ?s = Inr p \<longleftrightarrow>
      (\<exists>r. parse_decimal ds = Some r \<and> \<not> r < sha512_minimum_rounds \<and> \<not> r > sha512_maximum_rounds \<and>
         parse_sha512_rest ?s (10 + length ds + 1) r = Inr p)"
    using found assms(1) unfolding parse_sha512_def Let_def by (auto simp: ten(2) split: option.splits)
  then show ?thesis unfolding rest
    by (subst (asm) decimal_between [of sha512_minimum_rounds 1000 sha512_maximum_rounds 999999999])
      (auto simp: sha512_minimum_rounds_def sha512_maximum_rounds_def)
qed

lemma parse_sha512_no_rounds:
  assumes "\<not> starts_with t (ascii ''rounds='')"
  shows "parse_sha512 (ascii ''$6$'' @ t) = Inr p \<longleftrightarrow>
     salted_checksum t \<and> p = \<lparr>parsed_scheme = PS_sha512, parsed_work_factor = 5000\<rparr>"
proof -
  have "drop 3 (ascii ''$6$'' @ t) = t" "length (ascii ''$6$'') = 3" "starts_with (ascii ''$6$'' @ t) (ascii ''$6$'')"
    by (simp_all add: starts_with_def)
  then have "parse_sha512 (ascii ''$6$'' @ t) =
      parse_sha512_rest (ascii ''$6$'' @ t) (length (ascii ''$6$'')) sha512_crypt_standard_rounds"
    using assms by (simp only: parse_sha512_def Let_def if_False if_True not_True_eq_False)
  then show ?thesis by (simp only: parse_sha512_rest_exact sha512_crypt_standard_rounds_def)
qed

lemma parse_sha512_exact: "parse_sha512 s = Inr p \<longleftrightarrow> sha512_encoding p s"
proof (cases "starts_with s (ascii ''$6$'')")
  case False
  then show ?thesis unfolding sha512_encoding_eq by (auto simp: parse_sha512_def starts_with_iff)
next
  case True
  then obtain t where s: "s = ascii ''$6$'' @ t" by (auto simp: starts_with_iff)
  show ?thesis
  proof (cases "starts_with t (ascii ''rounds='')")
    case False
    then have "\<not> (\<exists>ds rest. s = ascii ''$6$rounds='' @ ds @ dollar # rest)" by (auto simp: s starts_with_iff)
    then have no_rounds: "(\<exists>ds rest. s = ascii ''$6$rounds='' @ ds @ dollar # rest \<and> Q ds rest) \<longleftrightarrow> False" for Q
      by blast
    have "(\<exists>rest. s = ascii ''$6$'' @ rest \<and> Q rest) \<longleftrightarrow> Q t" for Q by (simp add: s)
    with parse_sha512_no_rounds [OF False, of p] show ?thesis
      unfolding sha512_encoding_eq no_rounds by (simp only: s simp_thms)
  next
    case rounds: True
    then obtain u where t: "t = ascii ''rounds='' @ u" by (auto simp: starts_with_iff)
    have u: "s = ascii ''$6$rounds='' @ u" by (simp add: s t)
    from rounds have no_salt: "\<not> salted_checksum t" by (rule contrapos_pn) (rule salted_no_rounds)
    then have no_standard: "(\<exists>rest. s = ascii ''$6$'' @ rest \<and> salted_checksum rest \<and> Q) \<longleftrightarrow> False" for Q
      by (simp add: s)
    show ?thesis
    proof (cases "dollar \<in> set u")
      case True
      obtain ds v where v: "u = ds @ dollar # v" "dollar \<notin> set ds" using first_occurrence [OF True] by blast
      have same: "ds' = ds \<and> rest = v" if "u = ds' @ dollar # rest" "list_all is_decimal_byte ds'" for ds' rest
        using that v takeWhile_upto [OF digits_no_dollar [OF that(2)], of rest] takeWhile_upto [OF v(2), of "v"] by simp
      have "sha512_encoding p s \<longleftrightarrow> ds \<noteq> [] \<and> list_all is_decimal_byte ds \<and> 1000 \<le> digits_value ds 0 \<and> digits_value ds 0 \<le> 999999999 \<and>
          salted_checksum v \<and> p = \<lparr>parsed_scheme = PS_sha512, parsed_work_factor = of_nat (digits_value ds 0)\<rparr>"
        unfolding sha512_encoding_eq no_standard using same v(1) by (auto simp: u)
      with parse_sha512_rounds [OF v, of p] show ?thesis unfolding u by simp
    next
      case False
      have len: "length (ascii ''$6$rounds='') = 10" by simp
      from False have "find_from (of_char (CHR ''$'')) s 10 = None"
        using find_from_append [of dollar "ascii ''$6$rounds=''" u] unfolding u len by simp
      moreover have "drop 3 s = t" by (simp add: s)
      ultimately have "parse_sha512 s \<noteq> Inr p"
        using True rounds unfolding parse_sha512_def Let_def by (simp add: s [symmetric])
      moreover have "\<not> sha512_encoding p s"
        unfolding sha512_encoding_eq no_standard using False by (auto simp: u)
      ultimately show ?thesis by simp
    qed
  qed
qed


section \<open>The secret copy\<close>

lemma secret_copy_exact:
  "index + length bs \<le> length (secret_bytes out) \<Longrightarrow> secret_copy bs index out =
    (if 0 \<in> set bs then Inl (core_error EC_invalid_input ''text contains an embedded NUL'') else Inr (),
     out\<lparr>secret_bytes := write_at (secret_bytes out) index (takeWhile (\<lambda>b. b \<noteq> 0) bs)\<rparr>)"
  by (induction bs arbitrary: index out) auto

text \<open>A text as the contents of the array.\<close>

definition padded :: "byte list \<Rightarrow> byte list" where
  "padded bs = bs @ replicate (password_c_string_capacity - length bs) 0"

lemma secret_copy_from:
  assumes "unat (sp_size password) < password_c_string_capacity"
  shows "secret_copy (span_bytes m password) 0 empty_secret =
    (if 0 \<in> set (span_bytes m password) then Inl (core_error EC_invalid_input ''text contains an embedded NUL'')
     else Inr (), empty_secret\<lparr>secret_bytes := padded (takeWhile (\<lambda>b. b \<noteq> 0) (span_bytes m password))\<rparr>)"
proof -
  let ?bs = "takeWhile (\<lambda>b. b \<noteq> 0) (span_bytes m password)"
  have "length ?bs \<le> password_c_string_capacity"
    using assms length_takeWhile_le [of "\<lambda>b. b \<noteq> 0" "span_bytes m password"] by simp
  then have "write_at (secret_bytes empty_secret) 0 ?bs = padded ?bs"
    by (subst write_at_0) (simp_all add: empty_secret_def padded_def)
  then show ?thesis using assms by (subst secret_copy_exact) (simp_all add: empty_secret_def)
qed

lemmas secret_moves = secret_move_construct_def secret_move_assign_def secret_move_from_def
  secret_destroy_def secret_cleanse_def Let_def

lemma secret_from_eq:
  "secret_from m password =
    (if unat (sp_size password) \<ge> password_c_string_capacity
     then (Inl (core_error EC_invalid_range ''text does not fit including terminator''), [])
     else if 0 \<in> set (span_bytes m password)
     then (Inl (core_error EC_invalid_input ''text contains an embedded NUL''),
           [padded (takeWhile (\<lambda>b. b \<noteq> 0) (span_bytes m password))])
     else (Inr \<lparr>secret_bytes = padded (span_bytes m password), secret_size = sp_size password\<rparr>,
           [padded (span_bytes m password), map (\<lambda>_. 0) (padded (span_bytes m password))]))"
proof -
  have all: "takeWhile (\<lambda>b. b \<noteq> 0) bs = bs" if "0 \<notin> set bs" for bs :: "byte list"
    using that by (auto simp: takeWhile_eq_all_conv)
  show ?thesis using secret_copy_from [of password m] by (auto simp: secret_from_def secret_moves empty_secret_def all)
qed

lemma secret_from_Inr:
  assumes "fst (secret_from m password) = Inr s"
  shows "0 \<notin> set (span_bytes m password)" "unat (sp_size password) < password_c_string_capacity"
    "secret_bytes s = padded (span_bytes m password)" "secret_size s = sp_size password"
  using assms by (auto simp: secret_from_eq split: if_splits)

lemma secret_from_iff:
  "(\<exists>s. fst (secret_from m password) = Inr s) \<longleftrightarrow>
     0 \<notin> set (span_bytes m password) \<and> unat (sp_size password) < password_c_string_capacity"
  by (auto simp: secret_from_eq)

lemma padded_text:
  assumes "0 \<notin> set bs"
  shows "takeWhile (\<lambda>b. b \<noteq> 0) (padded bs) = bs"
proof -
  have "takeWhile (\<lambda>b. b \<noteq> 0) (replicate n (0 :: byte)) = []" for n by (cases n) simp_all
  moreover have "takeWhile (\<lambda>b. b \<noteq> 0) (bs @ xs) = bs @ takeWhile (\<lambda>b. b \<noteq> 0) xs" for xs
    using assms by (intro takeWhile_append2) auto
  ultimately show ?thesis by (simp add: padded_def)
qed

lemma secret_c_str_from:
  assumes "fst (secret_from m password) = Inr s"
  shows "secret_c_str s = span_bytes m password" "secret_view s = span_bytes m password"
  using secret_from_Inr [OF assms]
  by (simp_all add: secret_c_str_def secret_view_def padded_text) (simp add: padded_def)

section \<open>Requests\<close>

text \<open>The requests that reach the native library, and what counts as an answer of it.\<close>

definition admissible ::
    "memory \<Rightarrow> WorkerId \<Rightarrow> TextView \<Rightarrow> TextView \<Rightarrow> PasswordVerificationLimits \<Rightarrow> PasswordAuthWorker \<Rightarrow>
     ParsedPasswordHash \<Rightarrow> bool" where
  "admissible m worker password encoded_hash limits aw p \<longleftrightarrow>
     validate_limits limits = Inr () \<and> sid_value worker = sid_value (aw_worker aw) \<and>
     aw_active aw < aw_maximum_in_flight aw \<and>
     sp_size password \<le> lim_maximum_password_bytes limits \<and> 0 \<notin> set (span_bytes m password) \<and>
     sp_size encoded_hash < 256 \<and> 0 \<notin> set (span_bytes m encoded_hash) \<and>
     (bcrypt_encoding p (span_bytes m encoded_hash) \<or> sha512_encoding p (span_bytes m encoded_hash)) \<and>
     (case parsed_scheme p of
        PS_bcrypt \<Rightarrow> sp_size password \<le> 72 \<and> lim_minimum_bcrypt_cost limits \<le> parsed_work_factor p \<and>
          parsed_work_factor p \<le> lim_maximum_bcrypt_cost limits
      | PS_sha512 \<Rightarrow> lim_minimum_sha512_rounds limits \<le> parsed_work_factor p \<and>
          parsed_work_factor p \<le> lim_maximum_sha512_rounds limits)"

definition answers :: "(nat \<Rightarrow> byte) option \<Rightarrow> byte list \<Rightarrow> bool" where
  "answers r t \<longleftrightarrow> (\<exists>q. r = Some q \<and> q 0 \<noteq> of_char (CHR ''*'') \<and> length t < 256 \<and> 0 \<notin> set t \<and>
     t = map q [0 ..< length t] \<and> q (length t) = 0)"

lemma answers_iff:
  "answers r t \<longleftrightarrow> \<not> (r = None \<or> the r 0 = of_char (CHR ''*'')) \<and> bounded_crypt_output r = Inr t"
proof (cases r)
  case (Some q)
  have "(\<exists>i < encoded_password_capacity. q i = 0 \<and> (\<forall>j < i. q j \<noteq> 0) \<and> t = map q [0 ..< i]) \<longleftrightarrow>
      length t < 256 \<and> 0 \<notin> set t \<and> t = map q [0 ..< length t] \<and> q (length t) = 0"
  proof
    assume "\<exists>i < encoded_password_capacity. q i = 0 \<and> (\<forall>j < i. q j \<noteq> 0) \<and> t = map q [0 ..< i]"
    then obtain i where "i < 256" "q i = 0" "\<forall>j < i. q j \<noteq> 0" "t = map q [0 ..< i]"
      by (auto simp: encoded_password_capacity_def)
    moreover from this have "length t = i" by simp
    ultimately show "length t < 256 \<and> 0 \<notin> set t \<and> t = map q [0 ..< length t] \<and> q (length t) = 0" by auto
  next
    assume h: "length t < 256 \<and> 0 \<notin> set t \<and> t = map q [0 ..< length t] \<and> q (length t) = 0"
    then have "q j \<noteq> 0" if "j < length t" for j
      using that by (metis (no_types, lifting) add.left_neutral diff_zero length_map length_upt nth_map nth_mem nth_upt)
    with h show "\<exists>i < encoded_password_capacity. q i = 0 \<and> (\<forall>j < i. q j \<noteq> 0) \<and> t = map q [0 ..< i]"
      by (intro exI [of _ "length t"]) (simp add: encoded_password_capacity_def)
  qed
  then show ?thesis unfolding Some bounded_crypt_output_Inr answers_def by simp
qed (simp add: answers_def)

lemma to_c_string_iff:
  "(\<exists>c. to_c_string n m v = Inr c) \<longleftrightarrow> 0 \<notin> set (span_bytes m v) \<and> unat (sp_size v) < n"
  by (auto simp: to_c_string_def contains_nul_def contains_nul_in_iff)

lemma work_factor_iff:
  "\<not> (parsed_scheme p = PS_bcrypt \<and> sz > (72 :: size_t)) \<and> validate_work_factor p limits = Inr () \<longleftrightarrow>
   (case parsed_scheme p of
      PS_bcrypt \<Rightarrow> sz \<le> 72 \<and> lim_minimum_bcrypt_cost limits \<le> parsed_work_factor p \<and>
        parsed_work_factor p \<le> lim_maximum_bcrypt_cost limits
    | PS_sha512 \<Rightarrow> lim_minimum_sha512_rounds limits \<le> parsed_work_factor p \<and>
        parsed_work_factor p \<le> lim_maximum_sha512_rounds limits)"
  by (cases "parsed_scheme p") (auto simp: validate_work_factor_def not_less)

lemma parse_password_hash_exact:
  "parse_password_hash s = Inr p \<longleftrightarrow> bcrypt_encoding p s \<or> sha512_encoding p s"
proof -
  have "starts_with s (ascii ''$2'')" if "bcrypt_encoding p s"
    using that by (auto simp: bcrypt_encoding_def starts_with_iff)
  moreover have "starts_with s (ascii ''$6$'')" if "sha512_encoding p s"
    using that unfolding sha512_encoding_def starts_with_iff by blast
  moreover have "\<not> (starts_with s (ascii ''$2'') \<and> starts_with s (ascii ''$6$''))"
    by (auto simp: starts_with_iff)
  ultimately show ?thesis
    unfolding parse_password_hash_def parse_bcrypt_exact [symmetric] parse_sha512_exact [symmetric] by auto
qed

lemma limits_bound:
  "validate_limits limits = Inr () \<Longrightarrow> sp_size password \<le> lim_maximum_password_bytes limits \<Longrightarrow>
   unat (sp_size password) < password_c_string_capacity"
  by (auto simp: validate_limits_def word_le_nat_alt password_c_string_capacity_def split: if_splits)

definition accepted ::
    "memory \<Rightarrow> WorkerId \<Rightarrow> TextView \<Rightarrow> TextView \<Rightarrow> PasswordVerificationLimits \<Rightarrow> PasswordAuthWorker \<Rightarrow>
     SecretPassword \<Rightarrow> StaticCString \<Rightarrow> ParsedPasswordHash \<Rightarrow> bool" where
  "accepted m worker password encoded_hash limits aw s c p \<longleftrightarrow>
     validate_limits limits = Inr () \<and> sid_value (aw_worker aw) = sid_value worker \<and>
     aw_maximum_in_flight aw \<noteq> 0 \<and> \<not> sp_size password > lim_maximum_password_bytes limits \<and>
     fst (secret_from m password) = Inr s \<and> to_c_string encoded_password_capacity m encoded_hash = Inr c \<and>
     parse_password_hash (c_string_view c) = Inr p \<and>
     (\<not> (parsed_scheme p = PS_bcrypt \<and> sp_size password > 72) \<and> validate_work_factor p limits = Inr ()) \<and>
     \<not> aw_active aw \<ge> aw_maximum_in_flight aw"

lemma accepted_admissible:
  assumes "accepted m worker password encoded_hash limits aw s c p"
  shows "admissible m worker password encoded_hash limits aw p"
proof -
  note h = assms [unfolded accepted_def work_factor_iff parse_password_hash_exact]
  have c: "c_string_view c = span_bytes m encoded_hash" using h to_c_string_Inr(2) by blast
  have "0 \<notin> set (span_bytes m encoded_hash) \<and> unat (sp_size encoded_hash) < 256"
    using h to_c_string_iff [of encoded_password_capacity m encoded_hash]
    by (auto simp: encoded_password_capacity_def)
  moreover have "0 \<notin> set (span_bytes m password)" using h secret_from_Inr(1) by blast
  ultimately show ?thesis
    using h unfolding admissible_def c by (auto simp: not_less not_le word_less_nat_alt word_le_nat_alt)
qed

lemma admissible_accepted:
  assumes "admissible m worker password encoded_hash limits aw p"
  obtains s c where "accepted m worker password encoded_hash limits aw s c p"
proof -
  note h = assms [unfolded admissible_def]
  have "\<exists>s. fst (secret_from m password) = Inr s" unfolding secret_from_iff using h limits_bound by blast
  then obtain s where s: "fst (secret_from m password) = Inr s" by blast
  have "\<exists>c. to_c_string encoded_password_capacity m encoded_hash = Inr c"
    unfolding to_c_string_iff encoded_password_capacity_def using h by (simp add: word_less_nat_alt)
  then obtain c where c: "to_c_string encoded_password_capacity m encoded_hash = Inr c" by blast
  have "accepted m worker password encoded_hash limits aw s c p"
    unfolding accepted_def work_factor_iff parse_password_hash_exact to_c_string_Inr(2) [OF c]
    using h s c by (auto simp: not_less not_le)
  then show thesis by (rule that)
qed

lemma verify_accepted:
  assumes "accepted m worker password encoded_hash limits aw s c p"
  shows "verify_password crypt_r m worker password encoded_hash limits log_sink (aw, w) =
    (case verify_with_slot crypt_r s c log_sink w of (r, w) \<Rightarrow> (r, aw, w))"
proof -
  have "lease_end (lease_begin aw) = aw" by (simp add: lease_begin_def lease_end_def)
  then show ?thesis using assms unfolding accepted_def verify_password_def verify_password_wiping_def
    by (auto simp: verify_bounded_def Let_def split: prod.splits)
qed

lemma verify_refused:
  assumes "\<nexists>s c p. accepted m worker password encoded_hash limits aw s c p"
  shows "\<exists>e. verify_password crypt_r m worker password encoded_hash limits log_sink (aw, w) = (Inl e, aw, w)"
proof (rule ccontr)
  assume "\<nexists>e. verify_password crypt_r m worker password encoded_hash limits log_sink (aw, w) = (Inl e, aw, w)"
  then have "\<exists>s c p. accepted m worker password encoded_hash limits aw s c p"
    unfolding verify_password_def verify_password_wiping_def verify_bounded_def accepted_def
    by (auto simp: Let_def split: sum.splits if_splits prod.splits)
  with assms show False by blast
qed

lemma dependency_error_domain: "err_domain (normalize_dependency_error d oper st n) = Dom_dependency"
  by (simp add: normalize_dependency_error_def from_dependency_operation_def make_error_def Let_def
      set_diagnostic_context_def)

lemma answered_text:
  assumes "bounded_crypt_output r = Inr t"
  shows "length t \<le> encoded_password_capacity" "0 \<notin> set t"
  using assms bounded_crypt_output_Inr [of "the r" t] by (cases r; auto simp: bounded_crypt_output_def)+

lemma verify_with_slot_accepted:
  assumes acc: "accepted m worker password encoded_hash limits aw s c p"
    and r: "crypt_r (span_bytes m password) (span_bytes m encoded_hash) w = (r, errno, w')"
  shows "verify_with_slot crypt_r s c log_sink w =
    (if r = None \<or> the r 0 = of_char (CHR ''*'')
       then (case password_auth_native_error (word_of_int errno) log_sink w' of (e, w) \<Rightarrow> (Inl e, w))
     else case bounded_crypt_output r of
       Inl _ \<Rightarrow> (let e = normalize_dependency_error DI_libxcrypt OP_password_verify DS_corrupt_data 0
                 in (Inl e, log_dependency_error log_sink e w'))
     | Inr t \<Rightarrow> (Inr (t = span_bytes m encoded_hash), w'))"
proof -
  have s: "fst (secret_from m password) = Inr s" and c: "to_c_string encoded_password_capacity m encoded_hash = Inr c"
    using acc by (simp_all add: accepted_def)
  note hash = to_c_string_Inr [OF c]
  have h: "0 \<notin> set (span_bytes m encoded_hash)" "unat (sp_size encoded_hash) \<le> encoded_password_capacity"
    using to_c_string_iff [of encoded_password_capacity m encoded_hash] c by auto
  have "constant_time_hash_equal (span_bytes m encoded_hash) t \<longleftrightarrow> t = span_bytes m encoded_hash"
    if "bounded_crypt_output r = Inr t" for t
    using constant_time_hash_equal_iff [of "span_bytes m encoded_hash" t] h answered_text [OF that] by auto
  then show ?thesis
    unfolding verify_with_slot_def secret_c_str_from(1) [OF s] c_str_wf [OF hash(1)] hash(2) r prod.case
    by (simp split: sum.split)
qed

section \<open>Properties\<close>

text \<open>
  C27: the parser of encoded passwords accepts exactly the two permitted encodings and returns their
  scheme and work factor: bcrypt with a minor version a, b or y, a cost of two digits from 4 to 31
  and 53 characters of the crypt alphabet; and SHA-512 crypt with an optional number of rounds from 1000
  to 999999999, a salt of 1 to 16 and a checksum of 86 such characters.
\<close>

theorem password_hash_grammar:
  "parse_password_hash s = Inr p \<longleftrightarrow> bcrypt_encoding p s \<or> sha512_encoding p s"
  by (rule parse_password_hash_exact)

text \<open>
  C26: a request is verified exactly as far as it is admissible. An inadmissible request is refused
  without calling the native library, logging or changing the worker. An admissible one hands the native
  library exactly the bytes of the password and of the encoded hash; if the answer is a text
  shorter than 256 bytes that does not start with a star, the result is whether it equals the
  encoded hash, otherwise it is an error of the dependency; and the slot of the worker is free
  again in every case.
\<close>

theorem verify_password_exact:
  "case crypt_r (span_bytes m password) (span_bytes m encoded_hash) w of (r, errno, w') \<Rightarrow>
     if \<exists>p. admissible m worker password encoded_hash limits aw p
     then (\<forall>t. answers r t \<longrightarrow>
             verify_password crypt_r m worker password encoded_hash limits log_sink (aw, w) =
               (Inr (t = span_bytes m encoded_hash), aw, w')) \<and>
          ((\<nexists>t. answers r t) \<longrightarrow>
             (\<exists>e. fst (verify_password crypt_r m worker password encoded_hash limits log_sink (aw, w)) = Inl e \<and>
                err_domain e = Dom_dependency \<and>
                snd (verify_password crypt_r m worker password encoded_hash limits log_sink (aw, w)) =
                  (aw, log_dependency_error log_sink e w')))
     else \<exists>e. verify_password crypt_r m worker password encoded_hash limits log_sink (aw, w) = (Inl e, aw, w)"
proof (cases "\<exists>p. admissible m worker password encoded_hash limits aw p")
  case True
  then obtain p where p: "admissible m worker password encoded_hash limits aw p" ..
  obtain s c where acc: "accepted m worker password encoded_hash limits aw s c p"
    using admissible_accepted [OF p] .
  obtain r errno w' where r: "crypt_r (span_bytes m password) (span_bytes m encoded_hash) w = (r, errno, w')"
    by (metis prod_cases3)
  note run = verify_accepted [OF acc, of crypt_r log_sink w,
    unfolded verify_with_slot_accepted [where crypt_r = crypt_r and w = w, OF acc r]]
  show ?thesis
    unfolding r if_P [OF True] prod.case run answers_iff
    by (auto simp: password_auth_native_error_def Let_def dependency_error_domain split: sum.splits)
next
  case False
  then have "\<nexists>s c p. accepted m worker password encoded_hash limits aw s c p" using accepted_admissible by blast
  from verify_refused [OF this] False show ?thesis by (simp split: prod.splits)
qed


text \<open>Witness: a bcrypt request, and a library that returns the encoded hash and counts its calls.\<close>

definition example_hash :: "byte list" where
  "example_hash = ascii ''$2b$10$'' @ replicate 53 97"

definition example_memory :: memory where
  "example_memory a = (if a < 60 then example_hash ! a else 112)"

definition echo_crypt :: "nat crypt" where
  "echo_crypt password h w = (Some (\<lambda>i. if i < length h then h ! i else 0), 0, w + 1)"

definition example_limits :: PasswordVerificationLimits where
  "example_limits = \<lparr>lim_maximum_password_bytes = 64, lim_minimum_bcrypt_cost = 4, lim_maximum_bcrypt_cost = 12,
     lim_minimum_sha512_rounds = 1000, lim_maximum_sha512_rounds = 5000\<rparr>"

lemma example_hash_bytes: "span_bytes example_memory \<lparr>sp_data = 0, sp_size = 60\<rparr> = example_hash"
  "length example_hash = 60" "0 \<notin> set example_hash"
  by (auto simp: span_bytes_def example_memory_def example_hash_def intro!: nth_equalityI)

lemma example_admissible:
  "admissible example_memory \<lparr>sid_value = 3\<rparr> \<lparr>sp_data = 60, sp_size = 5\<rparr> \<lparr>sp_data = 0, sp_size = 60\<rparr> example_limits
     (password_auth_worker \<lparr>sid_value = 3\<rparr> 1) \<lparr>parsed_scheme = PS_bcrypt, parsed_work_factor = 10\<rparr>"
proof -
  have "bcrypt_encoding \<lparr>parsed_scheme = PS_bcrypt, parsed_work_factor = 10\<rparr> example_hash"
    unfolding bcrypt_encoding_def example_hash_def
    by (intro exI [of _ 98] exI [of _ "[49, 48]"] exI [of _ "replicate 53 97"])
      (simp add: is_decimal_byte_def list_all_iff is_crypt_character_def)
  moreover have "0 \<notin> set (span_bytes example_memory \<lparr>sp_data = 60, sp_size = 5\<rparr>)"
    by (auto simp: span_bytes_def example_memory_def)
  ultimately show ?thesis
    by (simp add: admissible_def example_hash_bytes validate_limits_def example_limits_def password_auth_worker_def
        maximum_supported_password_bytes_def bcrypt_minimum_cost_def bcrypt_maximum_cost_def
        sha512_minimum_rounds_def sha512_maximum_rounds_def)
qed

theorem verify_password_exact_witness:
  "verify_password echo_crypt example_memory \<lparr>sid_value = 3\<rparr> \<lparr>sp_data = 60, sp_size = 5\<rparr>
     \<lparr>sp_data = 0, sp_size = 60\<rparr> example_limits \<lparr>sink_write = None\<rparr> (password_auth_worker \<lparr>sid_value = 3\<rparr> 1, 0) =
   (Inr True, password_auth_worker \<lparr>sid_value = 3\<rparr> 1, 1)"
proof -
  let ?q = "\<lambda>i. if i < length example_hash then example_hash ! i else 0"
  have "example_hash ! 0 = 36" by (simp add: example_hash_def)
  then have answer: "answers (Some ?q) example_hash"
    unfolding answers_def using example_hash_bytes(2,3)
    by (intro exI [of _ ?q]) (simp add: list_eq_iff_nth_eq)
  have "\<exists>p. admissible example_memory \<lparr>sid_value = 3\<rparr> \<lparr>sp_data = 60, sp_size = 5\<rparr> \<lparr>sp_data = 0, sp_size = 60\<rparr>
      example_limits (password_auth_worker \<lparr>sid_value = 3\<rparr> 1) p"
    using example_admissible by blast
  with answer show ?thesis
    using verify_password_exact [where crypt_r = echo_crypt and m = example_memory and w = 0
        and password = "\<lparr>sp_data = 60, sp_size = 5\<rparr>" and encoded_hash = "\<lparr>sp_data = 0, sp_size = 60\<rparr>"
        and worker = "\<lparr>sid_value = 3\<rparr>" and limits = example_limits
        and aw = "password_auth_worker \<lparr>sid_value = 3\<rparr> 1" and log_sink = "\<lparr>sink_write = None\<rparr>"]
    unfolding echo_crypt_def example_hash_bytes(1) by simp
qed

end
