(* ===== verification/Secret_Passwords.thy ===== *)
theory Secret_Passwords
  imports Password_Auth Guarded_Systems "HOL-Library.Multiset"
begin

text \<open>
  The lifetime of the secrets of \<open>src/adapters/private/laghu/adapters/internal/password_auth.hpp\<close>:
  programs that make, move, assign and destroy objects of the class \<open>SecretPassword\<close>. The lemmas show that
  a password has one owner at a time and that every copy of it that the class ever wrote to memory is in a
  live object or was overwritten through a volatile reference, in \<open>verify_password\<close> on every way out.
\<close>

section \<open>Programs with secrets\<close>

text \<open>The password in an array, and the passwords, as far as they are not empty, in several.\<close>

definition array_text :: "byte list \<Rightarrow> byte list" where
  "array_text bs = takeWhile (\<lambda>b. b \<noteq> 0) bs"

definition texts :: "byte list list \<Rightarrow> byte list multiset" where
  "texts arrays = filter_mset (\<lambda>t. t \<noteq> []) (mset (map array_text arrays))"

text \<open>
  The live secrets, named by position, the storage of those destroyed, and what was wiped. The last three
  fields record what the program asked for: the passwords made into a secret, the arrays that received a copy,
  and the arrays of secrets that were destroyed or assigned to.
\<close>

record SecretStore =
  ss_live :: "SecretPassword list"
  ss_freed :: "SecretPassword list"
  ss_wiped :: wipes
  ss_made :: "byte list list"
  ss_copied :: "byte list list"
  ss_dropped :: "byte list list"

text \<open>The copies \<open>from\<close> makes: in its local object up to a zero, and on success in the result.\<close>

definition from_copies :: "memory \<Rightarrow> TextView \<Rightarrow> byte list list" where
  "from_copies m password =
     (if unat (sp_size password) \<ge> password_c_string_capacity then []
      else if 0 \<in> set (span_bytes m password) then [span_bytes m password]
      else [span_bytes m password, span_bytes m password])"

datatype secret_op =
    S_From memory TextView
  | S_Move_Construct nat
  | S_Move_Assign nat nat
  | S_Destroy nat

fun secret_exec :: "secret_op \<Rightarrow> SecretStore \<Rightarrow> (unit Result \<times> SecretStore) option" where
  "secret_exec (S_From m password) s =
     (let (r, wiped) = secret_from m password;
          s = s\<lparr>ss_wiped := ss_wiped s @ wiped, ss_copied := ss_copied s @ from_copies m password\<rparr>
      in Some (case r of
          Inl e \<Rightarrow> (Inl e, s)
        | Inr x \<Rightarrow> (Inr (), s\<lparr>ss_live := ss_live s @ [x], ss_made := ss_made s @ [span_bytes m password]\<rparr>)))"
| "secret_exec (S_Move_Construct i) s =
     (let ((this_secret, other), wiped) = secret_move_construct (ss_live s ! i)
      in Some (Inr (), s\<lparr>ss_live := (ss_live s)[i := other] @ [this_secret], ss_wiped := ss_wiped s @ wiped,
                         ss_copied := ss_copied s @ [secret_bytes (ss_live s ! i)]\<rparr>))"
| "secret_exec (S_Move_Assign i j) s =
     (let (live, wiped) = secret_move_assign i j (ss_live s)
      in Some (Inr (), s\<lparr>ss_live := live, ss_wiped := ss_wiped s @ wiped,
           ss_copied := ss_copied s @ (if i = j then [] else [secret_bytes (ss_live s ! j)]),
           ss_dropped := ss_dropped s @ (if i = j then [] else [secret_bytes (ss_live s ! i)])\<rparr>))"
| "secret_exec (S_Destroy i) s =
     (let (storage, wiped) = secret_destroy (ss_live s ! i)
      in Some (Inr (), s\<lparr>ss_live := take i (ss_live s) @ drop (Suc i) (ss_live s), ss_freed := ss_freed s @ [storage],
                         ss_wiped := ss_wiped s @ wiped, ss_dropped := ss_dropped s @ [secret_bytes (ss_live s ! i)]\<rparr>))"

fun secret_op_ok :: "secret_op \<Rightarrow> SecretStore \<Rightarrow> bool" where
  "secret_op_ok (S_From m password) s \<longleftrightarrow> True"
| "secret_op_ok (S_Move_Construct i) s \<longleftrightarrow> i < length (ss_live s)"
| "secret_op_ok (S_Move_Assign i j) s \<longleftrightarrow> i < length (ss_live s) \<and> j < length (ss_live s)"
| "secret_op_ok (S_Destroy i) s \<longleftrightarrow> i < length (ss_live s)"

definition secret_init :: SecretStore where
  "secret_init = \<lparr>ss_live = [], ss_freed = [], ss_wiped = [], ss_made = [], ss_copied = [], ss_dropped = []\<rparr>"

section \<open>Every copy is owned or wiped\<close>

abbreviation live_arrays :: "SecretStore \<Rightarrow> byte list list" where
  "live_arrays s \<equiv> map secret_bytes (ss_live s)"

text \<open>A live secret is a text with its length, or was moved from.\<close>

definition secret_ok :: "SecretPassword \<Rightarrow> bool" where
  "secret_ok x \<longleftrightarrow> secret_view x = secret_c_str x \<and> length (secret_bytes x) = password_c_string_capacity"

definition secret_inv :: "SecretStore \<Rightarrow> bool" where
  "secret_inv s \<longleftrightarrow> (\<forall>x \<in> set (ss_live s). secret_ok x) \<and> (\<forall>x \<in> set (ss_freed s). is_cleansed x) \<and>
     texts (ss_made s) = texts (live_arrays s) + texts (ss_dropped s) \<and>
     texts (ss_copied s) = texts (live_arrays s) + texts (ss_wiped s)"

lemma texts_simps [simp]:
  "texts [] = {#}" "texts (xs @ ys) = texts xs + texts ys" "texts (x # y # xs) = texts [x] + texts (y # xs)"
  by (simp_all add: texts_def)

lemma texts_single: "texts [x] = (if array_text x = [] then {#} else {#array_text x#})"
  by (simp add: texts_def)

lemma texts_zeros [simp]: "texts [map (\<lambda>_. 0) bs] = {#}"
  by (cases bs) (simp_all add: texts_single array_text_def)

lemma texts_padded [simp]: "texts [padded (takeWhile (\<lambda>b. b \<noteq> 0) bs)] = texts [bs]"
proof -
  have "0 \<notin> set (takeWhile (\<lambda>b. b \<noteq> 0) bs)" by (auto dest: set_takeWhileD)
  then show ?thesis by (simp add: array_text_def texts_single padded_text)
qed

lemma texts_padded_whole: "0 \<notin> set bs \<Longrightarrow> texts [padded bs] = texts [bs]"
proof -
  assume "0 \<notin> set bs"
  then have "takeWhile (\<lambda>b. b \<noteq> 0) bs = bs" by (auto simp: takeWhile_eq_all_conv)
  then show ?thesis using texts_padded [of bs] by metis
qed

lemma texts_at: "i < length xs \<Longrightarrow> texts xs = texts (take i xs) + texts [xs ! i] + texts (drop (Suc i) xs)"
proof -
  assume "i < length xs"
  then have "xs = take i xs @ [xs ! i] @ drop (Suc i) xs" by (simp add: id_take_nth_drop)
  then show ?thesis by (metis texts_simps(2) add.assoc)
qed

lemma texts_update: "i < length xs \<Longrightarrow> texts (xs[i := y]) + texts [xs ! i] = texts xs + texts [y]"
  by (simp add: texts_at [of i xs] texts_at [of i "xs[i := y]"] ac_simps)

lemma texts_remove: "i < length xs \<Longrightarrow> texts (take i xs @ drop (Suc i) xs) + texts [xs ! i] = texts xs"
  by (simp add: texts_at [of i xs] ac_simps)

text \<open>What the operations do to the texts.\<close>

lemma from_texts: "texts (snd (secret_from m password)) +
    (case fst (secret_from m password) of Inl e \<Rightarrow> {#} | Inr x \<Rightarrow> texts [secret_bytes x]) = texts (from_copies m password)"
  by (auto simp: secret_from_eq from_copies_def texts_padded_whole)

lemma from_ok: "fst (secret_from m password) = Inr x \<Longrightarrow>
    secret_ok x \<and> texts [secret_bytes x] = texts [span_bytes m password]"
  using secret_from_Inr [of m password x] secret_c_str_from [of m password x]
  by (simp add: secret_ok_def texts_padded_whole) (simp add: padded_def)

lemma cleansed: "is_cleansed (fst (secret_destroy x))"
  by (simp add: secret_destroy_def secret_cleanse_def is_cleansed_def list_all_iff)

lemma zeros_text [simp]: "takeWhile (\<lambda>b. b \<noteq> 0) (map (\<lambda>_. 0 :: byte) xs) = []"
  by (cases xs) simp_all

lemma moved_ok: "secret_ok x \<Longrightarrow> secret_ok (x\<lparr>secret_bytes := map (\<lambda>_. 0) (secret_bytes x), secret_size := 0\<rparr>)"
  by (simp add: secret_ok_def secret_view_def secret_c_str_def)

lemma value_ok: "secret_ok y \<Longrightarrow> secret_ok (x\<lparr>secret_bytes := secret_bytes y, secret_size := secret_size y\<rparr>)"
  by (simp add: secret_ok_def secret_view_def secret_c_str_def)

lemma updated_ok: "x \<in> set (xs[i := y]) \<Longrightarrow> (\<And>x. x \<in> set xs \<Longrightarrow> P x) \<Longrightarrow> P y \<Longrightarrow> P x"
  using set_update_subset_insert [of xs i y] by blast

lemma live_ok: "secret_inv s \<Longrightarrow> x \<in> set (ss_live s) \<Longrightarrow> secret_ok x"
  by (simp add: secret_inv_def)

text \<open>An operation that keeps the sums and makes a good list of secrets out of a good list.\<close>

lemma sums_step:
  fixes total_sum :: "'a :: comm_monoid_add"
  assumes "total_sum = live + rest" "live' + rest' = live + added"
  shows "total_sum + added = live' + (rest + rest')"
  using assms by (metis add.assoc add.commute)

lemma sums_swap:
  fixes x :: "'a :: cancel_comm_monoid_add"
  shows "live' + y = mid \<Longrightarrow> mid + x = live + y \<Longrightarrow> live' + x = live"
  by (metis add.assoc add.commute add_right_cancel)

lemma secret_step:
  assumes "secret_exec op s = Some (r, s\<lparr>ss_live := live, ss_freed := ss_freed s @ freed, ss_wiped := ss_wiped s @ wiped,
      ss_made := ss_made s @ made, ss_copied := ss_copied s @ copied, ss_dropped := ss_dropped s @ dropped\<rparr>)"
    and inv: "secret_inv s" and live: "\<And>x. x \<in> set live \<Longrightarrow> secret_ok x"
    and freed: "\<And>x. x \<in> set freed \<Longrightarrow> is_cleansed x"
    and d: "texts (map secret_bytes live) + texts dropped = texts (live_arrays s) + texts made"
    and w: "texts (map secret_bytes live) + texts wiped = texts (live_arrays s) + texts copied"
  shows "\<exists>r s'. secret_exec op s = Some (r, s') \<and> secret_inv s'"
proof -
  have "texts (ss_made s) = texts (live_arrays s) + texts (ss_dropped s)"
    "texts (ss_copied s) = texts (live_arrays s) + texts (ss_wiped s)"
    using inv by (simp_all add: secret_inv_def)
  note sums = this [THEN sums_step]
  have "\<forall>x \<in> set (ss_freed s @ freed). is_cleansed x" using inv freed by (auto simp: secret_inv_def)
  with live have "secret_inv (s\<lparr>ss_live := live, ss_freed := ss_freed s @ freed, ss_wiped := ss_wiped s @ wiped,
      ss_made := ss_made s @ made, ss_copied := ss_copied s @ copied, ss_dropped := ss_dropped s @ dropped\<rparr>)"
    using sums(1) [OF d] sums(2) [OF w] unfolding secret_inv_def by simp
  with assms(1) show ?thesis by blast
qed

lemma secret_from_inv:
  assumes inv: "secret_inv s"
  shows "\<exists>r s'. secret_exec (S_From m password) s = Some (r, s') \<and> secret_inv s'"
proof (cases "secret_from m password")
  case (Pair r wiped)
  show ?thesis
  proof (cases r)
    case (Inl e)
    have t: "texts (from_copies m password) = texts wiped" using from_texts [of m password] by (simp add: Pair Inl)
    show ?thesis
    proof (rule secret_step [OF _ inv])
      show "secret_exec (S_From m password) s = Some (Inl e, s\<lparr>ss_live := ss_live s, ss_freed := ss_freed s @ [],
          ss_wiped := ss_wiped s @ wiped, ss_made := ss_made s @ [], ss_copied := ss_copied s @ from_copies m password,
          ss_dropped := ss_dropped s @ []\<rparr>)" by (simp add: Pair Inl)
    qed (simp_all add: t live_ok [OF inv])
  next
    case (Inr x)
    have x: "secret_ok x" "texts [secret_bytes x] = texts [span_bytes m password]"
      using from_ok [of m password x] by (simp_all add: Pair Inr)
    have t: "texts (from_copies m password) = texts [span_bytes m password] + texts wiped"
      using from_texts [of m password] by (simp add: Pair Inr x add.commute)
    show ?thesis
    proof (rule secret_step [OF _ inv])
      show "secret_exec (S_From m password) s = Some (Inr (), s\<lparr>ss_live := ss_live s @ [x], ss_freed := ss_freed s @ [],
          ss_wiped := ss_wiped s @ wiped, ss_made := ss_made s @ [span_bytes m password],
          ss_copied := ss_copied s @ from_copies m password, ss_dropped := ss_dropped s @ []\<rparr>)"
        by (simp add: Pair Inr)
      show "secret_ok y" if "y \<in> set (ss_live s @ [x])" for y using that x(1) live_ok [OF inv] by auto
    qed (simp_all add: t x(2) add.assoc)
  qed
qed

lemma secret_move_construct_inv:
  assumes inv: "secret_inv s" and i: "i < length (ss_live s)"
  shows "\<exists>r s'. secret_exec (S_Move_Construct i) s = Some (r, s') \<and> secret_inv s'"
proof -
  let ?x = "ss_live s ! i"
  let ?zero = "?x\<lparr>secret_bytes := map (\<lambda>_. 0) (secret_bytes ?x), secret_size := 0\<rparr>"
  let ?new = "empty_secret\<lparr>secret_bytes := secret_bytes ?x, secret_size := secret_size ?x\<rparr>"
  let ?live = "(ss_live s)[i := ?zero] @ [?new]"
  have x: "secret_ok ?x" using live_ok [OF inv] i by simp
  have t: "texts (map secret_bytes ?live) = texts (live_arrays s)"
    using texts_update [of i "live_arrays s" "secret_bytes ?zero"] i by (simp add: map_update)
  show ?thesis
  proof (rule secret_step [OF _ inv])
    show "secret_exec (S_Move_Construct i) s = Some (Inr (), s\<lparr>ss_live := ?live, ss_freed := ss_freed s @ [],
        ss_wiped := ss_wiped s @ [secret_bytes ?x], ss_made := ss_made s @ [],
        ss_copied := ss_copied s @ [secret_bytes ?x], ss_dropped := ss_dropped s @ []\<rparr>)" by (simp add: secret_moves)
    show "secret_ok y" if "y \<in> set ?live" for y
      using that updated_ok [of y "ss_live s" i ?zero secret_ok] live_ok [OF inv] moved_ok [OF x]
        value_ok [OF x, of empty_secret] by auto
  qed (simp_all only: t texts_simps list.set empty_iff add_0_right)
qed

lemma secret_move_assign_inv:
  assumes inv: "secret_inv s" and ij: "i < length (ss_live s)" "j < length (ss_live s)"
  shows "\<exists>r s'. secret_exec (S_Move_Assign i j) s = Some (r, s') \<and> secret_inv s'"
proof (cases "i = j")
  case True
  then show ?thesis using inv by (simp add: secret_move_assign_def)
next
  case False
  let ?x = "ss_live s ! i" and ?y = "ss_live s ! j"
  let ?zero = "?y\<lparr>secret_bytes := map (\<lambda>_. 0) (secret_bytes ?y), secret_size := 0\<rparr>"
  let ?new = "?x\<lparr>secret_bytes := secret_bytes ?y, secret_size := secret_size ?y\<rparr>"
  let ?mid = "(ss_live s)[i := ?new]"
  let ?live = "?mid[j := ?zero]"
  have y: "secret_ok ?y" using live_ok [OF inv] ij by simp
  have "texts (map secret_bytes ?live) + texts [secret_bytes ?y] = texts (map secret_bytes ?mid)"
    using texts_update [of j "map secret_bytes ?mid" "secret_bytes ?zero"] ij False by (simp add: map_update)
  moreover have "texts (map secret_bytes ?mid) + texts [secret_bytes ?x] = texts (live_arrays s) + texts [secret_bytes ?y]"
    using texts_update [of i "live_arrays s" "secret_bytes ?y"] ij by (simp add: map_update)
  ultimately have t: "texts (map secret_bytes ?live) + texts [secret_bytes ?x] = texts (live_arrays s)"
    by (rule sums_swap)
  show ?thesis
  proof (rule secret_step [OF _ inv])
    show "secret_exec (S_Move_Assign i j) s = Some (Inr (), s\<lparr>ss_live := ?live, ss_freed := ss_freed s @ [],
        ss_wiped := ss_wiped s @ [secret_bytes ?x, secret_bytes ?y], ss_made := ss_made s @ [],
        ss_copied := ss_copied s @ [secret_bytes ?y], ss_dropped := ss_dropped s @ [secret_bytes ?x]\<rparr>)"
      using False by (simp add: secret_moves)
    show "secret_ok x" if "x \<in> set ?live" for x
      using that updated_ok [of x ?mid j ?zero secret_ok] updated_ok [of _ "ss_live s" i ?new secret_ok] live_ok [OF inv]
        moved_ok [OF y] value_ok [OF y, of ?x] by blast
  qed (simp_all only: t texts_simps list.set empty_iff add_0_right add.assoc [symmetric])
qed

lemma secret_destroy_inv:
  assumes inv: "secret_inv s" and i: "i < length (ss_live s)"
  shows "\<exists>r s'. secret_exec (S_Destroy i) s = Some (r, s') \<and> secret_inv s'"
proof -
  let ?x = "ss_live s ! i" and ?live = "take i (ss_live s) @ drop (Suc i) (ss_live s)"
  have t: "texts (map secret_bytes ?live) + texts [secret_bytes ?x] = texts (live_arrays s)"
    using texts_remove [of i "live_arrays s"] i by (simp add: take_map drop_map)
  show ?thesis
  proof (rule secret_step [OF _ inv])
    show "secret_exec (S_Destroy i) s = Some (Inr (), s\<lparr>ss_live := ?live,
        ss_freed := ss_freed s @ [fst (secret_destroy ?x)], ss_wiped := ss_wiped s @ [secret_bytes ?x],
        ss_made := ss_made s @ [], ss_copied := ss_copied s @ [], ss_dropped := ss_dropped s @ [secret_bytes ?x]\<rparr>)"
      by (simp add: secret_moves)
    show "secret_ok x" if "x \<in> set ?live" for x
      using that live_ok [OF inv] by (auto dest: in_set_takeD in_set_dropD)
  qed (use cleansed [of ?x] in \<open>simp_all only: t texts_simps list.set empty_iff insert_iff add_0_right simp_thms\<close>)
qed

interpretation secrets: guarded_system secret_exec secret_op_ok secret_init secret_inv
proof (unfold_locales)
  show "\<exists>r s'. secret_exec op s = Some (r, s') \<and> secret_inv s'" if "secret_inv s" "secret_op_ok op s" for op s
    using that secret_from_inv secret_move_construct_inv secret_move_assign_inv secret_destroy_inv by (cases op) simp_all
qed (simp add: secret_init_def secret_inv_def)

text \<open>The copies \<open>verify_password\<close> makes: none unless the checks before \<open>from\<close> succeed.\<close>

definition verify_copies ::
    "memory \<Rightarrow> WorkerId \<Rightarrow> TextView \<Rightarrow> PasswordVerificationLimits \<Rightarrow> PasswordAuthWorker \<Rightarrow> byte list list" where
  "verify_copies m worker password limits aw =
     (if validate_limits limits = Inr () \<and> sid_value (aw_worker aw) = sid_value worker \<and>
         aw_maximum_in_flight aw \<noteq> 0 \<and> sp_size password \<le> lim_maximum_password_bytes limits
      then from_copies m password else [])"

lemma verify_texts:
  "texts (snd (verify_password_wiping crypt_r m worker password encoded_hash limits log_sink (aw, w))) =
   texts (verify_copies m worker password limits aw)"
  using from_texts [of m password]
  by (auto simp: verify_password_wiping_def verify_copies_def secret_destroy_def secret_cleanse_def
      split: sum.splits prod.splits)

section \<open>Properties\<close>

text \<open>
  C28: no password is left behind in memory. In every program that makes secrets of texts, moves and
  assigns them, also to themselves, and destroys them in any order, each password made into a secret is
  in exactly one live secret until that secret is destroyed or assigned to; a live secret is a text with its length,
  or empty; the storage of a destroyed secret is zero; and every copy that was ever written, also by a
  \<open>from\<close> that failed, is in a live secret or was wiped. \<open>verify_password\<close> wipes every copy
  it makes before it returns, whatever the outcome.
\<close>

theorem secret_password_cleansed:
  assumes "run_ok secret_exec secret_op_ok ops secret_init"
  shows "(\<exists>rs s. run secret_exec ops secret_init = Some (rs, s) \<and>
            (\<forall>x \<in> set (ss_live s). secret_view x = secret_c_str x) \<and> (\<forall>x \<in> set (ss_freed s). is_cleansed x) \<and>
            texts (ss_made s) = texts (map secret_bytes (ss_live s)) + texts (ss_dropped s) \<and>
            texts (ss_copied s) = texts (map secret_bytes (ss_live s)) + texts (ss_wiped s)) \<and>
         texts (snd (verify_password_wiping crypt_r m worker password encoded_hash limits log_sink (aw, w))) =
           texts (verify_copies m worker password limits aw)"
proof
  obtain rs s where "run secret_exec ops secret_init = Some (rs, s)" "secret_inv s"
    using secrets.run_inv [OF secrets.inv_init assms] by blast
  then show "\<exists>rs s. run secret_exec ops secret_init = Some (rs, s) \<and>
      (\<forall>x \<in> set (ss_live s). secret_view x = secret_c_str x) \<and> (\<forall>x \<in> set (ss_freed s). is_cleansed x) \<and>
      texts (ss_made s) = texts (map secret_bytes (ss_live s)) + texts (ss_dropped s) \<and>
      texts (ss_copied s) = texts (map secret_bytes (ss_live s)) + texts (ss_wiped s)"
    unfolding secret_inv_def secret_ok_def by blast
qed (rule verify_texts)

text \<open>Witness: two passwords, one assigned over the other and both secrets destroyed; and a request.\<close>

theorem secret_password_cleansed_witness:
  "(\<exists>rs s. run secret_exec [S_From (\<lambda>_. 7) \<lparr>sp_data = 0, sp_size = 2\<rparr>, S_From (\<lambda>_. 8) \<lparr>sp_data = 0, sp_size = 1\<rparr>,
        S_Move_Assign 0 1, S_Destroy 1, S_Destroy 0] secret_init = Some (rs, s) \<and>
      ss_live s = [] \<and> texts (ss_wiped s) = {#[7, 7], [7, 7], [8], [8], [8]#}) \<and>
   texts (snd (verify_password_wiping echo_crypt (\<lambda>_. 9) \<lparr>sid_value = 3\<rparr> \<lparr>sp_data = 0, sp_size = 2\<rparr>
      \<lparr>sp_data = 4, sp_size = 3\<rparr> example_limits \<lparr>sink_write = None\<rparr> (password_auth_worker \<lparr>sid_value = 3\<rparr> 1, 0))) =
     {#[9, 9], [9, 9]#}"
proof -
  let ?ops = "[S_From (\<lambda>_. 7) \<lparr>sp_data = 0, sp_size = 2\<rparr>, S_From (\<lambda>_. 8) \<lparr>sp_data = 0, sp_size = 1\<rparr>,
      S_Move_Assign 0 1, S_Destroy 1, S_Destroy 0]"
  have bytes: "span_bytes (\<lambda>_. b) \<lparr>sp_data = 0, sp_size = 2\<rparr> = [b, b]" "span_bytes (\<lambda>_. b) \<lparr>sp_data = 0, sp_size = 1\<rparr> = [b]"
    for b by (simp_all add: span_bytes_def upt_rec)
  have cap: "\<not> password_c_string_capacity \<le> 2" "\<not> password_c_string_capacity \<le> Suc 0"
    by (simp_all del: One_nat_def add: password_c_string_capacity_def maximum_supported_password_bytes_def)
  have ok: "run_ok secret_exec secret_op_ok ?ops secret_init"
    by (simp add: secret_init_def secret_from_eq bytes cap secret_move_assign_def secret_move_from_def
        secret_cleanse_def secret_destroy_def Let_def)
  note claim = secret_password_cleansed [OF ok, where crypt_r = echo_crypt and m = "\<lambda>_. 9" and worker = "\<lparr>sid_value = 3\<rparr>"
    and password = "\<lparr>sp_data = 0, sp_size = 2\<rparr>" and encoded_hash = "\<lparr>sp_data = 4, sp_size = 3\<rparr>"
    and limits = example_limits and log_sink = "\<lparr>sink_write = None\<rparr>" and aw = "password_auth_worker \<lparr>sid_value = 3\<rparr> 1" and w = 0]
  obtain rs s where s: "run secret_exec ?ops secret_init = Some (rs, s)"
    "texts (ss_copied s) = texts (map secret_bytes (ss_live s)) + texts (ss_wiped s)" using claim by blast
  have last: "ss_live s = []" "ss_copied s = [[7, 7], [7, 7], [8], [8], padded [8]]"
    using s(1) by (auto simp: secret_init_def secret_from_eq from_copies_def bytes cap secret_move_assign_def
        secret_move_from_def secret_cleanse_def secret_destroy_def Let_def)
  have wiped: "texts (ss_wiped s) = {#[7, 7], [7, 7], [8], [8], [8]#}"
    using s(2) texts_padded_whole [of "[8]"] unfolding last by (simp add: texts_single array_text_def add_mset_commute)
  have "verify_copies (\<lambda>_. 9) \<lparr>sid_value = 3\<rparr> \<lparr>sp_data = 0, sp_size = 2\<rparr> example_limits
      (password_auth_worker \<lparr>sid_value = 3\<rparr> 1) = [[9, 9], [9, 9]]"
    by (simp add: verify_copies_def from_copies_def bytes cap validate_limits_def example_limits_def password_auth_worker_def
        maximum_supported_password_bytes_def bcrypt_minimum_cost_def bcrypt_maximum_cost_def
        sha512_minimum_rounds_def sha512_maximum_rounds_def)
  then have "texts (snd (verify_password_wiping echo_crypt (\<lambda>_. 9) \<lparr>sid_value = 3\<rparr> \<lparr>sp_data = 0, sp_size = 2\<rparr>
      \<lparr>sp_data = 4, sp_size = 3\<rparr> example_limits \<lparr>sink_write = None\<rparr> (password_auth_worker \<lparr>sid_value = 3\<rparr> 1, 0))) =
      {#[9, 9], [9, 9]#}"
    using conjunct2 [OF claim] by (simp add: texts_single array_text_def)
  with s(1) last(1) wiped show ?thesis by blast
qed

end
