(* ===== verification/Bench_Json.thy ===== *)
theory Bench_Json
  imports Laghu_Prelude "HOL-Library.Char_ord" "HOL-Library.Monad_Syntax"
begin

text \<open>
  The JSON documents of \<open>bench/evaluator.cpp\<close>: a parser that fills three tables of bounded size,
  and the lookups in them. Texts are lists of characters. The document's storage is never changed
  after it is read, so a view into it is the text it shows; a pointer to a node is its index, and
  the null pointer is \<open>None\<close>. A parse that fails ends the program's use of the document, so it
  is \<open>None\<close>. The recursion of the parser is bounded by the depth; the loops over members and
  elements have the size of the document as fuel, which the lemmas show to be enough.
  The lemmas then show that the parser accepts exactly the texts of a reference grammar that fit the tables,
  and that the tables represent the value of the text.
\<close>

section \<open>Definitions\<close>

definition maximum_document_bytes :: nat where "maximum_document_bytes = 262144"
definition maximum_json_nodes :: nat where "maximum_json_nodes = 8192"
definition maximum_json_members :: nat where "maximum_json_members = 1024"
definition maximum_json_elements :: nat where "maximum_json_elements = 8192"

datatype JsonType = JT_null_value | JT_boolean | JT_number | JT_string | JT_array | JT_object

record JsonNode =
  jn_type :: JsonType
  jn_string :: string
  jn_raw :: string
  jn_number :: u64
  jn_boolean :: bool

record JsonMember =
  jm_parent :: nat
  jm_key :: string
  jm_value :: nat

record JsonElement =
  je_parent :: nat
  je_value :: nat

definition is_space :: "char \<Rightarrow> bool" where
  "is_space c \<longleftrightarrow> c = CHR '' '' \<or> c = CHR 0x0A \<or> c = CHR 0x0D \<or> c = CHR 0x09"

definition is_digit :: "char \<Rightarrow> bool" where
  "is_digit c \<longleftrightarrow> c \<ge> CHR ''0'' \<and> c \<le> CHR ''9''"

definition is_hex :: "char \<Rightarrow> bool" where
  "is_hex c \<longleftrightarrow> c \<ge> CHR ''0'' \<and> c \<le> CHR ''9'' \<or> c \<ge> CHR ''a'' \<and> c \<le> CHR ''f'' \<or>
     c \<ge> CHR ''A'' \<and> c \<le> CHR ''F''"

record JsonDocument =
  jd_storage :: string
  jd_nodes :: "JsonNode list"
  jd_members :: "JsonMember list"
  jd_elements :: "JsonElement list"
  jd_cursor :: nat
  jd_root :: nat

text \<open>What is left to read.\<close>

definition jd_rest :: "JsonDocument \<Rightarrow> string" where
  "jd_rest d = drop (jd_cursor d) (jd_storage d)"

definition advance :: "nat \<Rightarrow> JsonDocument \<Rightarrow> JsonDocument" where
  "advance n d = d\<lparr>jd_cursor := jd_cursor d + n\<rparr>"

definition jd_node :: "JsonDocument \<Rightarrow> nat \<Rightarrow> nat option" where
  "jd_node d index = (if index < length (jd_nodes d) then Some index else None)"

definition skip_space :: "JsonDocument \<Rightarrow> JsonDocument" where
  "skip_space d = advance (length (takeWhile is_space (jd_rest d))) d"

text \<open>
  The loop of \<open>parse_string\<close> on the text behind the opening quote: the number of characters
  before the closing one.
\<close>

fun scan_string :: "string \<Rightarrow> nat option" where
  "scan_string [] = None"
| "scan_string (character # rest) =
     (if character = CHR 0x22 then Some 0
      else if character < CHR 0x20 then None
      else if character = CHR 0x5C then
        (case rest of
           [] \<Rightarrow> None
         | escape # rest' \<Rightarrow>
             if escape = CHR ''u'' then
               (if length rest' < 4 then None
                else if \<not> list_all is_hex (take 4 rest') then None
                else map_option (\<lambda>n. n + 6) (scan_string (drop 4 rest')))
             else if escape \<notin> {CHR 0x22, CHR 0x5C, CHR ''/'', CHR ''b'', CHR ''f'', CHR ''n'', CHR ''r'', CHR ''t''}
               then None
             else map_option (\<lambda>n. n + 2) (scan_string rest'))
      else map_option Suc (scan_string rest))"

definition parse_string :: "JsonDocument \<Rightarrow> (string \<times> JsonDocument) option" where
  "parse_string d =
     (case jd_rest d of
        [] \<Rightarrow> None
      | character # rest \<Rightarrow>
          if character \<noteq> CHR 0x22 then None
          else map_option (\<lambda>n. (take n rest, advance (n + 2) d)) (scan_string rest))"

text \<open>\<open>std::from_chars\<close> for a text of digits and 64 bits.\<close>

definition from_chars :: "string \<Rightarrow> u64 option" where
  "from_chars ds =
     (let v = decimal_value of_char ds 0 in if v < 2 ^ 64 then Some (of_nat v) else None)"

definition parse_number :: "JsonDocument \<Rightarrow> (u64 \<times> JsonDocument) option" where
  "parse_number d =
     (let digits = takeWhile is_digit (jd_rest d) in
      if digits = [] then None
      else if hd digits = CHR ''0'' \<and> length digits > 1 then None
      else map_option (\<lambda>v. (v, advance (length digits) d)) (from_chars digits))"

definition append_node :: "JsonType \<Rightarrow> JsonDocument \<Rightarrow> (nat \<times> JsonDocument) option" where
  "append_node ty d =
     (if length (jd_nodes d) = maximum_json_nodes then None
      else Some (length (jd_nodes d),
                 d\<lparr>jd_nodes := jd_nodes d @
                   [\<lparr>jn_type = ty, jn_string = [], jn_raw = [], jn_number = 0, jn_boolean = False\<rparr>]\<rparr>))"

definition set_node :: "nat \<Rightarrow> (JsonNode \<Rightarrow> JsonNode) \<Rightarrow> JsonDocument \<Rightarrow> JsonDocument" where
  "set_node i f d = d\<lparr>jd_nodes := (jd_nodes d)[i := f (jd_nodes d ! i)]\<rparr>"

definition append_member :: "nat \<Rightarrow> string \<Rightarrow> nat \<Rightarrow> JsonDocument \<Rightarrow> JsonDocument option" where
  "append_member parent key v d =
     (if length (jd_members d) = maximum_json_members then None
      else Some (d\<lparr>jd_members := jd_members d @ [\<lparr>jm_parent = parent, jm_key = key, jm_value = v\<rparr>]\<rparr>))"

definition append_element :: "nat \<Rightarrow> nat \<Rightarrow> JsonDocument \<Rightarrow> JsonDocument option" where
  "append_element parent v d =
     (if length (jd_elements d) = maximum_json_elements then None
      else Some (d\<lparr>jd_elements := jd_elements d @ [\<lparr>je_parent = parent, je_value = v\<rparr>]\<rparr>))"

text \<open>The next character, if there is one.\<close>

definition jd_peek :: "JsonDocument \<Rightarrow> char option" where
  "jd_peek d = (case jd_rest d of [] \<Rightarrow> None | c # _ \<Rightarrow> Some c)"

type_synonym value_parser = "JsonDocument \<Rightarrow> (nat \<times> JsonDocument) option"

text \<open>The loop of \<open>parse_object\<close>; the parser of the values is the recursive call.\<close>

primrec object_loop :: "value_parser \<Rightarrow> nat \<Rightarrow> nat \<Rightarrow> JsonDocument \<Rightarrow> JsonDocument option" where
  "object_loop parse_value parent 0 d = None"
| "object_loop parse_value parent (Suc fuel) d =
     (if \<not> jd_cursor d < length (jd_storage d) then None
      else do {
        (key, d) \<leftarrow> parse_string d;
        if list_ex (\<lambda>m. jm_parent m = parent \<and> jm_key m = key) (jd_members d) then None
        else
          let d = skip_space d in
          if jd_peek d \<noteq> Some (CHR '':'') then None
          else do {
            (v, d) \<leftarrow> parse_value (skip_space (advance 1 d));
            d \<leftarrow> append_member parent key v d;
            let d = skip_space d in
            if jd_peek d = Some (CHR ''}'') then Some (advance 1 d)
            else if jd_peek d \<noteq> Some (CHR '','') then None
            else object_loop parse_value parent fuel (skip_space (advance 1 d)) } })"

definition parse_object :: "value_parser \<Rightarrow> nat \<Rightarrow> JsonDocument \<Rightarrow> JsonDocument option" where
  "parse_object parse_value parent d =
     (let d = skip_space (advance 1 d) in
      if jd_peek d = Some (CHR ''}'') then Some (advance 1 d)
      else object_loop parse_value parent (length (jd_storage d)) d)"

primrec array_loop :: "value_parser \<Rightarrow> nat \<Rightarrow> nat \<Rightarrow> JsonDocument \<Rightarrow> JsonDocument option" where
  "array_loop parse_value parent 0 d = None"
| "array_loop parse_value parent (Suc fuel) d =
     (if \<not> jd_cursor d < length (jd_storage d) then None
      else do {
        (v, d) \<leftarrow> parse_value d;
        d \<leftarrow> append_element parent v d;
        let d = skip_space d in
        if jd_peek d = Some (CHR '']'') then Some (advance 1 d)
        else if jd_peek d \<noteq> Some (CHR '','') then None
        else array_loop parse_value parent fuel (skip_space (advance 1 d)) })"

definition parse_array :: "value_parser \<Rightarrow> nat \<Rightarrow> JsonDocument \<Rightarrow> JsonDocument option" where
  "parse_array parse_value parent d =
     (let d = skip_space (advance 1 d) in
      if jd_peek d = Some (CHR '']'') then Some (advance 1 d)
      else array_loop parse_value parent (length (jd_storage d)) d)"

text \<open>
  The levels are those still permitted: 65 for the root, whose depth is 0, and none for a depth above 64.
\<close>

primrec parse_value :: "nat \<Rightarrow> value_parser" where
  "parse_value 0 d = None"
| "parse_value (Suc levels) d =
     (let d = skip_space d; start = jd_cursor d in
      case jd_rest d of
        [] \<Rightarrow> None
      | character # _ \<Rightarrow>
          do {
            (output, d) \<leftarrow>
              (if character = CHR 0x22 then do {
                 (output, d) \<leftarrow> append_node JT_string d;
                 (s, d) \<leftarrow> parse_string d;
                 Some (output, set_node output (\<lambda>n. n\<lparr>jn_string := s\<rparr>) d) }
               else if character = CHR ''{'' then do {
                 (output, d) \<leftarrow> append_node JT_object d;
                 d \<leftarrow> parse_object (parse_value levels) output d;
                 Some (output, d) }
               else if character = CHR ''['' then do {
                 (output, d) \<leftarrow> append_node JT_array d;
                 d \<leftarrow> parse_array (parse_value levels) output d;
                 Some (output, d) }
               else if take 4 (jd_rest d) = ''true'' then do {
                 (output, d) \<leftarrow> append_node JT_boolean d;
                 Some (output, advance 4 (set_node output (\<lambda>n. n\<lparr>jn_boolean := True\<rparr>) d)) }
               else if take 5 (jd_rest d) = ''false'' then do {
                 (output, d) \<leftarrow> append_node JT_boolean d;
                 Some (output, advance 5 d) }
               else if take 4 (jd_rest d) = ''null'' then do {
                 (output, d) \<leftarrow> append_node JT_null_value d;
                 Some (output, advance 4 d) }
               else do {
                 (output, d) \<leftarrow> append_node JT_number d;
                 (v, d) \<leftarrow> parse_number d;
                 Some (output, set_node output (\<lambda>n. n\<lparr>jn_number := v\<rparr>) d) });
            Some (output, set_node output
              (\<lambda>n. n\<lparr>jn_raw := take (jd_cursor d - start) (drop start (jd_storage d))\<rparr>) d) })"

text \<open>The document of a text that was read, or none if it is refused.\<close>

definition document_of :: "string \<Rightarrow> JsonDocument option" where
  "document_of txt =
     (if txt = [] then None
      else do {
        (root, d) \<leftarrow> parse_value 65 \<lparr>jd_storage = txt, jd_nodes = [], jd_members = [], jd_elements = [],
                                   jd_cursor = 0, jd_root = 0\<rparr>;
        let d = skip_space d in
        if jd_cursor d = length (jd_storage d) then Some (d\<lparr>jd_root := root\<rparr>) else None })"

definition document_root :: "JsonDocument \<Rightarrow> nat option" where
  "document_root d = jd_node d (jd_root d)"

definition document_field :: "JsonDocument \<Rightarrow> nat option \<Rightarrow> string \<Rightarrow> nat option" where
  "document_field d object key =
     (case object of
        None \<Rightarrow> None
      | Some index \<Rightarrow>
          if jn_type (jd_nodes d ! index) \<noteq> JT_object then None
          else case List.find (\<lambda>m. jm_parent m = index \<and> jm_key m = key) (jd_members d) of
            None \<Rightarrow> None
          | Some m \<Rightarrow> jd_node d (jm_value m))"

primrec nth_element :: "JsonElement list \<Rightarrow> nat \<Rightarrow> nat \<Rightarrow> nat \<Rightarrow> nat option" where
  "nth_element [] index ordinal found = None"
| "nth_element (e # es) index ordinal found =
     (if je_parent e = index
      then (if found = ordinal then Some (je_value e) else nth_element es index ordinal (found + 1))
      else nth_element es index ordinal found)"

definition document_element :: "JsonDocument \<Rightarrow> nat option \<Rightarrow> nat \<Rightarrow> nat option" where
  "document_element d arr ordinal =
     (case arr of
        None \<Rightarrow> None
      | Some index \<Rightarrow>
          if jn_type (jd_nodes d ! index) \<noteq> JT_array then None
          else case nth_element (jd_elements d) index ordinal 0 of
            None \<Rightarrow> None
          | Some v \<Rightarrow> jd_node d v)"

definition document_element_count :: "JsonDocument \<Rightarrow> nat option \<Rightarrow> nat" where
  "document_element_count d arr =
     (case arr of
        None \<Rightarrow> 0
      | Some index \<Rightarrow>
          if jn_type (jd_nodes d ! index) \<noteq> JT_array then 0
          else length (filter (\<lambda>e. je_parent e = index) (jd_elements d)))"


section \<open>Grammar\<close>

text \<open>
  The reference: values, and the texts that denote them. Numbers are unsigned 64-bit integers,
  strings keep their escapes, and an object has no key twice.
\<close>

datatype json =
    J_null
  | J_bool bool
  | J_number nat
  | J_string string
  | J_array "json list"
  | J_object "(string \<times> json) list"

abbreviation ws :: "string \<Rightarrow> bool" where
  "ws \<equiv> list_all is_space"

inductive string_body :: "string \<Rightarrow> bool" where
  body_empty: "string_body []"
| body_plain: "CHR 0x20 \<le> c \<Longrightarrow> c \<noteq> CHR 0x22 \<Longrightarrow> c \<noteq> CHR 0x5C \<Longrightarrow> string_body s \<Longrightarrow> string_body (c # s)"
| body_escape: "e \<in> {CHR 0x22, CHR 0x5C, CHR ''/'', CHR ''b'', CHR ''f'', CHR ''n'', CHR ''r'', CHR ''t''} \<Longrightarrow>
     string_body s \<Longrightarrow> string_body (CHR 0x5C # e # s)"
| body_unicode: "length h = 4 \<Longrightarrow> list_all is_hex h \<Longrightarrow> string_body s \<Longrightarrow>
     string_body (CHR 0x5C # CHR ''u'' # h @ s)"

definition number_text :: "nat \<Rightarrow> string \<Rightarrow> bool" where
  "number_text n ds \<longleftrightarrow> ds \<noteq> [] \<and> list_all is_digit ds \<and> (hd ds = CHR ''0'' \<longrightarrow> length ds = 1) \<and>
     decimal_value of_char ds 0 = n \<and> n < 2 ^ 64"

inductive elements_text :: "(json \<Rightarrow> string \<Rightarrow> bool) \<Rightarrow> json list \<Rightarrow> string \<Rightarrow> bool" for G where
  elements_last: "ws w1 \<Longrightarrow> G v t \<Longrightarrow> ws w2 \<Longrightarrow> elements_text G [v] (w1 @ t @ w2)"
| elements_more: "ws w1 \<Longrightarrow> G v t \<Longrightarrow> ws w2 \<Longrightarrow> elements_text G vs u \<Longrightarrow>
     elements_text G (v # vs) (w1 @ t @ w2 @ CHR '','' # u)"

abbreviation quoted :: "string \<Rightarrow> string" where
  "quoted k \<equiv> CHR 0x22 # k @ [CHR 0x22]"

inductive members_text :: "(json \<Rightarrow> string \<Rightarrow> bool) \<Rightarrow> (string \<times> json) list \<Rightarrow> string \<Rightarrow> bool" for G where
  members_last: "ws w1 \<Longrightarrow> string_body k \<Longrightarrow> ws w2 \<Longrightarrow> ws w3 \<Longrightarrow> G v t \<Longrightarrow> ws w4 \<Longrightarrow>
     members_text G [(k, v)] (w1 @ quoted k @ w2 @ CHR '':'' # w3 @ t @ w4)"
| members_more: "ws w1 \<Longrightarrow> string_body k \<Longrightarrow> ws w2 \<Longrightarrow> ws w3 \<Longrightarrow> G v t \<Longrightarrow> ws w4 \<Longrightarrow> members_text G kvs u \<Longrightarrow>
     members_text G ((k, v) # kvs) (w1 @ quoted k @ w2 @ CHR '':'' # w3 @ t @ w4 @ CHR '','' # u)"

primrec json_text :: "nat \<Rightarrow> json \<Rightarrow> string \<Rightarrow> bool" where
  "json_text 0 v t \<longleftrightarrow> False"
| "json_text (Suc levels) v t \<longleftrightarrow>
     (case v of
        J_null \<Rightarrow> t = ''null''
      | J_bool b \<Rightarrow> t = (if b then ''true'' else ''false'')
      | J_number n \<Rightarrow> number_text n t
      | J_string s \<Rightarrow> string_body s \<and> t = quoted s
      | J_array vs \<Rightarrow> (\<exists>u. t = CHR ''['' # u @ [CHR '']''] \<and>
          (vs = [] \<and> ws u \<or> elements_text (json_text levels) vs u))
      | J_object kvs \<Rightarrow> distinct (map fst kvs) \<and> (\<exists>u. t = CHR ''{'' # u @ [CHR ''}''] \<and>
          (kvs = [] \<and> ws u \<or> members_text (json_text levels) kvs u)))"

text \<open>What a value takes in the tables.\<close>

fun nodes_of :: "json \<Rightarrow> nat" where
  "nodes_of (J_array vs) = 1 + sum_list (map nodes_of vs)"
| "nodes_of (J_object kvs) = 1 + sum_list (map (\<lambda>(k, v). nodes_of v) kvs)"
| "nodes_of _ = 1"

fun members_of :: "json \<Rightarrow> nat" where
  "members_of (J_array vs) = sum_list (map members_of vs)"
| "members_of (J_object kvs) = length kvs + sum_list (map (\<lambda>(k, v). members_of v) kvs)"
| "members_of _ = 0"

fun elements_of :: "json \<Rightarrow> nat" where
  "elements_of (J_array vs) = length vs + sum_list (map elements_of vs)"
| "elements_of (J_object kvs) = sum_list (map (\<lambda>(k, v). elements_of v) kvs)"
| "elements_of _ = 0"

section \<open>Reading\<close>

lemma rest_advance [simp]: "jd_rest (advance n d) = drop n (jd_rest d)"
  by (simp add: jd_rest_def advance_def add.commute)

lemma storage_advance [simp]: "jd_storage (advance n d) = jd_storage d" "jd_nodes (advance n d) = jd_nodes d"
  "jd_members (advance n d) = jd_members d" "jd_elements (advance n d) = jd_elements d"
  "jd_cursor (advance n d) = jd_cursor d + n"
  by (simp_all add: advance_def)

lemma rest_skip_space [simp]: "jd_rest (skip_space d) = dropWhile is_space (jd_rest d)"
  by (simp add: skip_space_def dropWhile_eq_drop)

lemma storage_skip_space [simp]: "jd_storage (skip_space d) = jd_storage d" "jd_nodes (skip_space d) = jd_nodes d"
  "jd_members (skip_space d) = jd_members d" "jd_elements (skip_space d) = jd_elements d"
  by (simp_all add: skip_space_def)

lemma skip_ws: "ws w \<Longrightarrow> dropWhile is_space (w @ s) = dropWhile is_space s"
  by (induction w) auto

lemma ws_before: "\<exists>w. ws w \<and> s = w @ dropWhile is_space s"
  by (intro exI [of _ "takeWhile is_space s"]) (auto simp: list_all_iff dest: set_takeWhileD)

lemma scan_string_body: "string_body s \<Longrightarrow> scan_string (s @ CHR 0x22 # rest) = Some (length s)"
  by (induction rule: string_body.induct) (auto simp: not_less)

lemma scan_string_sound:
  "scan_string r = Some n \<Longrightarrow> \<exists>s rest. r = s @ CHR 0x22 # rest \<and> string_body s \<and> n = length s"
proof (induction r arbitrary: n rule: scan_string.induct)
  case (2 character rest)
  consider "character = CHR 0x22" | e rest' where "character = CHR 0x5C" "rest = e # rest'" "e = CHR ''u''"
    | e rest' where "character = CHR 0x5C" "rest = e # rest'" "e \<noteq> CHR ''u''"
    | "character \<noteq> CHR 0x22" "character \<noteq> CHR 0x5C"
    using "2.prems" by (cases rest) (auto split: if_splits)
  then show ?case
  proof cases
    case 1
    with "2.prems" show ?thesis by (intro exI [of _ "[]"] exI [of _ rest]) (simp add: body_empty)
  next
    case (2 e rest')
    with "2.prems" obtain k where k: "scan_string (drop 4 rest') = Some k" "n = k + 6" "4 \<le> length rest'"
      "list_all is_hex (take 4 rest')" by (auto split: if_splits)
    have "\<exists>s rest. drop 4 rest' = s @ CHR 0x22 # rest \<and> string_body s \<and> k = length s"
      using "2.IH"(1) [of e rest' k] 2 k by auto
    then obtain s rest where s: "drop 4 rest' = s @ CHR 0x22 # rest" "string_body s" "k = length s" by blast
    have "rest' = take 4 rest' @ s @ CHR 0x22 # rest" using s(1) by (metis append_take_drop_id)
    with 2 k s body_unicode [of "take 4 rest'" s] show ?thesis
      by (intro exI [of _ "CHR 0x5C # CHR ''u'' # take 4 rest' @ s"] exI [of _ rest]) simp
  next
    case (3 e rest')
    with "2.prems" obtain k where k: "scan_string rest' = Some k" "n = k + 2"
      "e \<in> {CHR 0x22, CHR 0x5C, CHR ''/'', CHR ''b'', CHR ''f'', CHR ''n'', CHR ''r'', CHR ''t''}"
      by (auto split: if_splits)
    have "\<exists>s rest. rest' = s @ CHR 0x22 # rest \<and> string_body s \<and> k = length s"
      using "2.IH"(2) [of e rest' k] 3 k by auto
    then obtain s rest where s: "rest' = s @ CHR 0x22 # rest" "string_body s" "k = length s" by blast
    with 3 k body_escape [OF k(3) s(2)] show ?thesis
      by (intro exI [of _ "CHR 0x5C # e # s"] exI [of _ rest]) simp
  next
    case 4
    with "2.prems" obtain k where k: "scan_string rest = Some k" "n = Suc k" "CHR 0x20 \<le> character"
      by (auto split: if_splits simp: not_less)
    have "\<exists>s rest'. rest = s @ CHR 0x22 # rest' \<and> string_body s \<and> k = length s"
      using "2.IH"(3) [of k] 4 k by auto
    then obtain s rest' where "rest = s @ CHR 0x22 # rest'" "string_body s" "k = length s" by blast
    with 4 k body_plain [of character s] show ?thesis
      by (intro exI [of _ "character # s"] exI [of _ rest']) simp
  qed
qed simp


lemma parse_string_exact:
  "parse_string d = Some (k, d') \<longleftrightarrow>
   string_body k \<and> (\<exists>rest. jd_rest d = quoted k @ rest) \<and> d' = advance (length k + 2) d"
proof
  assume h: "parse_string d = Some (k, d')"
  then obtain rest n where r: "jd_rest d = CHR 0x22 # rest" "scan_string rest = Some n" "k = take n rest"
      "d' = advance (n + 2) d"
    by (auto simp: parse_string_def split: list.splits if_splits)
  from scan_string_sound [OF r(2)] obtain s rest' where "rest = s @ CHR 0x22 # rest'" "string_body s" "n = length s"
    by blast
  with r show "string_body k \<and> (\<exists>rest. jd_rest d = quoted k @ rest) \<and> d' = advance (length k + 2) d" by simp
next
  assume "string_body k \<and> (\<exists>rest. jd_rest d = quoted k @ rest) \<and> d' = advance (length k + 2) d"
  then obtain rest where "string_body k" "jd_rest d = CHR 0x22 # k @ CHR 0x22 # rest" "d' = advance (length k + 2) d"
    by auto
  then show "parse_string d = Some (k, d')" by (simp add: parse_string_def scan_string_body)
qed

lemma from_chars_Some: "from_chars ds = Some v \<longleftrightarrow> decimal_value of_char ds 0 = unat v"
  using unat_bound [of v] by (auto simp: from_chars_def Let_def unat_of_nat_small)

lemma parse_number_exact:
  "parse_number d = Some (v, d') \<longleftrightarrow>
   (let ds = takeWhile is_digit (jd_rest d) in number_text (unat v) ds \<and> d' = advance (length ds) d)"
proof -
  have "list_all is_digit (takeWhile is_digit s)" for s by (auto simp: list_all_iff dest: set_takeWhileD)
  moreover have "length ds \<noteq> 1 \<longleftrightarrow> 1 < length ds" if "ds \<noteq> []" for ds :: string using that by (cases ds) auto
  ultimately show ?thesis
    using unat_bound [of v] unfolding parse_number_def number_text_def Let_def
    by (auto simp: from_chars_Some)
qed

section \<open>Tables\<close>

definition member_list :: "JsonDocument \<Rightarrow> nat \<Rightarrow> (string \<times> nat) list" where
  "member_list d k = map (\<lambda>m. (jm_key m, jm_value m)) (filter (\<lambda>m. jm_parent m = k) (jd_members d))"

definition element_list :: "JsonDocument \<Rightarrow> nat \<Rightarrow> nat list" where
  "element_list d k = map je_value (filter (\<lambda>e. je_parent e = k) (jd_elements d))"

text \<open>Every entry belongs to a node.\<close>

definition closed :: "JsonDocument \<Rightarrow> bool" where
  "closed d \<longleftrightarrow> (\<forall>m \<in> set (jd_members d). jm_parent m < length (jd_nodes d)) \<and>
     (\<forall>e \<in> set (jd_elements d). je_parent e < length (jd_nodes d))"

lemma closed_same [simp]: "closed (advance n d) = closed d" "closed (skip_space d) = closed d"
  by (simp_all add: closed_def)

lemma closed_fresh: "closed d \<Longrightarrow> length (jd_nodes d) \<le> k \<Longrightarrow> member_list d k = [] \<and> element_list d k = []"
  by (auto simp: closed_def member_list_def element_list_def filter_empty_conv)

text \<open>The tables grew: nodes were only added, and members and elements only of the given parents.\<close>

definition grown :: "(nat \<Rightarrow> bool) \<Rightarrow> JsonDocument \<Rightarrow> JsonDocument \<Rightarrow> bool" where
  "grown P d d' \<longleftrightarrow> jd_storage d' = jd_storage d \<and> (\<exists>ns. jd_nodes d' = jd_nodes d @ ns) \<and>
     (\<exists>ms. jd_members d' = jd_members d @ ms \<and> (\<forall>m \<in> set ms. P (jm_parent m))) \<and>
     (\<exists>es. jd_elements d' = jd_elements d @ es \<and> (\<forall>e \<in> set es. P (je_parent e))) \<and>
     (closed d \<longrightarrow> closed d')"

lemma grown_refl [simp]: "grown P d d" "grown P d (advance n d)" "grown P d (skip_space d)"
  by (simp_all add: grown_def closed_same)

lemma lists_same [simp]:
  "member_list (advance n d) k = member_list d k" "member_list (skip_space d) k = member_list d k"
  "element_list (advance n d) k = element_list d k" "element_list (skip_space d) k = element_list d k"
  by (simp_all add: member_list_def element_list_def)

lemma grown_same [simp]:
  "grown P (advance n d) d' = grown P d d'" "grown P (skip_space d) d' = grown P d d'"
  "grown P d (advance n d') = grown P d d'" "grown P d (skip_space d') = grown P d d'"
  by (simp_all add: grown_def)

lemma grown_trans: "grown P d d' \<Longrightarrow> grown Q d' d'' \<Longrightarrow> (\<And>k. P k \<or> Q k \<Longrightarrow> R k) \<Longrightarrow> grown R d d''"
  unfolding grown_def by fastforce

lemma grown_lists: "grown P d d' \<Longrightarrow> \<not> P k \<Longrightarrow> member_list d' k = member_list d k \<and> element_list d' k = element_list d k"
proof -
  assume h: "grown P d d'" "\<not> P k"
  then obtain ms es where "jd_members d' = jd_members d @ ms" "\<forall>m \<in> set ms. P (jm_parent m)"
    "jd_elements d' = jd_elements d @ es" "\<forall>e \<in> set es. P (je_parent e)" unfolding grown_def by blast
  moreover from this h(2) have "filter (\<lambda>m. jm_parent m = k) ms = []" "filter (\<lambda>e. je_parent e = k) es = []"
    by (auto simp: filter_empty_conv)
  ultimately show ?thesis by (simp add: member_list_def element_list_def)
qed

lemma grown_nodes: "grown P d d' \<Longrightarrow> k < length (jd_nodes d) \<Longrightarrow> jd_nodes d' ! k = jd_nodes d ! k"
  "grown P d d' \<Longrightarrow> length (jd_nodes d) \<le> length (jd_nodes d')"
  by (auto simp: grown_def nth_append)

text \<open>A node and everything below it, within a range of the nodes, represents a value.\<close>

function jrep :: "JsonDocument \<Rightarrow> nat \<Rightarrow> nat \<Rightarrow> nat \<Rightarrow> json \<Rightarrow> bool" where
  "jrep d lo hi i v \<longleftrightarrow> lo \<le> i \<and> i < hi \<and> hi \<le> length (jd_nodes d) \<and>
     (case v of
        J_null \<Rightarrow> jn_type (jd_nodes d ! i) = JT_null_value
      | J_bool b \<Rightarrow> jn_type (jd_nodes d ! i) = JT_boolean \<and> jn_boolean (jd_nodes d ! i) = b
      | J_number n \<Rightarrow> jn_type (jd_nodes d ! i) = JT_number \<and> unat (jn_number (jd_nodes d ! i)) = n
      | J_string s \<Rightarrow> jn_type (jd_nodes d ! i) = JT_string \<and> jn_string (jd_nodes d ! i) = s
      | J_array vs \<Rightarrow> jn_type (jd_nodes d ! i) = JT_array \<and> length (element_list d i) = length vs \<and>
          (\<forall>(j, v) \<in> set (zip (element_list d i) vs). jrep d lo hi j v)
      | J_object kvs \<Rightarrow> jn_type (jd_nodes d ! i) = JT_object \<and> map fst (member_list d i) = map fst kvs \<and>
          (\<forall>(j, kv) \<in> set (zip (member_list d i) kvs). jrep d lo hi (snd j) (snd kv)))"

  by pat_completeness auto
termination
  by (relation "measure (\<lambda>(_, _, _, _, v). size v)")
    (auto dest!: set_zip_rightD intro!: le_imp_less_Suc intro: size_list_estimation')

declare jrep.simps [simp del]


definition node_content :: "JsonNode \<Rightarrow> JsonType \<times> string \<times> u64 \<times> bool" where
  "node_content n = (jn_type n, jn_string n, jn_number n, jn_boolean n)"

lemma jrep_agree:
  assumes "jrep d lo hi i v"
    and same: "\<And>k. lo \<le> k \<Longrightarrow> k < hi \<Longrightarrow> node_content (jd_nodes d' ! k) = node_content (jd_nodes d ! k) \<and>
      member_list d' k = member_list d k \<and> element_list d' k = element_list d k"
    and range: "lo' \<le> lo" "hi \<le> hi'" "hi' \<le> length (jd_nodes d')"
  shows "jrep d' lo' hi' i v"
  using assms
proof (induction d lo hi i v rule: jrep.induct)
  case (1 d lo hi i v)
  note rep = "1.prems"(1) [unfolded jrep.simps [of d lo hi i v]]
  have i: "node_content (jd_nodes d' ! i) = node_content (jd_nodes d ! i)" "member_list d' i = member_list d i"
      "element_list d' i = element_list d i" "lo' \<le> i" "i < hi'"
    using "1.prems"(2) [of i] rep "1.prems"(3,4) by simp_all
  show ?case
  proof (cases v)
    case (J_array vs)
    have "jrep d' lo' hi' j x" if "(j, x) \<in> set (zip (element_list d i) vs)" for j x
      using "1.IH"(1) [OF J_array that refl _ "1.prems"(2) "1.prems"(3-5)] rep J_array that by fastforce
    then show ?thesis using i rep "1.prems"(5) J_array
      by (auto simp: node_content_def jrep.simps [of d' lo' hi' i])
  next
    case (J_object kvs)
    have "jrep d' lo' hi' (snd j) (snd x)" if "(j, x) \<in> set (zip (member_list d i) kvs)" for j x
      using "1.IH"(2) [OF J_object that refl _ "1.prems"(2) "1.prems"(3-5)] rep J_object that by fastforce
    then show ?thesis using i rep "1.prems"(5) J_object
      by (auto simp: node_content_def jrep.simps [of d' lo' hi' i])
  qed (use i rep "1.prems"(5) in \<open>auto simp: node_content_def jrep.simps [of d' lo' hi' i]\<close>)
qed

section \<open>The parser reads the grammar\<close>

definition reads :: "JsonDocument \<Rightarrow> string \<Rightarrow> JsonDocument \<Rightarrow> bool" where
  "reads d s d' \<longleftrightarrow> jd_storage d' = jd_storage d \<and> jd_cursor d' = jd_cursor d + length s \<and>
     jd_rest d = s @ jd_rest d'"

lemma reads_trans: "reads d s d' \<Longrightarrow> reads d' s' d'' \<Longrightarrow> reads d (s @ s') d''"
  by (simp add: reads_def)

lemma reads_advance: "jd_rest d = s @ r \<Longrightarrow> reads d s (advance (length s) d)"
  by (simp add: reads_def)

lemma reads_peek: "jd_peek d = Some c \<Longrightarrow> reads d [c] (advance 1 d)"
  by (auto simp: reads_def jd_peek_def split: list.splits)

lemma reads_skip: obtains w where "ws w" "reads d w (skip_space d)"
proof -
  have "ws (takeWhile is_space (jd_rest d))" by (auto simp: list_all_iff dest: set_takeWhileD)
  moreover have "reads d (takeWhile is_space (jd_rest d)) (skip_space d)"
    by (simp add: reads_def) (simp add: skip_space_def)
  ultimately show thesis by (rule that)
qed

lemma rest_tables [simp]:
  "jd_rest (d\<lparr>jd_nodes := ns\<rparr>) = jd_rest d" "jd_rest (d\<lparr>jd_members := ms\<rparr>) = jd_rest d"
  "jd_rest (d\<lparr>jd_elements := es\<rparr>) = jd_rest d" "jd_rest (set_node i f d) = jd_rest d"
  by (simp_all add: jd_rest_def set_node_def)

lemma advance_nodes [simp]: "advance n (d\<lparr>jd_nodes := ns\<rparr>) = (advance n d)\<lparr>jd_nodes := ns\<rparr>"
  by (simp add: advance_def)

lemma reads_tables [simp]:
  "reads d s (d'\<lparr>jd_nodes := ns\<rparr>) = reads d s d'" "reads d s (d'\<lparr>jd_members := ms\<rparr>) = reads d s d'"
  "reads d s (d'\<lparr>jd_elements := es\<rparr>) = reads d s d'" "reads d s (set_node i f d') = reads d s d'"
  "reads (d\<lparr>jd_nodes := ns\<rparr>) s d' = reads d s d'" "reads (d\<lparr>jd_members := ms\<rparr>) s d' = reads d s d'"
  "reads (d\<lparr>jd_elements := es\<rparr>) s d' = reads d s d'"
  by (simp_all add: reads_def set_node_def)

definition takes :: "JsonDocument \<Rightarrow> JsonDocument \<Rightarrow> nat \<Rightarrow> nat \<Rightarrow> nat \<Rightarrow> bool" where
  "takes d d' n m e \<longleftrightarrow> length (jd_nodes d') = length (jd_nodes d) + n \<and>
     length (jd_members d') = length (jd_members d) + m \<and> length (jd_elements d') = length (jd_elements d) + e"

lemma takes_same [simp]:
  "takes (advance k d) d' n m e = takes d d' n m e" "takes (skip_space d) d' n m e = takes d d' n m e"
  "takes d (advance k d') n m e = takes d d' n m e" "takes d (skip_space d') n m e = takes d d' n m e"
  by (simp_all add: takes_def)

definition value_sound :: "(json \<Rightarrow> string \<Rightarrow> bool) \<Rightarrow> value_parser \<Rightarrow> bool" where
  "value_sound G parse \<longleftrightarrow> (\<forall>d i d'. closed d \<longrightarrow> parse d = Some (i, d') \<longrightarrow> (\<exists>w t v.
     ws w \<and> G v t \<and> reads d (w @ t) d' \<and> i = length (jd_nodes d) \<and> grown (\<lambda>k. length (jd_nodes d) \<le> k) d d' \<and>
     takes d d' (nodes_of v) (members_of v) (elements_of v) \<and>
     jrep d' (length (jd_nodes d)) (length (jd_nodes d')) i v \<and> jn_raw (jd_nodes d' ! i) = t))"

lemma elements_text_ws:
  assumes "elements_text G vs u" "ws w"
  shows "elements_text G vs (w @ u)"
  using assms(1)
proof cases
  case (elements_last w1 v t w2)
  then show ?thesis using elements_text.elements_last [of "w @ w1" G v t w2] assms(2) by simp
next
  case (elements_more w1 v t w2 vs u)
  then show ?thesis using elements_text.elements_more [of "w @ w1" G v t w2 vs u] assms(2) by simp
qed

lemma members_text_ws:
  assumes "members_text G kvs u" "ws w"
  shows "members_text G kvs (w @ u)"
  using assms(1)
proof cases
  case (members_last w1 k w2 w3 v t w4)
  then show ?thesis using members_text.members_last [of "w @ w1" k w2 w3 G v t w4] assms(2) by simp
next
  case (members_more w1 k w2 w3 v t w4 kvs u)
  then show ?thesis using members_text.members_more [of "w @ w1" k w2 w3 G v t w4 kvs u] assms(2) by simp
qed


text \<open>One element: a value is read and entered under its array.\<close>

lemma element_step:
  assumes sound: "value_sound G parse" and "parse d = Some (i, d1)" "append_element parent i d1 = Some d2"
    and parent: "parent < length (jd_nodes d)" and closed: "closed d"
  obtains w t v where "ws w" "G v t" "reads d (w @ t) d2"
    "grown (\<lambda>k. k = parent \<or> length (jd_nodes d) \<le> k) d d2"
    "takes d d2 (nodes_of v) (members_of v) (Suc (elements_of v))"
    "member_list d2 parent = member_list d parent" "element_list d2 parent = element_list d parent @ [i]"
    "jrep d2 (length (jd_nodes d)) (length (jd_nodes d2)) i v"
proof -
  obtain w t v where v: "ws w" "G v t" "reads d (w @ t) d1" "i = length (jd_nodes d)"
    "grown (\<lambda>k. length (jd_nodes d) \<le> k) d d1" "takes d d1 (nodes_of v) (members_of v) (elements_of v)"
    "jrep d1 (length (jd_nodes d)) (length (jd_nodes d1)) i v"
    using sound assms(2) closed unfolding value_sound_def by metis
  have d2: "d2 = d1\<lparr>jd_elements := jd_elements d1 @ [\<lparr>je_parent = parent, je_value = i\<rparr>]\<rparr>"
    using assms(3) by (auto simp: append_element_def split: if_splits)
  have lists: "member_list d1 parent = member_list d parent" "element_list d1 parent = element_list d parent"
    using grown_lists [OF v(5), of parent] parent by simp_all
  have "parent < length (jd_nodes d1)" using parent grown_nodes(2) [OF v(5)] by simp
  then have step: "grown (\<lambda>k. k = parent) d1 d2" by (simp add: d2 grown_def closed_def)
  show thesis
  proof (rule that [OF v(1,2)])
    show "reads d (w @ t) d2" using v(3) by (simp add: d2)
    show "grown (\<lambda>k. k = parent \<or> length (jd_nodes d) \<le> k) d d2" by (rule grown_trans [OF v(5) step]) auto
    show "takes d d2 (nodes_of v) (members_of v) (Suc (elements_of v))" using v(6) by (simp add: d2 takes_def)
    show "member_list d2 parent = member_list d parent" "element_list d2 parent = element_list d parent @ [i]"
      using lists by (simp_all add: d2 member_list_def element_list_def)
    show "jrep d2 (length (jd_nodes d)) (length (jd_nodes d2)) i v"
      by (rule jrep_agree [OF v(7)]) (use parent in \<open>auto simp: d2 member_list_def element_list_def\<close>)
  qed
qed

text \<open>What is kept of a value when an enclosing array or object grows further.\<close>

lemma jrep_grown:
  assumes "jrep d lo (length (jd_nodes d)) i v" "grown (\<lambda>k. k = parent \<or> length (jd_nodes d) \<le> k) d d'" "parent < lo"
    "lo' \<le> lo"
  shows "jrep d' lo' (length (jd_nodes d')) i v"
proof (rule jrep_agree [OF assms(1)])
  fix k
  assume k: "lo \<le> k" "k < length (jd_nodes d)"
  then have "\<not> (k = parent \<or> length (jd_nodes d) \<le> k)" using assms(3) by auto
  then show "node_content (jd_nodes d' ! k) = node_content (jd_nodes d ! k) \<and>
      member_list d' k = member_list d k \<and> element_list d' k = element_list d k"
    using grown_lists [OF assms(2)] grown_nodes(1) [OF assms(2) k(2)] by simp
qed (use assms grown_nodes(2) [OF assms(2)] in simp_all)

definition elements_read ::
    "(json \<Rightarrow> string \<Rightarrow> bool) \<Rightarrow> nat \<Rightarrow> JsonDocument \<Rightarrow> JsonDocument \<Rightarrow> json list \<Rightarrow> bool" where
  "elements_read G parent d d' vs \<longleftrightarrow>
     grown (\<lambda>k. k = parent \<or> length (jd_nodes d) \<le> k) d d' \<and>
     takes d d' (sum_list (map nodes_of vs)) (sum_list (map members_of vs)) (length vs + sum_list (map elements_of vs)) \<and>
     member_list d' parent = member_list d parent \<and>
     (\<exists>is. element_list d' parent = element_list d parent @ is \<and> length is = length vs \<and>
        (\<forall>(j, v) \<in> set (zip is vs). jrep d' (length (jd_nodes d)) (length (jd_nodes d')) j v))"

lemma elements_read_Cons:
  assumes more: "elements_read G parent d2 d' vs" and parent: "parent < length (jd_nodes d)"
    and first: "grown (\<lambda>k. k = parent \<or> length (jd_nodes d) \<le> k) d d2"
      "takes d d2 (nodes_of v) (members_of v) (Suc (elements_of v))"
      "member_list d2 parent = member_list d parent" "element_list d2 parent = element_list d parent @ [i]"
      "jrep d2 (length (jd_nodes d)) (length (jd_nodes d2)) i v"
  shows "elements_read G parent d d' (v # vs)"
proof -
  from more obtain js where js: "grown (\<lambda>k. k = parent \<or> length (jd_nodes d2) \<le> k) d2 d'"
    "takes d2 d' (sum_list (map nodes_of vs)) (sum_list (map members_of vs)) (length vs + sum_list (map elements_of vs))"
    "member_list d' parent = member_list d2 parent" "element_list d' parent = element_list d2 parent @ js"
    "length js = length vs" "\<forall>(j, v) \<in> set (zip js vs). jrep d' (length (jd_nodes d2)) (length (jd_nodes d')) j v"
    unfolding elements_read_def by blast
  have le: "length (jd_nodes d) \<le> length (jd_nodes d2)" by (rule grown_nodes(2) [OF first(1)])
  have head: "jrep d' (length (jd_nodes d)) (length (jd_nodes d')) i v"
    by (rule jrep_grown [OF first(5) js(1)]) (use parent in auto)
  have tail: "jrep d' (length (jd_nodes d)) (length (jd_nodes d')) j x" if "(j, x) \<in> set (zip js vs)" for j x
  proof -
    have "jrep d' (length (jd_nodes d2)) (length (jd_nodes d')) j x" using js(6) that by auto
    then show ?thesis by (rule jrep_agree) (use le in simp_all)
  qed
  show ?thesis
    unfolding elements_read_def
  proof (intro conjI exI [of _ "i # js"])
    show "grown (\<lambda>k. k = parent \<or> length (jd_nodes d) \<le> k) d d'"
      by (rule grown_trans [OF first(1) js(1)]) (use le in auto)
  qed (use js first(2-4) head tail in \<open>auto simp: takes_def\<close>)
qed

lemma elements_read_Nil: "elements_read G parent d (advance n (skip_space d)) []"
  by (simp add: elements_read_def takes_def)

lemma array_loop_sound:
  assumes sound: "value_sound G parse"
  shows "array_loop parse parent fuel d = Some d' \<Longrightarrow> parent < length (jd_nodes d) \<Longrightarrow> closed d \<Longrightarrow>
    \<exists>u vs. elements_text G vs u \<and> reads d (u @ [CHR '']'']) d' \<and> elements_read G parent d d' vs"
proof (induction fuel arbitrary: d)
  case (Suc fuel)
  from Suc.prems(1) obtain i d1 d2 where run: "parse d = Some (i, d1)" "append_element parent i d1 = Some d2"
    and rest: "(let d = skip_space d2 in
        if jd_peek d = Some (CHR '']'') then Some (advance 1 d)
        else if jd_peek d \<noteq> Some (CHR '','') then None
        else array_loop parse parent fuel (skip_space (advance 1 d))) = Some d'"
    by (auto simp: bind_eq_Some_conv split: if_splits)
  obtain w t v where v: "ws w" "G v t" "reads d (w @ t) d2"
    "grown (\<lambda>k. k = parent \<or> length (jd_nodes d) \<le> k) d d2"
    "takes d d2 (nodes_of v) (members_of v) (Suc (elements_of v))"
    "member_list d2 parent = member_list d parent" "element_list d2 parent = element_list d parent @ [i]"
    "jrep d2 (length (jd_nodes d)) (length (jd_nodes d2)) i v"
    using element_step [OF sound run Suc.prems(2,3)] .
  obtain w2 where w2: "ws w2" "reads d2 w2 (skip_space d2)" using reads_skip .
  let ?d3 = "skip_space d2"
  show ?case
  proof (cases "jd_peek ?d3 = Some (CHR '']'')")
    case True
    then have d': "d' = advance 1 ?d3" using rest by simp
    have "reads d (((w @ t) @ w2) @ [CHR '']'']) d'"
      unfolding d' by (intro reads_trans [OF reads_trans [OF v(3) w2(2)]] reads_peek [OF True])
    moreover have "elements_read G parent d d' [v]"
      unfolding d' by (rule elements_read_Cons [OF elements_read_Nil Suc.prems(2) v(4-8)])
    ultimately show ?thesis using elements_last [of w G v t w2] v(1,2) w2(1)
      by (intro exI [of _ "w @ t @ w2"] exI [of _ "[v]"]) simp
  next
    case False
    let ?d4 = "skip_space (advance 1 ?d3)"
    from False rest have comma: "jd_peek ?d3 = Some (CHR '','')" and loop: "array_loop parse parent fuel ?d4 = Some d'"
      by (auto simp: Let_def split: if_splits)
    have "parent < length (jd_nodes ?d4)" using Suc.prems(2) grown_nodes(2) [OF v(4)] by simp
    moreover have "closed ?d4" using Suc.prems(3) v(4) by (simp add: grown_def closed_same)
    ultimately obtain u vs where u: "elements_text G vs u" "reads ?d4 (u @ [CHR '']'']) d'"
      "elements_read G parent ?d4 d' vs" using Suc.IH [OF loop] by blast
    obtain w3 where w3: "ws w3" "reads (advance 1 ?d3) w3 ?d4" using reads_skip .
    have "reads d ((((w @ t) @ w2) @ [CHR '','']) @ w3 @ u @ [CHR '']'']) d'"
      by (intro reads_trans [OF reads_trans [OF reads_trans [OF v(3) w2(2)] reads_peek [OF comma]]]
          reads_trans [OF w3(2) u(2)])
    moreover have "elements_text G (v # vs) (w @ t @ w2 @ CHR '','' # w3 @ u)"
      by (rule elements_more) (use v w2 w3 elements_text_ws [OF u(1)] in auto)
    moreover have "elements_read G parent d d' (v # vs)"
      by (rule elements_read_Cons [OF _ Suc.prems(2) v(4-8)]) (use u(3) in \<open>simp add: elements_read_def\<close>)
    ultimately show ?thesis
      by (intro exI [of _ "w @ t @ w2 @ CHR '','' # w3 @ u"] exI [of _ "v # vs"]) simp
  qed
qed simp


text \<open>One member: a key and a value are read and entered under their object.\<close>

lemma member_step:
  assumes sound: "value_sound G parse" and "parse d = Some (i, d1)" "append_member parent key i d1 = Some d2"
    and parent: "parent < length (jd_nodes d)" and closed: "closed d"
  obtains w t v where "ws w" "G v t" "reads d (w @ t) d2"
    "grown (\<lambda>k. k = parent \<or> length (jd_nodes d) \<le> k) d d2"
    "takes d d2 (nodes_of v) (Suc (members_of v)) (elements_of v)"
    "element_list d2 parent = element_list d parent" "member_list d2 parent = member_list d parent @ [(key, i)]"
    "jrep d2 (length (jd_nodes d)) (length (jd_nodes d2)) i v"
proof -
  obtain w t v where v: "ws w" "G v t" "reads d (w @ t) d1" "i = length (jd_nodes d)"
    "grown (\<lambda>k. length (jd_nodes d) \<le> k) d d1" "takes d d1 (nodes_of v) (members_of v) (elements_of v)"
    "jrep d1 (length (jd_nodes d)) (length (jd_nodes d1)) i v"
    using sound assms(2) closed unfolding value_sound_def by metis
  have d2: "d2 = d1\<lparr>jd_members := jd_members d1 @ [\<lparr>jm_parent = parent, jm_key = key, jm_value = i\<rparr>]\<rparr>"
    using assms(3) by (auto simp: append_member_def split: if_splits)
  have lists: "member_list d1 parent = member_list d parent" "element_list d1 parent = element_list d parent"
    using grown_lists [OF v(5), of parent] parent by simp_all
  have "parent < length (jd_nodes d1)" using parent grown_nodes(2) [OF v(5)] by simp
  then have step: "grown (\<lambda>k. k = parent) d1 d2" by (simp add: d2 grown_def closed_def)
  show thesis
  proof (rule that [OF v(1,2)])
    show "reads d (w @ t) d2" using v(3) by (simp add: d2)
    show "grown (\<lambda>k. k = parent \<or> length (jd_nodes d) \<le> k) d d2" by (rule grown_trans [OF v(5) step]) auto
    show "takes d d2 (nodes_of v) (Suc (members_of v)) (elements_of v)" using v(6) by (simp add: d2 takes_def)
    show "element_list d2 parent = element_list d parent" "member_list d2 parent = member_list d parent @ [(key, i)]"
      using lists by (simp_all add: d2 member_list_def element_list_def)
    show "jrep d2 (length (jd_nodes d)) (length (jd_nodes d2)) i v"
      by (rule jrep_agree [OF v(7)]) (use parent in \<open>auto simp: d2 member_list_def element_list_def\<close>)
  qed
qed

definition members_read ::
    "(json \<Rightarrow> string \<Rightarrow> bool) \<Rightarrow> nat \<Rightarrow> JsonDocument \<Rightarrow> JsonDocument \<Rightarrow> (string \<times> json) list \<Rightarrow> bool" where
  "members_read G parent d d' kvs \<longleftrightarrow>
     grown (\<lambda>k. k = parent \<or> length (jd_nodes d) \<le> k) d d' \<and>
     takes d d' (sum_list (map (\<lambda>(k, v). nodes_of v) kvs)) (length kvs + sum_list (map (\<lambda>(k, v). members_of v) kvs))
       (sum_list (map (\<lambda>(k, v). elements_of v) kvs)) \<and>
     element_list d' parent = element_list d parent \<and>
     (\<exists>js. member_list d' parent = member_list d parent @ js \<and> map fst js = map fst kvs \<and>
        (\<forall>(j, kv) \<in> set (zip js kvs). jrep d' (length (jd_nodes d)) (length (jd_nodes d')) (snd j) (snd kv)) \<and>
        (distinct (map fst (member_list d parent)) \<longrightarrow> distinct (map fst (member_list d' parent))))"

lemma members_read_Cons:
  assumes more: "members_read G parent d2 d' kvs" and parent: "parent < length (jd_nodes d)"
    and key: "key \<notin> set (map fst (member_list d parent))"
    and first: "grown (\<lambda>k. k = parent \<or> length (jd_nodes d) \<le> k) d d2"
      "takes d d2 (nodes_of v) (Suc (members_of v)) (elements_of v)"
      "element_list d2 parent = element_list d parent" "member_list d2 parent = member_list d parent @ [(key, i)]"
      "jrep d2 (length (jd_nodes d)) (length (jd_nodes d2)) i v"
  shows "members_read G parent d d' ((key, v) # kvs)"
proof -
  from more obtain js where js: "grown (\<lambda>k. k = parent \<or> length (jd_nodes d2) \<le> k) d2 d'"
    "takes d2 d' (sum_list (map (\<lambda>(k, v). nodes_of v) kvs)) (length kvs + sum_list (map (\<lambda>(k, v). members_of v) kvs))
       (sum_list (map (\<lambda>(k, v). elements_of v) kvs))"
    "element_list d' parent = element_list d2 parent" "member_list d' parent = member_list d2 parent @ js"
    "map fst js = map fst kvs"
    "\<forall>(j, kv) \<in> set (zip js kvs). jrep d' (length (jd_nodes d2)) (length (jd_nodes d')) (snd j) (snd kv)"
    "distinct (map fst (member_list d2 parent)) \<longrightarrow> distinct (map fst (member_list d' parent))"
    unfolding members_read_def by blast
  have le: "length (jd_nodes d) \<le> length (jd_nodes d2)" by (rule grown_nodes(2) [OF first(1)])
  have head: "jrep d' (length (jd_nodes d)) (length (jd_nodes d')) i v"
    by (rule jrep_grown [OF first(5) js(1)]) (use parent in auto)
  have tail: "jrep d' (length (jd_nodes d)) (length (jd_nodes d')) (snd j) (snd x)" if "(j, x) \<in> set (zip js kvs)" for j x
  proof -
    have "jrep d' (length (jd_nodes d2)) (length (jd_nodes d')) (snd j) (snd x)" using js(6) that by auto
    then show ?thesis by (rule jrep_agree) (use le in simp_all)
  qed
  show ?thesis
    unfolding members_read_def
  proof (intro conjI exI [of _ "(key, i) # js"])
    show "grown (\<lambda>k. k = parent \<or> length (jd_nodes d) \<le> k) d d'"
      by (rule grown_trans [OF first(1) js(1)]) (use le in auto)
  qed (use js first(2-4) head tail key in \<open>auto simp: takes_def\<close>)
qed

lemma members_read_Nil: "members_read G parent d (advance n (skip_space d)) []"
  by (simp add: members_read_def takes_def)

lemma key_absent:
  "\<not> list_ex (\<lambda>m. jm_parent m = parent \<and> jm_key m = key) (jd_members d) \<longleftrightarrow> key \<notin> set (map fst (member_list d parent))"
  by (auto simp: list_ex_iff member_list_def)


lemma object_loop_sound:
  assumes sound: "value_sound G parse"
  shows "object_loop parse parent fuel d = Some d' \<Longrightarrow> parent < length (jd_nodes d) \<Longrightarrow> closed d \<Longrightarrow>
    \<exists>u kvs. members_text G kvs u \<and> reads d (u @ [CHR ''}'']) d' \<and> members_read G parent d d' kvs"
proof (induction fuel arbitrary: d)
  case (Suc fuel)
  from Suc.prems(1) obtain key da i d1 d2 where key: "parse_string d = Some (key, da)"
    and new: "\<not> list_ex (\<lambda>m. jm_parent m = parent \<and> jm_key m = key) (jd_members da)"
    and colon: "jd_peek (skip_space da) = Some (CHR '':'')"
    and run: "parse (skip_space (advance 1 (skip_space da))) = Some (i, d1)" "append_member parent key i d1 = Some d2"
    and rest: "(let d = skip_space d2 in
        if jd_peek d = Some (CHR ''}'') then Some (advance 1 d)
        else if jd_peek d \<noteq> Some (CHR '','') then None
        else object_loop parse parent fuel (skip_space (advance 1 d))) = Some d'"
    by (auto simp: bind_eq_Some_conv Let_def split: if_splits)
  let ?db = "skip_space (advance 1 (skip_space da))"
  from key have body: "string_body key" and da: "da = advance (length key + 2) d"
    and k: "reads d (quoted key) da"
    unfolding parse_string_exact using reads_advance [of d "quoted key"] by auto
  obtain w2 where w2: "ws w2" "reads da w2 (skip_space da)" using reads_skip .
  obtain w3 where w3: "ws w3" "reads (advance 1 (skip_space da)) w3 ?db" using reads_skip .
  have before: "reads d (((quoted key @ w2) @ [CHR '':'']) @ w3) ?db"
    by (intro reads_trans [OF reads_trans [OF reads_trans [OF k w2(2)] reads_peek [OF colon]] w3(2)])
  have same: "jd_nodes ?db = jd_nodes d" "jd_members ?db = jd_members d" "jd_elements ?db = jd_elements d"
    "jd_storage ?db = jd_storage d" by (simp_all add: da)
  have lists: "member_list ?db k = member_list d k" "element_list ?db k = element_list d k" for k
    by (simp_all only: member_list_def element_list_def same)
  have parent: "parent < length (jd_nodes ?db)" "closed ?db" using Suc.prems(2,3) same by (simp_all add: closed_def)
  from member_step [OF sound run this] obtain w t v where v: "ws w" "G v t" "reads ?db (w @ t) d2"
    "grown (\<lambda>k. k = parent \<or> length (jd_nodes d) \<le> k) d d2"
    "takes d d2 (nodes_of v) (Suc (members_of v)) (elements_of v)"
    "element_list d2 parent = element_list d parent" "member_list d2 parent = member_list d parent @ [(key, i)]"
    "jrep d2 (length (jd_nodes d)) (length (jd_nodes d2)) i v"
    unfolding lists grown_def takes_def closed_def same .
  have fresh: "key \<notin> set (map fst (member_list d parent))"
    using new unfolding da key_absent by (simp add: member_list_def)
  obtain w4 where w4: "ws w4" "reads d2 w4 (skip_space d2)" using reads_skip .
  let ?d3 = "skip_space d2"
  have after: "reads d ((((quoted key @ w2) @ [CHR '':'']) @ w3) @ (w @ t) @ w4) ?d3"
    by (intro reads_trans [OF before reads_trans [OF v(3) w4(2)]])
  show ?case
  proof (cases "jd_peek ?d3 = Some (CHR ''}'')")
    case True
    then have d': "d' = advance 1 ?d3" using rest by simp
    have "reads d (((((quoted key @ w2) @ [CHR '':'']) @ w3) @ (w @ t) @ w4) @ [CHR ''}'']) d'"
      unfolding d' by (intro reads_trans [OF after] reads_peek [OF True])
    moreover have "members_read G parent d d' [(key, v)]"
      unfolding d' by (rule members_read_Cons [OF members_read_Nil Suc.prems(2) fresh v(4-8)])
    ultimately show ?thesis using members_last [of "[]" key w2 "w3 @ w" G v t w4] body w2 w3 v(1,2) w4(1)
      by (intro exI [of _ "quoted key @ w2 @ CHR '':'' # (w3 @ w) @ t @ w4"] exI [of _ "[(key, v)]"]) simp
  next
    case False
    let ?d4 = "skip_space (advance 1 ?d3)"
    from False rest have comma: "jd_peek ?d3 = Some (CHR '','')" and loop: "object_loop parse parent fuel ?d4 = Some d'"
      by (auto simp: Let_def split: if_splits)
    have "parent < length (jd_nodes ?d4)" using Suc.prems(2) grown_nodes(2) [OF v(4)] by simp
    moreover have "closed ?d4" using Suc.prems(3) v(4) by (simp add: grown_def closed_same)
    ultimately obtain u kvs where u: "members_text G kvs u" "reads ?d4 (u @ [CHR ''}'']) d'"
      "members_read G parent ?d4 d' kvs" using Suc.IH [OF loop] by blast
    obtain w5 where w5: "ws w5" "reads (advance 1 ?d3) w5 ?d4" using reads_skip .
    have "reads d (((((quoted key @ w2) @ [CHR '':'']) @ w3) @ (w @ t) @ w4) @ [CHR '','']  @ w5 @ u @ [CHR ''}'']) d'"
      by (intro reads_trans [OF after] reads_trans [OF reads_peek [OF comma]] reads_trans [OF w5(2) u(2)])
    moreover have "members_text G ((key, v) # kvs) ([] @ quoted key @ w2 @ CHR '':'' # (w3 @ w) @ t @ w4 @ CHR '','' # w5 @ u)"
      by (rule members_more) (use body w2 w3 v(1,2) w4 w5 members_text_ws [OF u(1)] in auto)
    moreover have "members_read G parent d d' ((key, v) # kvs)"
      by (rule members_read_Cons [OF _ Suc.prems(2) fresh v(4-8)])
        (use u(3) in \<open>simp add: members_read_def\<close>)
    ultimately show ?thesis
      by (intro exI [of _ "quoted key @ w2 @ CHR '':'' # (w3 @ w) @ t @ w4 @ CHR '','' # w5 @ u"]
          exI [of _ "(key, v) # kvs"]) simp
  qed
qed simp


text \<open>What one branch of the parser adds for its value, before the raw text is noted.\<close>

definition branch_sound :: "JsonDocument \<Rightarrow> nat \<Rightarrow> JsonDocument \<Rightarrow> json \<Rightarrow> string \<Rightarrow> bool" where
  "branch_sound d i d' v t \<longleftrightarrow> reads d t d' \<and> i = length (jd_nodes d) \<and> grown (\<lambda>k. length (jd_nodes d) \<le> k) d d' \<and>
     takes d d' (nodes_of v) (members_of v) (elements_of v) \<and> jrep d' (length (jd_nodes d)) (length (jd_nodes d')) i v"

lemma leaf_sound:
  assumes "jd_nodes d' = jd_nodes d @ [n]" "jd_members d' = jd_members d" "jd_elements d' = jd_elements d"
    "reads d t d'"
    "case v of J_null \<Rightarrow> jn_type n = JT_null_value | J_bool b \<Rightarrow> jn_type n = JT_boolean \<and> jn_boolean n = b
      | J_number k \<Rightarrow> jn_type n = JT_number \<and> unat (jn_number n) = k
      | J_string s \<Rightarrow> jn_type n = JT_string \<and> jn_string n = s | _ \<Rightarrow> False"
  shows "branch_sound d (length (jd_nodes d)) d' v t"
proof -
  have "nodes_of v = 1" "members_of v = 0" "elements_of v = 0" using assms(5) by (cases v; simp)+
  moreover have "jrep d' (length (jd_nodes d)) (length (jd_nodes d')) (length (jd_nodes d)) v"
    using assms(1,5) by (subst jrep.simps) (cases v; simp)
  moreover have "grown (\<lambda>k. length (jd_nodes d) \<le> k) d d'"
    using assms(1-4) by (auto simp: grown_def closed_def reads_def intro: less_SucI)
  ultimately show ?thesis using assms(1-4) by (simp add: branch_sound_def takes_def)
qed

lemma append_node_Some:
  "append_node ty d = Some (i, d') \<longleftrightarrow> length (jd_nodes d) \<noteq> maximum_json_nodes \<and> i = length (jd_nodes d) \<and>
   d' = d\<lparr>jd_nodes := jd_nodes d @ [\<lparr>jn_type = ty, jn_string = [], jn_raw = [], jn_number = 0, jn_boolean = False\<rparr>]\<rparr>"
  by (auto simp: append_node_def)

lemma set_node_last:
  assumes "jd_nodes d = ns @ [n]" "i = length ns"
  shows "jd_nodes (set_node i f d) = ns @ [f n]" "jd_members (set_node i f d) = jd_members d"
    "jd_elements (set_node i f d) = jd_elements d" "jd_storage (set_node i f d) = jd_storage d"
  using assms by (simp_all add: set_node_def)

lemma content_raw: "i < length ns \<Longrightarrow> node_content (ns[i := (ns ! i)\<lparr>jn_raw := t\<rparr>] ! k) = node_content (ns ! k)"
  by (cases "k = i") (simp_all add: node_content_def)

lemma value_sound_intro:
  assumes "ws w" "reads d w d0" "jd_nodes d0 = jd_nodes d" "jd_members d0 = jd_members d" "jd_elements d0 = jd_elements d"
    and branch: "branch_sound d0 i d1 v t" and "G v t"
    and d': "d' = set_node i (\<lambda>n. n\<lparr>jn_raw := take (jd_cursor d1 - jd_cursor d0) (drop (jd_cursor d0) (jd_storage d1))\<rparr>) d1"
  shows "\<exists>w t v. ws w \<and> G v t \<and> reads d (w @ t) d' \<and> i = length (jd_nodes d) \<and>
     grown (\<lambda>k. length (jd_nodes d) \<le> k) d d' \<and> takes d d' (nodes_of v) (members_of v) (elements_of v) \<and>
     jrep d' (length (jd_nodes d)) (length (jd_nodes d')) i v \<and> jn_raw (jd_nodes d' ! i) = t"
proof (intro exI conjI)
  note b = branch [unfolded branch_sound_def]
  have t: "take (jd_cursor d1 - jd_cursor d0) (drop (jd_cursor d0) (jd_storage d1)) = t"
    using b by (auto simp: reads_def jd_rest_def)
  have i: "i = length (jd_nodes d)" "i < length (jd_nodes d1)" using b assms(3) jrep.simps by auto
  obtain ns where ns: "jd_nodes d1 = jd_nodes d @ ns" using b assms(3) by (auto simp: grown_def)
  have nodes: "jd_nodes d' = (jd_nodes d1)[i := (jd_nodes d1 ! i)\<lparr>jn_raw := t\<rparr>]" by (simp add: d' set_node_def t)
  have same: "jd_members d' = jd_members d1" "jd_elements d' = jd_elements d1" "jd_storage d' = jd_storage d1"
    by (simp_all add: d' set_node_def)
  show "ws w" "G v t" "i = length (jd_nodes d)" using assms i by simp_all
  show "reads d (w @ t) d'" unfolding d' using reads_trans [OF assms(2)] b by simp
  show "grown (\<lambda>k. length (jd_nodes d) \<le> k) d d'"
    using b assms(2-5) ns i unfolding grown_def same nodes
    by (auto simp: closed_def nodes same list_update_append reads_def)
  show "takes d d' (nodes_of v) (members_of v) (elements_of v)" using b assms(3-5) by (simp add: takes_def nodes same)
  have "jrep d1 (length (jd_nodes d)) (length (jd_nodes d1)) i v" using b assms(3) by auto
  then show "jrep d' (length (jd_nodes d)) (length (jd_nodes d')) i v"
    by (rule jrep_agree) (use content_raw [OF i(2)] in \<open>auto simp: nodes member_list_def element_list_def same\<close>)
  show "jn_raw (jd_nodes d' ! i) = t" using i by (simp add: nodes)
qed


text \<open>A fresh node of a container: it has no entries yet.\<close>

lemma fresh_node:
  assumes "append_node ty d0 = Some (i, da)" "closed d0"
  shows "i = length (jd_nodes d0)" "length (jd_nodes da) = Suc i" "closed da" "member_list da i = []" "element_list da i = []"
    "grown (\<lambda>k. i \<le> k) d0 da" "jn_type (jd_nodes da ! i) = ty" "takes d0 da 1 0 0" "reads d0 s d' = reads da s d'"
    "jd_peek da = jd_peek d0"
  using assms closed_fresh [OF assms(2), of i] unfolding append_node_Some
  by (auto simp: closed_def grown_def takes_def reads_def member_list_def element_list_def jd_peek_def intro: less_SucI)

lemma array_branch:
  assumes sound: "value_sound G parse" and node: "append_node JT_array d0 = Some (i, da)" and closed: "closed d0"
    and start: "jd_peek d0 = Some (CHR ''['')" and run: "parse_array parse i da = Some d1"
  shows "\<exists>vs u. branch_sound d0 i d1 (J_array vs) (CHR ''['' # u @ [CHR '']'']) \<and>
     (vs = [] \<and> ws u \<or> elements_text G vs u)"
proof -
  note fresh = fresh_node [OF node closed]
  let ?db = "skip_space (advance 1 da)"
  obtain w where w: "ws w" "reads (advance 1 da) w ?db" using reads_skip .
  have opened: "reads da ([CHR ''[''] @ w) ?db"
    by (rule reads_trans [OF reads_peek w(2)]) (simp add: fresh(10) start)
  have "\<exists>vs u. reads ?db (u @ [CHR '']'']) d1 \<and> elements_read G i ?db d1 vs \<and> (vs = [] \<and> u = [] \<or> elements_text G vs u)"
  proof (cases "jd_peek ?db = Some (CHR '']'')")
    case True
    then have d1: "d1 = advance 1 ?db" using run by (simp add: parse_array_def)
    have "elements_read G i ?db d1 []" unfolding d1 by (simp add: elements_read_def takes_def)
    with reads_peek [OF True] show ?thesis unfolding d1 by (intro exI [of _ "[]"]) simp
  next
    case False
    then have "array_loop parse i (length (jd_storage ?db)) ?db = Some d1" using run by (simp add: parse_array_def)
    from array_loop_sound [OF sound this] show ?thesis using fresh(2,3) by auto
  qed
  then obtain vs u where u: "reads ?db (u @ [CHR '']'']) d1" "elements_read G i ?db d1 vs"
    "vs = [] \<and> u = [] \<or> elements_text G vs u" by blast
  have "reads d0 (([CHR ''[''] @ w) @ u @ [CHR '']'']) d1" unfolding fresh(9) by (rule reads_trans [OF opened u(1)])
  moreover have "grown (\<lambda>k. i \<le> k) d0 d1"
    by (rule grown_trans [OF fresh(6)]) (use u(2) fresh(2) in \<open>auto simp: elements_read_def\<close>)
  moreover have "takes d0 d1 (nodes_of (J_array vs)) (members_of (J_array vs)) (elements_of (J_array vs))"
    using u(2) fresh(8) by (auto simp: elements_read_def takes_def)
  moreover have "jrep d1 i (length (jd_nodes d1)) i (J_array vs)"
  proof -
    from u(2) obtain js where js: "grown (\<lambda>k. k = i \<or> Suc i \<le> k) da d1" "element_list d1 i = js" "length js = length vs"
      "\<forall>(j, v) \<in> set (zip js vs). jrep d1 (Suc i) (length (jd_nodes d1)) j v"
      unfolding elements_read_def by (auto simp: fresh(2,5))
    have "jrep d1 i (length (jd_nodes d1)) j v" if "(j, v) \<in> set (zip js vs)" for j v
    proof -
      have "jrep d1 (Suc i) (length (jd_nodes d1)) j v" using js(4) that by auto
      then show ?thesis by (rule jrep_agree) simp_all
    qed
    moreover have "jn_type (jd_nodes d1 ! i) = JT_array" "i < length (jd_nodes d1)"
      using grown_nodes [OF js(1)] fresh(2,7) by (simp, metis Suc_le_lessD)
    ultimately show ?thesis using js(2,3) by (subst jrep.simps) auto
  qed
  moreover have "vs = [] \<and> ws (w @ u) \<or> elements_text G vs (w @ u)"
    using u(3) w(1) elements_text_ws [of G vs u w] by auto
  ultimately show ?thesis using fresh(1)
    by (intro exI [of _ vs] exI [of _ "w @ u"]) (simp add: branch_sound_def)
qed


lemma object_branch:
  assumes sound: "value_sound G parse" and node: "append_node JT_object d0 = Some (i, da)" and closed: "closed d0"
    and start: "jd_peek d0 = Some (CHR ''{'')" and run: "parse_object parse i da = Some d1"
  shows "\<exists>kvs u. branch_sound d0 i d1 (J_object kvs) (CHR ''{'' # u @ [CHR ''}'']) \<and> distinct (map fst kvs) \<and>
     (kvs = [] \<and> ws u \<or> members_text G kvs u)"
proof -
  note fresh = fresh_node [OF node closed]
  let ?db = "skip_space (advance 1 da)"
  obtain w where w: "ws w" "reads (advance 1 da) w ?db" using reads_skip .
  have opened: "reads da ([CHR ''{''] @ w) ?db"
    by (rule reads_trans [OF reads_peek w(2)]) (simp add: fresh(10) start)
  have "\<exists>kvs u. reads ?db (u @ [CHR ''}'']) d1 \<and> members_read G i ?db d1 kvs \<and> (kvs = [] \<and> u = [] \<or> members_text G kvs u)"
  proof (cases "jd_peek ?db = Some (CHR ''}'')")
    case True
    then have d1: "d1 = advance 1 ?db" using run by (simp add: parse_object_def)
    have "members_read G i ?db d1 []" unfolding d1 by (simp add: members_read_def takes_def)
    with reads_peek [OF True] show ?thesis unfolding d1 by (intro exI [of _ "[]"]) simp
  next
    case False
    then have "object_loop parse i (length (jd_storage ?db)) ?db = Some d1" using run by (simp add: parse_object_def)
    from object_loop_sound [OF sound this] show ?thesis using fresh(2,3) by auto
  qed
  then obtain kvs u where u: "reads ?db (u @ [CHR ''}'']) d1" "members_read G i ?db d1 kvs"
    "kvs = [] \<and> u = [] \<or> members_text G kvs u" by blast
  from u(2) obtain js where js: "grown (\<lambda>k. k = i \<or> Suc i \<le> k) da d1" "member_list d1 i = js" "map fst js = map fst kvs"
    "\<forall>(j, kv) \<in> set (zip js kvs). jrep d1 (Suc i) (length (jd_nodes d1)) (snd j) (snd kv)" "distinct (map fst js)"
    unfolding members_read_def by (auto simp: fresh(2,4))
  have "reads d0 (([CHR ''{''] @ w) @ u @ [CHR ''}'']) d1" unfolding fresh(9) by (rule reads_trans [OF opened u(1)])
  moreover have "grown (\<lambda>k. i \<le> k) d0 d1" by (rule grown_trans [OF fresh(6) js(1)]) auto
  moreover have "takes d0 d1 (nodes_of (J_object kvs)) (members_of (J_object kvs)) (elements_of (J_object kvs))"
    using u(2) fresh(8) by (auto simp: members_read_def takes_def)
  moreover have "jrep d1 i (length (jd_nodes d1)) i (J_object kvs)"
  proof -
    have "jrep d1 i (length (jd_nodes d1)) (snd j) (snd x)" if "(j, x) \<in> set (zip js kvs)" for j x
    proof -
      have "jrep d1 (Suc i) (length (jd_nodes d1)) (snd j) (snd x)" using js(4) that by auto
      then show ?thesis by (rule jrep_agree) simp_all
    qed
    moreover have "jn_type (jd_nodes d1 ! i) = JT_object" "i < length (jd_nodes d1)"
      using grown_nodes [OF js(1)] fresh(2,7) by (simp, metis Suc_le_lessD)
    ultimately show ?thesis using js(2,3) by (subst jrep.simps) auto
  qed
  moreover have "kvs = [] \<and> ws (w @ u) \<or> members_text G kvs (w @ u)"
    using u(3) w(1) members_text_ws [of G kvs u w] by auto
  ultimately show ?thesis using fresh(1) js(3,5)
    by (intro exI [of _ kvs] exI [of _ "w @ u"]) (simp add: branch_sound_def)
qed


text \<open>The branches of the parser on the first character, as one function of the document behind the space.\<close>

definition value_branch :: "value_parser \<Rightarrow> value_parser" where
  "value_branch parse d =
     (if jd_peek d = Some (CHR 0x22) then do {
        (i, d) \<leftarrow> append_node JT_string d;
        (s, d) \<leftarrow> parse_string d;
        Some (i, set_node i (\<lambda>n. n\<lparr>jn_string := s\<rparr>) d) }
      else if jd_peek d = Some (CHR ''{'') then do {
        (i, d) \<leftarrow> append_node JT_object d;
        d \<leftarrow> parse_object parse i d;
        Some (i, d) }
      else if jd_peek d = Some (CHR ''['') then do {
        (i, d) \<leftarrow> append_node JT_array d;
        d \<leftarrow> parse_array parse i d;
        Some (i, d) }
      else if take 4 (jd_rest d) = ''true'' then do {
        (i, d) \<leftarrow> append_node JT_boolean d;
        Some (i, advance 4 (set_node i (\<lambda>n. n\<lparr>jn_boolean := True\<rparr>) d)) }
      else if take 5 (jd_rest d) = ''false'' then do {
        (i, d) \<leftarrow> append_node JT_boolean d;
        Some (i, advance 5 d) }
      else if take 4 (jd_rest d) = ''null'' then do {
        (i, d) \<leftarrow> append_node JT_null_value d;
        Some (i, advance 4 d) }
      else do {
        (i, d) \<leftarrow> append_node JT_number d;
        (v, d) \<leftarrow> parse_number d;
        Some (i, set_node i (\<lambda>n. n\<lparr>jn_number := v\<rparr>) d) })"

lemma parse_value_branch:
  "parse_value (Suc levels) d =
     (let d0 = skip_space d in
      if jd_rest d0 = [] then None
      else do {
        (i, d1) \<leftarrow> value_branch (parse_value levels) d0;
        Some (i, set_node i (\<lambda>n. n\<lparr>jn_raw := take (jd_cursor d1 - jd_cursor d0) (drop (jd_cursor d0) (jd_storage d1))\<rparr>) d1) })"
  by (cases "jd_rest (skip_space d)")
    (simp_all add: value_branch_def Let_def jd_peek_def del: rest_skip_space)

lemma reads_take: "take n (jd_rest d) = p \<Longrightarrow> length p = n \<Longrightarrow> reads d p (advance n d)"
  using reads_advance [of d p "drop n (jd_rest d)"] by (metis append_take_drop_id)

lemma value_branch_sound:
  assumes sound: "value_sound (json_text levels) parse" and closed: "closed d0"
    and run: "value_branch parse d0 = Some (i, d1)"
  shows "\<exists>v t. json_text (Suc levels) v t \<and> branch_sound d0 i d1 v t"
proof -
  consider (str) "jd_peek d0 = Some (CHR 0x22)" | (obj) "jd_peek d0 = Some (CHR ''{'')" | (arr) "jd_peek d0 = Some (CHR ''['')"
    | (other) "jd_peek d0 \<notin> {Some (CHR 0x22), Some (CHR ''{''), Some (CHR ''['')}" by auto
  then show ?thesis
  proof cases
    case str
    then obtain da s db where node: "append_node JT_string d0 = Some (i, da)" and s: "parse_string da = Some (s, db)"
      and d1: "d1 = set_node i (\<lambda>n. n\<lparr>jn_string := s\<rparr>) db"
      using run by (auto simp: value_branch_def bind_eq_Some_conv)
    from s obtain r where s': "string_body s" "jd_rest da = quoted s @ r" "db = advance (length s + 2) da"
      unfolding parse_string_exact by auto
    have "reads d0 (quoted s) db"
      using reads_advance [OF s'(2)] s'(3) fresh_node(9) [OF node closed] by simp
    with node s'(3) have "branch_sound d0 i d1 (J_string s) (quoted s)"
      unfolding append_node_Some d1 by (auto intro!: leaf_sound simp: set_node_def)
    then show ?thesis using s'(1) by (intro exI [of _ "J_string s"] exI [of _ "quoted s"]) simp
  next
    case obj
    then obtain da where node: "append_node JT_object d0 = Some (i, da)" and r: "parse_object parse i da = Some d1"
      using run by (auto simp: value_branch_def bind_eq_Some_conv)
    from object_branch [OF sound node closed obj r] obtain kvs u where
      "branch_sound d0 i d1 (J_object kvs) (CHR ''{'' # u @ [CHR ''}''])" "distinct (map fst kvs)"
      "kvs = [] \<and> ws u \<or> members_text (json_text levels) kvs u" by blast
    then show ?thesis by (intro exI [of _ "J_object kvs"]) auto
  next
    case arr
    then obtain da where node: "append_node JT_array d0 = Some (i, da)" and r: "parse_array parse i da = Some d1"
      using run by (auto simp: value_branch_def bind_eq_Some_conv)
    from array_branch [OF sound node closed arr r] obtain vs u where
      "branch_sound d0 i d1 (J_array vs) (CHR ''['' # u @ [CHR '']''])"
      "vs = [] \<and> ws u \<or> elements_text (json_text levels) vs u" by blast
    then show ?thesis by (intro exI [of _ "J_array vs"]) auto
  next
    case other
    consider (t) "take 4 (jd_rest d0) = ''true''" | (f) "take 5 (jd_rest d0) = ''false''" "take 4 (jd_rest d0) \<noteq> ''true''"
      | (n) "take 4 (jd_rest d0) = ''null''" "take 5 (jd_rest d0) \<noteq> ''false''" "take 4 (jd_rest d0) \<noteq> ''true''"
      | (num) "take 4 (jd_rest d0) \<noteq> ''null''" "take 5 (jd_rest d0) \<noteq> ''false''" "take 4 (jd_rest d0) \<noteq> ''true''" by blast
    then show ?thesis
    proof cases
      case t
      have "reads d0 ''true'' (advance 4 d0)" by (rule reads_take [OF t]) simp
      then have "branch_sound d0 i d1 (J_bool True) ''true''"
        using run other t by (auto simp: value_branch_def bind_eq_Some_conv append_node_Some set_node_def intro!: leaf_sound)
      then show ?thesis by (intro exI [of _ "J_bool True"] exI [of _ "''true''"]) simp
    next
      case f
      have "reads d0 ''false'' (advance 5 d0)" by (rule reads_take [OF f(1)]) simp
      then have "branch_sound d0 i d1 (J_bool False) ''false''"
        using run other f by (auto simp: value_branch_def bind_eq_Some_conv append_node_Some intro!: leaf_sound)
      then show ?thesis by (intro exI [of _ "J_bool False"] exI [of _ "''false''"]) simp
    next
      case n
      have "reads d0 ''null'' (advance 4 d0)" by (rule reads_take [OF n(1)]) simp
      then have "branch_sound d0 i d1 J_null ''null''"
        using run other n by (auto simp: value_branch_def bind_eq_Some_conv append_node_Some intro!: leaf_sound)
      then show ?thesis by (intro exI [of _ J_null] exI [of _ "''null''"]) simp
    next
      case num
      obtain da v db where node: "append_node JT_number d0 = Some (i, da)" and v: "parse_number da = Some (v, db)"
        and d1: "d1 = set_node i (\<lambda>n. n\<lparr>jn_number := v\<rparr>) db"
        using run other num by (auto simp: value_branch_def bind_eq_Some_conv)
      let ?ds = "takeWhile is_digit (jd_rest da)"
      have v': "number_text (unat v) ?ds" "db = advance (length ?ds) da"
        using v by (simp_all add: parse_number_exact Let_def)
      have "jd_rest da = ?ds @ dropWhile is_digit (jd_rest da)" by simp
      from reads_advance [OF this] have "reads d0 ?ds db" using fresh_node(9) [OF node closed] v'(2) by simp
      with node v'(2) have "branch_sound d0 i d1 (J_number (unat v)) ?ds"
        unfolding append_node_Some d1 by (auto intro!: leaf_sound simp: set_node_def)
      then show ?thesis using v'(1) by (intro exI [of _ "J_number (unat v)"] exI [of _ ?ds]) simp
    qed
  qed
qed


lemma parse_value_sound: "value_sound (json_text levels) (parse_value levels)"
proof (induction levels)
  case (Suc levels)
  show ?case
    unfolding value_sound_def
  proof (intro allI impI)
    fix d i d'
    assume closed: "closed d" and run: "parse_value (Suc levels) d = Some (i, d')"
    let ?d0 = "skip_space d"
    obtain w where w: "ws w" "reads d w ?d0" using reads_skip .
    from run obtain d1 where d1: "value_branch (parse_value levels) ?d0 = Some (i, d1)"
      "d' = set_node i (\<lambda>n. n\<lparr>jn_raw := take (jd_cursor d1 - jd_cursor ?d0) (drop (jd_cursor ?d0) (jd_storage d1))\<rparr>) d1"
      unfolding parse_value_branch Let_def by (auto simp: bind_eq_Some_conv split: if_splits)
    obtain v t where v: "json_text (Suc levels) v t" "branch_sound ?d0 i d1 v t"
      using value_branch_sound [OF Suc.IH _ d1(1)] closed by auto
    from value_sound_intro [where G = "json_text (Suc levels)", OF w _ _ _ v(2) v(1) d1(2)]
    show "\<exists>w t v. ws w \<and> json_text (Suc levels) v t \<and> reads d (w @ t) d' \<and> i = length (jd_nodes d) \<and>
     grown (\<lambda>k. length (jd_nodes d) \<le> k) d d' \<and> takes d d' (nodes_of v) (members_of v) (elements_of v) \<and>
     jrep d' (length (jd_nodes d)) (length (jd_nodes d')) i v \<and> jn_raw (jd_nodes d' ! i) = t" by simp
  qed
qed (simp add: value_sound_def)


section \<open>The parser accepts the grammar\<close>

definition fits :: "JsonDocument \<Rightarrow> nat \<Rightarrow> nat \<Rightarrow> nat \<Rightarrow> bool" where
  "fits d n m e \<longleftrightarrow> length (jd_nodes d) + n \<le> maximum_json_nodes \<and>
     length (jd_members d) + m \<le> maximum_json_members \<and> length (jd_elements d) + e \<le> maximum_json_elements"

lemma fits_same [simp]: "fits (advance k d) n m e = fits d n m e" "fits (skip_space d) n m e = fits d n m e"
  by (simp_all add: fits_def)

definition ends :: "string \<Rightarrow> bool" where
  "ends s \<longleftrightarrow> s = [] \<or> \<not> is_digit (hd s)"

lemma ends_ws: "ws w \<Longrightarrow> \<not> is_digit c \<Longrightarrow> ends (w @ c # s)"
  by (cases w) (auto simp: ends_def is_space_def is_digit_def)

definition value_complete :: "(json \<Rightarrow> string \<Rightarrow> bool) \<Rightarrow> value_parser \<Rightarrow> bool" where
  "value_complete G parse \<longleftrightarrow> (\<forall>d w t v tail. closed d \<longrightarrow> jd_rest d = w @ t @ tail \<longrightarrow> ws w \<longrightarrow> G v t \<longrightarrow>
     ends tail \<longrightarrow> fits d (nodes_of v) (members_of v) (elements_of v) \<longrightarrow>
     (\<exists>i d'. parse d = Some (i, d') \<and> jd_rest d' = tail \<and> takes d d' (nodes_of v) (members_of v) (elements_of v)))"

lemma peek_rest: "jd_peek d = (case jd_rest d of [] \<Rightarrow> None | c # _ \<Rightarrow> Some c)"
  by (simp add: jd_peek_def)

lemma cursor_in: "jd_rest d \<noteq> [] \<Longrightarrow> jd_cursor d < length (jd_storage d)"
  by (simp add: jd_rest_def)

lemma rest_after_ws: "jd_rest d = w @ c # s \<Longrightarrow> ws w \<Longrightarrow> \<not> is_space c \<Longrightarrow> jd_rest (skip_space d) = c # s"
  by (simp add: skip_ws)

lemma brackets [simp]: "\<not> is_space (CHR '']'')" "\<not> is_space (CHR ''}'')" "\<not> is_space (CHR '','')" "\<not> is_space (CHR '':'')"
  "\<not> is_space (CHR 0x22)" "\<not> is_digit (CHR '']'')" "\<not> is_digit (CHR ''}'')" "\<not> is_digit (CHR '','')"
  by (simp_all add: is_space_def is_digit_def)

lemma append_element_fits:
  "length (jd_elements d) < maximum_json_elements \<Longrightarrow>
   append_element parent i d = Some (d\<lparr>jd_elements := jd_elements d @ [\<lparr>je_parent = parent, je_value = i\<rparr>]\<rparr>)"
  by (simp add: append_element_def)

lemma append_member_fits:
  "length (jd_members d) < maximum_json_members \<Longrightarrow>
   append_member parent k i d = Some (d\<lparr>jd_members := jd_members d @ [\<lparr>jm_parent = parent, jm_key = k, jm_value = i\<rparr>]\<rparr>)"
  by (simp add: append_member_def)

text \<open>A value is read and entered, and the text behind it is left.\<close>

lemma element_complete:
  assumes sound: "value_sound G parse" and complete: "value_complete G parse"
    and d: "closed d" "parent < length (jd_nodes d)" "jd_rest d = w @ t @ tail" "ws w" "G v t" "ends tail"
    and fits: "fits d (nodes_of v + n) (members_of v + m) (Suc (elements_of v + e))"
  obtains i d1 d2 where "parse d = Some (i, d1)" "append_element parent i d1 = Some d2" "jd_rest d2 = tail"
    "closed d2" "parent < length (jd_nodes d2)" "fits d2 n m e"
    "takes d d2 (nodes_of v) (members_of v) (Suc (elements_of v))"
proof -
  have "fits d (nodes_of v) (members_of v) (elements_of v)" using fits by (simp add: fits_def)
  then obtain i d1 where d1: "parse d = Some (i, d1)" "jd_rest d1 = tail"
    "takes d d1 (nodes_of v) (members_of v) (elements_of v)"
    using complete d unfolding value_complete_def by metis
  have "length (jd_elements d1) < maximum_json_elements" using d1(3) fits by (simp add: takes_def fits_def)
  then obtain d2 where d2: "append_element parent i d1 = Some d2"
    "d2 = d1\<lparr>jd_elements := jd_elements d1 @ [\<lparr>je_parent = parent, je_value = i\<rparr>]\<rparr>"
    using append_element_fits by blast
  show thesis
  proof (rule that [OF d1(1) d2(1)])
    show "jd_rest d2 = tail" by (simp add: d1(2) d2(2))
    obtain w' t' v' where "grown (\<lambda>k. k = parent \<or> length (jd_nodes d) \<le> k) d d2"
      using element_step [OF sound d1(1) d2(1) d(2,1)] by metis
    then show "closed d2" "parent < length (jd_nodes d2)"
      using d(1,2) grown_nodes(2) by (auto simp: grown_def)
  qed (use d1(3) fits in \<open>simp_all add: d2(2) takes_def fits_def\<close>)
qed

definition heads :: "(json \<Rightarrow> string \<Rightarrow> bool) \<Rightarrow> bool" where
  "heads G \<longleftrightarrow> (\<forall>v t. G v t \<longrightarrow> t \<noteq> [] \<and> \<not> is_space (hd t) \<and> hd t \<noteq> CHR '']'')"

lemma heads_skip: "heads G \<Longrightarrow> G v t \<Longrightarrow> ws w \<Longrightarrow> dropWhile is_space (w @ t @ s) = t @ s"
  by (cases t) (force simp: heads_def skip_ws)+

lemma array_loop_complete:
  assumes G: "value_sound G parse" "value_complete G parse" "heads G"
  shows "elements_text G vs u \<Longrightarrow> closed d \<Longrightarrow> parent < length (jd_nodes d) \<Longrightarrow>
    jd_rest d = w @ dropWhile is_space (u @ CHR '']'' # tail) \<Longrightarrow> ws w \<Longrightarrow>
    fits d (sum_list (map nodes_of vs)) (sum_list (map members_of vs)) (length vs + sum_list (map elements_of vs)) \<Longrightarrow>
    length vs \<le> fuel \<Longrightarrow>
    \<exists>d'. array_loop parse parent fuel d = Some d' \<and> jd_rest d' = tail \<and>
      takes d d' (sum_list (map nodes_of vs)) (sum_list (map members_of vs)) (length vs + sum_list (map elements_of vs))"
proof (induction arbitrary: d w fuel rule: elements_text.induct)
  case (elements_last w1 v t w2)
  note prems = elements_last.prems and hyps = elements_last.hyps
  obtain n where fuel: "fuel = Suc n" using prems(6) by (cases fuel) auto
  have input: "jd_rest d = w @ t @ w2 @ CHR '']'' # tail" "ends (w2 @ CHR '']'' # tail)"
    using prems(3) heads_skip [OF G(3) hyps(2,1)] ends_ws [OF hyps(3)] by simp_all
  have "fits d (nodes_of v + 0) (members_of v + 0) (Suc (elements_of v + 0))" using prems(5) by simp
  from element_complete [OF G(1,2) prems(1,2) input(1) prems(4) hyps(2) input(2) this]
  obtain i d1 d2 where r: "parse d = Some (i, d1)" "append_element parent i d1 = Some d2"
    "jd_rest d2 = w2 @ CHR '']'' # tail" "takes d d2 (nodes_of v) (members_of v) (Suc (elements_of v))" .
  have "jd_cursor d < length (jd_storage d)" by (rule cursor_in) (simp add: input(1))
  moreover have "jd_rest (skip_space d2) = CHR '']'' # tail" by (rule rest_after_ws [OF r(3) hyps(3)]) simp
  ultimately show ?case using r(1,2,4) by (simp add: fuel peek_rest)
next
  case (elements_more w1 v t w2 vs u)
  note prems = elements_more.prems and hyps = elements_more.hyps
  obtain n where fuel: "fuel = Suc n" "length vs \<le> n" using prems(6) by (cases fuel) auto
  let ?tail = "w2 @ CHR '','' # u @ CHR '']'' # tail"
  have input: "jd_rest d = w @ t @ ?tail" "ends ?tail"
    using prems(3) heads_skip [OF G(3) hyps(2,1)] ends_ws [OF hyps(3)] by simp_all
  have "fits d (nodes_of v + sum_list (map nodes_of vs)) (members_of v + sum_list (map members_of vs))
      (Suc (elements_of v + (length vs + sum_list (map elements_of vs))))"
    using prems(5) by (simp add: algebra_simps)
  from element_complete [OF G(1,2) prems(1,2) input(1) prems(4) hyps(2) input(2) this]
  obtain i d1 d2 where r: "parse d = Some (i, d1)" "append_element parent i d1 = Some d2" "jd_rest d2 = ?tail"
    "closed d2" "parent < length (jd_nodes d2)"
    "fits d2 (sum_list (map nodes_of vs)) (sum_list (map members_of vs)) (length vs + sum_list (map elements_of vs))"
    "takes d d2 (nodes_of v) (members_of v) (Suc (elements_of v))" .
  have comma: "jd_rest (skip_space d2) = CHR '','' # u @ CHR '']'' # tail" by (rule rest_after_ws [OF r(3) hyps(3)]) simp
  let ?d4 = "skip_space (advance 1 (skip_space d2))"
  have "jd_rest ?d4 = [] @ dropWhile is_space (u @ CHR '']'' # tail)"
    using comma by (simp only: rest_skip_space rest_advance) simp
  from elements_more.IH [OF _ _ this _ _ fuel(2)] r(4-6) obtain d' where
    "array_loop parse parent n ?d4 = Some d'" "jd_rest d' = tail"
    "takes d2 d' (sum_list (map nodes_of vs)) (sum_list (map members_of vs)) (length vs + sum_list (map elements_of vs))"
    by auto
  moreover have "jd_cursor d < length (jd_storage d)" by (rule cursor_in) (use input(1) G(3) hyps(2) in \<open>auto simp: heads_def\<close>)
  ultimately show ?case using r(1,2,7) comma by (simp add: fuel(1) peek_rest takes_def)
qed


lemma member_complete:
  assumes sound: "value_sound G parse" and complete: "value_complete G parse"
    and d: "closed d" "parent < length (jd_nodes d)" "jd_rest d = w @ t @ tail" "ws w" "G v t" "ends tail"
    and fits: "fits d (nodes_of v + n) (Suc (members_of v + m)) (elements_of v + e)"
  obtains i d1 d2 where "parse d = Some (i, d1)" "append_member parent key i d1 = Some d2" "jd_rest d2 = tail"
    "closed d2" "parent < length (jd_nodes d2)" "fits d2 n m e"
    "takes d d2 (nodes_of v) (Suc (members_of v)) (elements_of v)"
    "member_list d2 parent = member_list d parent @ [(key, i)]"
proof -
  have "fits d (nodes_of v) (members_of v) (elements_of v)" using fits by (simp add: fits_def)
  then obtain i d1 where d1: "parse d = Some (i, d1)" "jd_rest d1 = tail"
    "takes d d1 (nodes_of v) (members_of v) (elements_of v)"
    using complete d unfolding value_complete_def by metis
  have "length (jd_members d1) < maximum_json_members" using d1(3) fits by (simp add: takes_def fits_def)
  then obtain d2 where d2: "append_member parent key i d1 = Some d2"
    "d2 = d1\<lparr>jd_members := jd_members d1 @ [\<lparr>jm_parent = parent, jm_key = key, jm_value = i\<rparr>]\<rparr>"
    using append_member_fits by blast
  show thesis
  proof (rule that [OF d1(1) d2(1)])
    show "jd_rest d2 = tail" by (simp add: d1(2) d2(2))
    obtain w' t' v' where "grown (\<lambda>k. k = parent \<or> length (jd_nodes d) \<le> k) d d2"
      and "member_list d2 parent = member_list d parent @ [(key, i)]"
      using member_step [OF sound d1(1) d2(1) d(2,1)] by metis
    then show "closed d2" "parent < length (jd_nodes d2)" "member_list d2 parent = member_list d parent @ [(key, i)]"
      using d(1,2) grown_nodes(2) by (auto simp: grown_def)
  qed (use d1(3) fits in \<open>simp_all add: d2(2) takes_def fits_def\<close>)
qed

text \<open>The key, the colon and the space around it.\<close>

lemma key_complete:
  assumes "jd_rest d = quoted key @ w2 @ CHR '':'' # rest" "string_body key" "ws w2"
  obtains da where "parse_string d = Some (key, da)" "jd_members da = jd_members d" "jd_nodes da = jd_nodes d"
    "jd_elements da = jd_elements d" "jd_peek (skip_space da) = Some (CHR '':'')"
    "jd_rest (skip_space (advance 1 (skip_space da))) = dropWhile is_space rest"
proof -
  let ?da = "advance (length key + 2) d"
  have run: "parse_string d = Some (key, ?da)" unfolding parse_string_exact using assms by auto
  have "jd_rest ?da = w2 @ CHR '':'' # rest" by (simp add: assms(1))
  from rest_after_ws [OF this assms(3)] have colon: "jd_rest (skip_space ?da) = CHR '':'' # rest" by simp
  show thesis
  proof (rule that [OF run])
    show "jd_peek (skip_space ?da) = Some (CHR '':'')" unfolding peek_rest colon by simp
    show "jd_rest (skip_space (advance 1 (skip_space ?da))) = dropWhile is_space rest"
      unfolding rest_skip_space [of "advance 1 (skip_space ?da)"] rest_advance [of 1 "skip_space ?da"] colon by simp
  qed simp_all
qed

lemma ws_Nil: "ws []"
  by simp

lemma object_loop_complete:
  assumes G: "value_sound G parse" "value_complete G parse" "heads G"
  shows "members_text G kvs u \<Longrightarrow> closed d \<Longrightarrow> parent < length (jd_nodes d) \<Longrightarrow>
    jd_rest d = dropWhile is_space (u @ CHR ''}'' # tail) \<Longrightarrow>
    fits d (sum_list (map (\<lambda>(k, v). nodes_of v) kvs)) (length kvs + sum_list (map (\<lambda>(k, v). members_of v) kvs))
      (sum_list (map (\<lambda>(k, v). elements_of v) kvs)) \<Longrightarrow>
    distinct (map fst (member_list d parent) @ map fst kvs) \<Longrightarrow> length kvs \<le> fuel \<Longrightarrow>
    \<exists>d'. object_loop parse parent fuel d = Some d' \<and> jd_rest d' = tail \<and>
      takes d d' (sum_list (map (\<lambda>(k, v). nodes_of v) kvs)) (length kvs + sum_list (map (\<lambda>(k, v). members_of v) kvs))
        (sum_list (map (\<lambda>(k, v). elements_of v) kvs))"
proof (induction arbitrary: d fuel rule: members_text.induct)
  case (members_last w1 k w2 w3 v t w4)
  note prems = members_last.prems and hyps = members_last.hyps
  obtain n where fuel: "fuel = Suc n" using prems(6) by (cases fuel) auto
  let ?tail = "w4 @ CHR ''}'' # tail"
  have input: "jd_rest d = quoted k @ w2 @ CHR '':'' # w3 @ t @ ?tail" "ends ?tail"
    using prems(3) hyps(1) ends_ws [OF hyps(6)] by (simp_all add: skip_ws)
  obtain da where da: "parse_string d = Some (k, da)" "jd_members da = jd_members d" "jd_nodes da = jd_nodes d"
    "jd_elements da = jd_elements d" "jd_peek (skip_space da) = Some (CHR '':'')"
    "jd_rest (skip_space (advance 1 (skip_space da))) = dropWhile is_space (w3 @ t @ ?tail)"
    using key_complete [OF input(1) hyps(2,3)] .
  let ?db = "skip_space (advance 1 (skip_space da))"
  have db: "jd_rest ?db = [] @ t @ ?tail" using da(6) heads_skip [OF G(3) hyps(5,4)] by simp
  have tables: "closed ?db" "parent < length (jd_nodes ?db)" using prems(1,2) da(2-4) by (simp_all add: closed_def)
  have "fits ?db (nodes_of v + 0) (Suc (members_of v + 0)) (elements_of v + 0)" using prems(4) da(2-4) by (simp add: fits_def)
  from member_complete [OF G(1,2) tables db ws_Nil hyps(5) input(2) this]
  obtain i d1 d2 where r: "parse ?db = Some (i, d1)" "append_member parent k i d1 = Some d2" "jd_rest d2 = ?tail"
    "takes ?db d2 (nodes_of v) (Suc (members_of v)) (elements_of v)" .
  have new: "\<not> list_ex (\<lambda>m. jm_parent m = parent \<and> jm_key m = k) (jd_members da)"
    unfolding key_absent using prems(5) da(2) by (simp add: member_list_def)
  have "jd_rest (skip_space d2) = CHR ''}'' # tail" by (rule rest_after_ws [OF r(3) hyps(6)]) simp
  moreover have "jd_cursor d < length (jd_storage d)" by (rule cursor_in) (simp add: input(1))
  ultimately show ?case using da new r
    by (intro exI [of _ "advance 1 (skip_space d2)"]) (simp add: fuel peek_rest [of "skip_space d2"] takes_def)
next
  case (members_more w1 k w2 w3 v t w4 kvs u)
  note prems = members_more.prems and hyps = members_more.hyps
  obtain n where fuel: "fuel = Suc n" "length kvs \<le> n" using prems(6) by (cases fuel) auto
  let ?tail = "w4 @ CHR '','' # u @ CHR ''}'' # tail"
  have input: "jd_rest d = quoted k @ w2 @ CHR '':'' # w3 @ t @ ?tail" "ends ?tail"
    using prems(3) hyps(1) ends_ws [OF hyps(6)] by (simp_all add: skip_ws)
  obtain da where da: "parse_string d = Some (k, da)" "jd_members da = jd_members d" "jd_nodes da = jd_nodes d"
    "jd_elements da = jd_elements d" "jd_peek (skip_space da) = Some (CHR '':'')"
    "jd_rest (skip_space (advance 1 (skip_space da))) = dropWhile is_space (w3 @ t @ ?tail)"
    using key_complete [OF input(1) hyps(2,3)] .
  let ?db = "skip_space (advance 1 (skip_space da))"
  let ?n = "sum_list (map (\<lambda>(k, v). nodes_of v) kvs)"
  let ?m = "length kvs + sum_list (map (\<lambda>(k, v). members_of v) kvs)"
  let ?e = "sum_list (map (\<lambda>(k, v). elements_of v) kvs)"
  have db: "jd_rest ?db = [] @ t @ ?tail" using da(6) heads_skip [OF G(3) hyps(5,4)] by simp
  have tables: "closed ?db" "parent < length (jd_nodes ?db)" using prems(1,2) da(2-4) by (simp_all add: closed_def)
  have "fits ?db (nodes_of v + ?n) (Suc (members_of v + ?m)) (elements_of v + ?e)"
    using prems(4) da(2-4) by (simp add: fits_def algebra_simps)
  from member_complete [OF G(1,2) tables db ws_Nil hyps(5) input(2) this]
  obtain i d1 d2 where r: "parse ?db = Some (i, d1)" "append_member parent k i d1 = Some d2" "jd_rest d2 = ?tail"
    "closed d2" "parent < length (jd_nodes d2)" "fits d2 ?n ?m ?e"
    "takes ?db d2 (nodes_of v) (Suc (members_of v)) (elements_of v)"
    "member_list d2 parent = member_list ?db parent @ [(k, i)]" .
  have new: "\<not> list_ex (\<lambda>m. jm_parent m = parent \<and> jm_key m = k) (jd_members da)"
    unfolding key_absent using prems(5) da(2) by (simp add: member_list_def)
  have comma: "jd_rest (skip_space d2) = CHR '','' # u @ CHR ''}'' # tail" by (rule rest_after_ws [OF r(3) hyps(6)]) simp
  let ?d4 = "skip_space (advance 1 (skip_space d2))"
  have d4: "jd_rest ?d4 = dropWhile is_space (u @ CHR ''}'' # tail)"
    using comma by (simp only: rest_skip_space rest_advance) simp
  have "member_list ?db parent = member_list d parent" by (simp add: member_list_def da(2))
  then have "distinct (map fst (member_list ?d4 parent) @ map fst kvs)" using prems(5) r(8) by auto
  from members_more.IH [OF _ _ d4 _ this fuel(2)] r(4-6) obtain d' where
    "object_loop parse parent n ?d4 = Some d'" "jd_rest d' = tail" "takes d2 d' ?n ?m ?e" by auto
  moreover have "jd_cursor d < length (jd_storage d)" by (rule cursor_in) (simp add: input(1))
  ultimately show ?case using da new r(1,2,7) comma
    by (intro exI [of _ d']) (simp add: fuel(1) peek_rest [of "skip_space d2"] takes_def)
qed


lemma heads_json: "heads (json_text levels)"
proof -
  have "t \<noteq> [] \<and> \<not> is_space (hd t) \<and> hd t \<noteq> CHR '']''" if "json_text levels v t" for v t
  proof (cases levels)
    case (Suc l)
    have "is_digit c \<Longrightarrow> \<not> is_space c \<and> c \<noteq> CHR '']''" for c by (auto simp: is_digit_def is_space_def)
    then have "\<not> is_space (hd ds) \<and> hd ds \<noteq> CHR '']''" if "number_text n ds" for n ds
      using that by (cases ds) (auto simp: number_text_def)
    with that Suc show ?thesis
      by (cases v) (auto simp: is_space_def number_text_def split: if_splits)
  qed (use that in simp)
  then show ?thesis by (simp add: heads_def)
qed

lemma elements_text_length:
  assumes "elements_text G vs u" "heads G"
  shows "length vs \<le> length u"
  using assms(1)
proof induction
  case (elements_last w1 v t w2)
  then show ?case using assms(2) by (cases t) (auto simp: heads_def)
qed simp

lemma members_text_length: "members_text G kvs u \<Longrightarrow> length kvs \<le> length u"
  by (induction rule: members_text.induct) simp_all

lemma fresh_fits:
  assumes "fits d0 (Suc n) m e" "closed d0"
  obtains i da where "append_node ty d0 = Some (i, da)" "fits da n m e" "jd_rest da = jd_rest d0"
    "length (jd_nodes da) = Suc i" "closed da" "member_list da i = []" "takes d0 da 1 0 0"
proof -
  have "length (jd_nodes d0) \<noteq> maximum_json_nodes" using assms(1) by (simp add: fits_def)
  then obtain i da where node: "append_node ty d0 = Some (i, da)" by (simp add: append_node_def)
  note fresh = fresh_node [OF node assms(2)]
  show thesis
  proof (rule that [OF node])
    show "jd_rest da = jd_rest d0" using node by (simp add: append_node_Some)
    show "fits da n m e" using fresh(8) assms(1) by (simp add: fits_def takes_def)
  qed (use fresh in simp_all)
qed

lemma array_complete:
  assumes G: "value_sound G parse" "value_complete G parse" "heads G"
    and d0: "closed d0" "jd_rest d0 = CHR ''['' # u @ CHR '']'' # tail"
    and vs: "vs = [] \<and> ws u \<or> elements_text G vs u"
    and fits: "fits d0 (nodes_of (J_array vs)) (members_of (J_array vs)) (elements_of (J_array vs))"
  shows "\<exists>i d1. value_branch parse d0 = Some (i, d1) \<and> jd_rest d1 = tail \<and>
     takes d0 d1 (nodes_of (J_array vs)) (members_of (J_array vs)) (elements_of (J_array vs))"
proof -
  let ?n = "sum_list (map nodes_of vs)" and ?m = "sum_list (map members_of vs)"
  let ?e = "length vs + sum_list (map elements_of vs)"
  have "fits d0 (Suc ?n) ?m ?e" using fits by simp
  then obtain i da where da: "append_node JT_array d0 = Some (i, da)" "fits da ?n ?m ?e" "jd_rest da = jd_rest d0"
    "length (jd_nodes da) = Suc i" "closed da" "takes d0 da 1 0 0"
    using fresh_fits [OF _ d0(1)] by metis
  let ?db = "skip_space (advance 1 da)"
  have db: "jd_rest ?db = dropWhile is_space (u @ CHR '']'' # tail)" by (simp add: da(3) d0(2))
  have "\<exists>d1. parse_array parse i da = Some d1 \<and> jd_rest d1 = tail \<and> takes da d1 ?n ?m ?e"
  proof (cases "vs = [] \<and> ws u")
    case True
    then have close: "jd_rest ?db = CHR '']'' # tail" using db skip_ws [of u "CHR '']'' # tail"] by simp
    have "jd_peek ?db = Some (CHR '']'')" unfolding peek_rest close by simp
    then have "parse_array parse i da = Some (advance 1 ?db)" by (simp add: parse_array_def)
    moreover have "jd_rest (advance 1 ?db) = tail" unfolding rest_advance [of 1 ?db] close by simp
    ultimately show ?thesis using True by (auto simp: takes_def)
  next
    case False
    then have vs': "elements_text G vs u" using vs by blast
    obtain w1 v t s where t: "ws w1" "G v t" "u = w1 @ t @ s" using vs' by cases auto
    have "jd_rest ?db = t @ s @ CHR '']'' # tail" using db t heads_skip [OF G(3) t(2,1)] by simp
    moreover have "t \<noteq> []" "hd t \<noteq> CHR '']''" using G(3) t(2) unfolding heads_def by blast+
    ultimately have first: "jd_peek ?db \<noteq> Some (CHR '']'')"
      by (cases t) (auto simp: peek_rest simp del: rest_skip_space)
    have "length vs \<le> length (jd_rest d0)" using elements_text_length [OF vs' G(3)] by (simp add: d0(2))
    also have "\<dots> \<le> length (jd_storage ?db)" using da(3) by (metis jd_rest_def length_drop diff_le_self storage_advance(1) storage_skip_space(1))
    finally have "length vs \<le> length (jd_storage ?db)" .
    from array_loop_complete [OF G vs' _ _ _ ws_Nil _ this, where parent = i and tail = tail and d = ?db] da(2,4,5) db
    obtain d1 where
      "array_loop parse i (length (jd_storage ?db)) ?db = Some d1" "jd_rest d1 = tail" "takes ?db d1 ?n ?m ?e" by auto
    with first show ?thesis by (simp add: parse_array_def)
  qed
  then obtain d1 where d1: "parse_array parse i da = Some d1" "jd_rest d1 = tail" "takes da d1 ?n ?m ?e" by blast
  have "jd_peek d0 = Some (CHR ''['')" by (simp add: peek_rest d0(2))
  then have "value_branch parse d0 = Some (i, d1)" using da(1) d1(1) by (simp add: value_branch_def)
  with d1 da(6) show ?thesis by (auto simp: takes_def)
qed


lemma object_complete:
  assumes G: "value_sound G parse" "value_complete G parse" "heads G"
    and d0: "closed d0" "jd_rest d0 = CHR ''{'' # u @ CHR ''}'' # tail"
    and kvs: "distinct (map fst kvs)" "kvs = [] \<and> ws u \<or> members_text G kvs u"
    and fits: "fits d0 (nodes_of (J_object kvs)) (members_of (J_object kvs)) (elements_of (J_object kvs))"
  shows "\<exists>i d1. value_branch parse d0 = Some (i, d1) \<and> jd_rest d1 = tail \<and>
     takes d0 d1 (nodes_of (J_object kvs)) (members_of (J_object kvs)) (elements_of (J_object kvs))"
proof -
  let ?n = "sum_list (map (\<lambda>(k, v). nodes_of v) kvs)" and ?e = "sum_list (map (\<lambda>(k, v). elements_of v) kvs)"
  let ?m = "length kvs + sum_list (map (\<lambda>(k, v). members_of v) kvs)"
  have "fits d0 (Suc ?n) ?m ?e" using fits by simp
  then obtain i da where da: "append_node JT_object d0 = Some (i, da)" "fits da ?n ?m ?e" "jd_rest da = jd_rest d0"
    "length (jd_nodes da) = Suc i" "closed da" "member_list da i = []" "takes d0 da 1 0 0"
    using fresh_fits [OF _ d0(1)] by metis
  let ?db = "skip_space (advance 1 da)"
  have db: "jd_rest ?db = dropWhile is_space (u @ CHR ''}'' # tail)" by (simp add: da(3) d0(2))
  have "\<exists>d1. parse_object parse i da = Some d1 \<and> jd_rest d1 = tail \<and> takes da d1 ?n ?m ?e"
  proof (cases "kvs = [] \<and> ws u")
    case True
    then have close: "jd_rest ?db = CHR ''}'' # tail" using db skip_ws [of u "CHR ''}'' # tail"] by simp
    have "jd_peek ?db = Some (CHR ''}'')" unfolding peek_rest close by simp
    then have "parse_object parse i da = Some (advance 1 ?db)" by (simp add: parse_object_def)
    moreover have "jd_rest (advance 1 ?db) = tail" unfolding rest_advance [of 1 ?db] close by simp
    ultimately show ?thesis using True by (auto simp: takes_def)
  next
    case False
    then have kvs': "members_text G kvs u" using kvs by blast
    obtain w1 s where t: "ws w1" "u = w1 @ CHR 0x22 # s" using kvs' by cases auto
    have "jd_rest ?db = CHR 0x22 # s @ CHR ''}'' # tail" using db t skip_ws [OF t(1)] by simp
    then have first: "jd_peek ?db \<noteq> Some (CHR ''}'')" by (simp add: peek_rest del: rest_skip_space)
    have "length kvs \<le> length (jd_rest d0)" using members_text_length [OF kvs'] by (simp add: d0(2))
    also have "\<dots> \<le> length (jd_storage ?db)" using da(3) by (metis jd_rest_def length_drop diff_le_self storage_advance(1) storage_skip_space(1))
    finally have "length kvs \<le> length (jd_storage ?db)" .
    from object_loop_complete [OF G kvs' _ _ db _ _ this, where parent = i] da(2,4-6) kvs(1)
    obtain d1 where
      "object_loop parse i (length (jd_storage ?db)) ?db = Some d1" "jd_rest d1 = tail" "takes ?db d1 ?n ?m ?e" by auto
    with first show ?thesis by (simp add: parse_object_def)
  qed
  then obtain d1 where d1: "parse_object parse i da = Some d1" "jd_rest d1 = tail" "takes da d1 ?n ?m ?e" by blast
  have "jd_peek d0 = Some (CHR ''{'')" by (simp add: peek_rest d0(2))
  then have "value_branch parse d0 = Some (i, d1)" using da(1) d1(1) by (simp add: value_branch_def)
  with d1 da(7) show ?thesis by (auto simp: takes_def)
qed


text \<open>A value without parts: its node is entered and its text is read.\<close>

lemma leaf_complete:
  assumes "fits d0 1 0 0" "closed d0" "jd_rest d0 = t @ tail"
    and run: "\<And>i da. append_node ty d0 = Some (i, da) \<Longrightarrow> jd_rest da = t @ tail \<Longrightarrow>
      \<exists>f. value_branch parse d0 = Some (i, set_node i f (advance (length t) da))"
  shows "\<exists>i d1. value_branch parse d0 = Some (i, d1) \<and> jd_rest d1 = tail \<and> takes d0 d1 1 0 0"
proof -
  have "fits d0 (Suc 0) 0 0" using assms(1) by simp
  then obtain i da where da: "append_node ty d0 = Some (i, da)" "jd_rest da = jd_rest d0" "takes d0 da 1 0 0"
    using fresh_fits [OF _ assms(2)] by metis
  then obtain f where "value_branch parse d0 = Some (i, set_node i f (advance (length t) da))"
    using run [OF da(1)] assms(3) by auto
  with da assms(3) show ?thesis by (auto simp: takes_def set_node_def)
qed

lemma set_node_id: "set_node i (\<lambda>n. n) d = d"
  by (simp add: set_node_def)

lemma set_node_advance: "advance k (set_node i f d) = set_node i f (advance k d)"
  by (simp add: set_node_def)

lemma number_taken: "number_text n ds \<Longrightarrow> ends tail \<Longrightarrow> takeWhile is_digit (ds @ tail) = ds"
  by (cases tail) (auto simp: number_text_def ends_def list_all_iff)

lemma number_first:
  assumes "number_text n ds"
  obtains c r where "ds = c # r" "is_digit c" "c \<notin> {CHR 0x22, CHR ''{'', CHR ''['', CHR ''t'', CHR ''f'', CHR ''n''}"
proof -
  obtain c r where "ds = c # r" "is_digit c" using assms by (cases ds) (auto simp: number_text_def)
  moreover from this have "c \<notin> {CHR 0x22, CHR ''{'', CHR ''['', CHR ''t'', CHR ''f'', CHR ''n''}"
    by (auto simp: is_digit_def)
  ultimately show thesis using that by blast
qed

lemma value_branch_complete:
  assumes G: "value_sound (json_text levels) parse" "value_complete (json_text levels) parse"
    and d0: "closed d0" "jd_rest d0 = t @ tail" "ends tail" "json_text (Suc levels) v t"
    and fits: "fits d0 (nodes_of v) (members_of v) (elements_of v)"
  shows "\<exists>i d1. value_branch parse d0 = Some (i, d1) \<and> jd_rest d1 = tail \<and>
     takes d0 d1 (nodes_of v) (members_of v) (elements_of v)"
proof (cases v)
  case J_null
  then have d: "jd_rest d0 = ''null'' @ tail" using d0 by simp
  have "\<exists>f. value_branch parse d0 = Some (i, set_node i f (advance (length ''null'') da))"
    if "append_node JT_null_value d0 = Some (i, da)" for i da
    using that d by (intro exI [of _ "\<lambda>n. n"]) (simp add: value_branch_def peek_rest set_node_id eval_nat_numeral)
  from leaf_complete [OF _ d0(1) d this] show ?thesis using fits J_null by simp
next
  case (J_bool b)
  show ?thesis
  proof (cases b)
    case True
    then have d: "jd_rest d0 = ''true'' @ tail" using J_bool d0 by simp
    have "\<exists>f. value_branch parse d0 = Some (i, set_node i f (advance (length ''true'') da))"
      if "append_node JT_boolean d0 = Some (i, da)" for i da
      using that d by (intro exI [of _ "\<lambda>n. n\<lparr>jn_boolean := True\<rparr>"]) (simp add: value_branch_def peek_rest set_node_advance eval_nat_numeral)
    from leaf_complete [OF _ d0(1) d this] show ?thesis using fits J_bool by simp
  next
    case False
    then have d: "jd_rest d0 = ''false'' @ tail" using J_bool d0 by simp
    have "\<exists>f. value_branch parse d0 = Some (i, set_node i f (advance (length ''false'') da))"
      if "append_node JT_boolean d0 = Some (i, da)" for i da
      using that d by (intro exI [of _ "\<lambda>n. n"]) (simp add: value_branch_def peek_rest set_node_id eval_nat_numeral)
    from leaf_complete [OF _ d0(1) d this] show ?thesis using fits J_bool by simp
  qed
next
  case (J_number n)
  then have n: "number_text n t" using d0 by simp
  obtain c r where c: "t = c # r" "c \<notin> {CHR 0x22, CHR ''{'', CHR ''['', CHR ''t'', CHR ''f'', CHR ''n''}"
    using number_first [OF n] .
  have "\<exists>f. value_branch parse d0 = Some (i, set_node i f (advance (length t) da))"
    if "append_node JT_number d0 = Some (i, da)" "jd_rest da = t @ tail" for i da
  proof -
    have "n < 2 ^ 64" using n by (simp add: number_text_def)
    then have "parse_number da = Some (of_nat n, advance (length t) da)"
      unfolding parse_number_exact using n number_taken [OF n d0(3)] that(2) by (simp add: unat_of_nat_small)
    then show ?thesis using that c d0(2) by (auto simp: value_branch_def peek_rest)
  qed
  from leaf_complete [OF _ d0(1,2) this] show ?thesis using fits J_number by simp
next
  case (J_string k)
  then have k: "string_body k" "t = quoted k" using d0 by simp_all
  have "\<exists>f. value_branch parse d0 = Some (i, set_node i f (advance (length t) da))"
    if "append_node JT_string d0 = Some (i, da)" "jd_rest da = t @ tail" for i da
  proof -
    have "parse_string da = Some (k, advance (length k + 2) da)"
      unfolding parse_string_exact using k that by auto
    then show ?thesis using that k d0(2) by (auto simp: value_branch_def peek_rest)
  qed
  from leaf_complete [OF _ d0(1,2) this] show ?thesis using fits J_string by simp
next
  case (J_array vs)
  then obtain u where "t = CHR ''['' # u @ [CHR '']'']" "vs = [] \<and> ws u \<or> elements_text (json_text levels) vs u"
    using d0(4) by auto
  then show ?thesis using array_complete [OF G heads_json d0(1), of u tail vs] d0(2) fits J_array by simp
next
  case (J_object kvs)
  then obtain u where "t = CHR ''{'' # u @ [CHR ''}'']" "distinct (map fst kvs)"
    "kvs = [] \<and> ws u \<or> members_text (json_text levels) kvs u"
    using d0(4) by auto
  then show ?thesis using object_complete [OF G heads_json d0(1), of u tail kvs] d0(2) fits J_object by simp
qed

lemma parse_value_complete: "value_complete (json_text levels) (parse_value levels)"
proof (induction levels)
  case (Suc levels)
  show ?case
    unfolding value_complete_def
  proof (intro allI impI)
    fix d w t v tail
    assume h: "closed d" "jd_rest d = w @ t @ tail" "ws w" "json_text (Suc levels) v t" "ends tail"
      "fits d (nodes_of v) (members_of v) (elements_of v)"
    let ?d0 = "skip_space d"
    have d0: "jd_rest ?d0 = t @ tail" using h(2) heads_skip [OF heads_json h(4,3)] by simp
    have t: "t \<noteq> []" using heads_json [of "Suc levels"] h(4) unfolding heads_def by blast
    obtain i d1 where d1: "value_branch (parse_value levels) ?d0 = Some (i, d1)" "jd_rest d1 = tail"
      "takes ?d0 d1 (nodes_of v) (members_of v) (elements_of v)"
      using value_branch_complete [OF parse_value_sound Suc.IH _ d0 h(5,4)] h(1,6) by auto
    then show "\<exists>i d'. parse_value (Suc levels) d = Some (i, d') \<and> jd_rest d' = tail \<and>
        takes d d' (nodes_of v) (members_of v) (elements_of v)"
      unfolding parse_value_branch Let_def using d0 t by (auto simp: takes_def set_node_def simp del: rest_skip_space)
  qed
qed (simp add: value_complete_def)


section \<open>Documents\<close>

text \<open>A document seen through its lookups shows a value at a node.\<close>

function denotes :: "JsonDocument \<Rightarrow> nat \<Rightarrow> json \<Rightarrow> bool" where
  "denotes d i v \<longleftrightarrow> i < length (jd_nodes d) \<and>
     (case v of
        J_null \<Rightarrow> jn_type (jd_nodes d ! i) = JT_null_value
      | J_bool b \<Rightarrow> jn_type (jd_nodes d ! i) = JT_boolean \<and> jn_boolean (jd_nodes d ! i) = b
      | J_number n \<Rightarrow> jn_type (jd_nodes d ! i) = JT_number \<and> unat (jn_number (jd_nodes d ! i)) = n
      | J_string s \<Rightarrow> jn_type (jd_nodes d ! i) = JT_string \<and> jn_string (jd_nodes d ! i) = s
      | J_array vs \<Rightarrow> jn_type (jd_nodes d ! i) = JT_array \<and> document_element_count d (Some i) = length vs \<and>
          (\<forall>n. document_element d (Some i) n \<noteq> None \<longleftrightarrow> n < length vs) \<and>
          (\<forall>(n, v) \<in> set (enumerate 0 vs). denotes d (the (document_element d (Some i) n)) v)
      | J_object kvs \<Rightarrow> jn_type (jd_nodes d ! i) = JT_object \<and>
          (\<forall>k. document_field d (Some i) k \<noteq> None \<longleftrightarrow> k \<in> fst ` set kvs) \<and>
          (\<forall>kv \<in> set kvs. denotes d (the (document_field d (Some i) (fst kv))) (snd kv)))"
  by pat_completeness auto
termination
  by (relation "measure (\<lambda>(_, _, v). size v)")
    (auto simp: in_set_enumerate_eq intro!: le_imp_less_Suc intro: size_list_estimation' [OF nth_mem] size_list_estimation')

declare denotes.simps [simp del]

lemma nth_element_list:
  "nth_element es i (found + n) found =
   (let js = map je_value (filter (\<lambda>e. je_parent e = i) es) in if n < length js then Some (js ! n) else None)"
proof (induction es arbitrary: n found)
  case (Cons e es)
  show ?case using Cons [where n = n and found = found] Cons [where n = "n - 1" and found = "Suc found"]
    by (cases n) (auto simp: Let_def)
qed simp

lemma find_member:
  "map_option jm_value (List.find (\<lambda>m. jm_parent m = i \<and> jm_key m = k) ms) =
   map_of (map (\<lambda>m. (jm_key m, jm_value m)) (filter (\<lambda>m. jm_parent m = i) ms)) k"
  by (induction ms) auto

lemma document_element_list:
  assumes "jn_type (jd_nodes d ! i) = JT_array" "\<forall>j \<in> set (element_list d i). j < length (jd_nodes d)"
  shows "document_element d (Some i) n = (if n < length (element_list d i) then Some (element_list d i ! n) else None)"
    "document_element_count d (Some i) = length (element_list d i)"
  using assms nth_mem [of n "element_list d i"] nth_element_list [of "jd_elements d" i 0 n]
  unfolding element_list_def by (auto simp: document_element_def document_element_count_def Let_def jd_node_def)

lemma document_field_list:
  assumes "jn_type (jd_nodes d ! i) = JT_object" "\<forall>kj \<in> set (member_list d i). snd kj < length (jd_nodes d)"
  shows "document_field d (Some i) k = map_of (member_list d i) k"
proof (cases "List.find (\<lambda>m. jm_parent m = i \<and> jm_key m = k) (jd_members d)")
  case None
  then show ?thesis using assms(1) find_member [of i k "jd_members d"]
    by (simp add: document_field_def member_list_def)
next
  case (Some m)
  then have "map_of (member_list d i) k = Some (jm_value m)"
    using find_member [of i k "jd_members d"] by (simp add: member_list_def)
  moreover from this have "jm_value m < length (jd_nodes d)" using assms(2) by (force dest: map_of_SomeD)
  ultimately show ?thesis using assms(1) Some by (simp add: document_field_def jd_node_def)
qed

lemma jrep_below: "jrep d lo hi i v \<Longrightarrow> i < length (jd_nodes d)"
  by (subst (asm) jrep.simps) simp

lemma elements_text_values: "elements_text G vs u \<Longrightarrow> v \<in> set vs \<Longrightarrow> \<exists>t. G v t"
  by (induction rule: elements_text.induct) auto

lemma members_text_values: "members_text G kvs u \<Longrightarrow> kv \<in> set kvs \<Longrightarrow> \<exists>t. G (snd kv) t"
  by (induction rule: members_text.induct) auto

lemma array_denotes:
  assumes rep: "jrep d lo hi i (J_array vs)"
    and IH: "\<And>j v. v \<in> set vs \<Longrightarrow> jrep d lo hi j v \<Longrightarrow> denotes d j v"
  shows "denotes d i (J_array vs)"
proof -
  let ?js = "element_list d i"
  have r: "i < length (jd_nodes d)" "jn_type (jd_nodes d ! i) = JT_array" "length ?js = length vs"
    "\<forall>(j, v) \<in> set (zip ?js vs). jrep d lo hi j v"
    using rep jrep.simps [of d lo hi i "J_array vs"] by auto
  have each: "jrep d lo hi (?js ! n) (vs ! n)" if "n < length vs" for n
    using r(3,4) that by (force simp: set_zip)
  then have "\<forall>j \<in> set ?js. j < length (jd_nodes d)" using r(3) jrep_below by (metis in_set_conv_nth)
  note el = document_element_list [OF r(2) this]
  have "denotes d (the (document_element d (Some i) n)) v" if "(n, v) \<in> set (enumerate 0 vs)" for n v
    using IH [of v "?js ! n"] each [of n] that r(3) by (auto simp: in_set_enumerate_eq el(1))
  then show ?thesis using r(1,2,3) by (subst denotes.simps) (auto simp: el)
qed

lemma object_denotes:
  assumes rep: "jrep d lo hi i (J_object kvs)" and keys: "distinct (map fst kvs)"
    and IH: "\<And>j kv. kv \<in> set kvs \<Longrightarrow> jrep d lo hi j (snd kv) \<Longrightarrow> denotes d j (snd kv)"
  shows "denotes d i (J_object kvs)"
proof -
  let ?js = "member_list d i"
  have r: "i < length (jd_nodes d)" "jn_type (jd_nodes d ! i) = JT_object" "map fst ?js = map fst kvs"
    "\<forall>(j, kv) \<in> set (zip ?js kvs). jrep d lo hi (snd j) (snd kv)"
    using rep jrep.simps [of d lo hi i "J_object kvs"] by auto
  have len: "length ?js = length kvs" using r(3) by (rule map_eq_imp_length_eq)
  have each: "jrep d lo hi (snd (?js ! n)) (snd (kvs ! n))" if "n < length kvs" for n
    using bspec [OF r(4), of "(?js ! n, kvs ! n)"] len that by (auto simp: set_zip)
  then have "\<forall>kj \<in> set ?js. snd kj < length (jd_nodes d)" using len jrep_below by (metis in_set_conv_nth)
  note field = document_field_list [OF r(2) this]
  have "denotes d (the (document_field d (Some i) (fst kv))) (snd kv)" if kv: "kv \<in> set kvs" for kv
  proof -
    obtain n where n: "n < length kvs" "kv = kvs ! n" using kv by (auto simp: in_set_conv_nth)
    have "fst (?js ! n) = fst kv" using r(3) n len by (metis nth_map)
    then have "map_of ?js (fst kv) = Some (snd (?js ! n))"
      using keys r(3) n len by (metis map_of_is_SomeI nth_mem prod.collapse)
    then show ?thesis using IH [OF kv] each [OF n(1)] n(2) by (simp add: field)
  qed
  moreover have "fst ` set ?js = fst ` set kvs" using r(3) by (metis set_map)
  ultimately show ?thesis using r(1,2) by (subst denotes.simps) (auto simp: field map_of_eq_None_iff)
qed

lemma json_denotes: "json_text levels v t \<Longrightarrow> jrep d lo hi i v \<Longrightarrow> denotes d i v"
proof (induction levels arbitrary: v t i)
  case (Suc levels)
  show ?case
  proof (cases v)
    case (J_array vs)
    have "\<exists>t. json_text levels x t" if "x \<in> set vs" for x
      using Suc.prems(1) J_array that by (auto dest: elements_text_values)
    then show ?thesis using array_denotes Suc.IH Suc.prems(2) unfolding J_array by blast
  next
    case (J_object kvs)
    have "\<exists>t. json_text levels (snd x) t" if "x \<in> set kvs" for x
      using Suc.prems(1) J_object that by (auto dest: members_text_values)
    moreover have "distinct (map fst kvs)" using Suc.prems(1) J_object by simp
    ultimately show ?thesis using object_denotes Suc.IH Suc.prems(2) unfolding J_object by blast
  qed (use Suc.prems(2) jrep.simps [of d lo hi i v] denotes.simps [of d i v] in auto)
qed simp


text \<open>The tables never outgrow their bounds.\<close>

abbreviation within_tables :: "JsonDocument \<Rightarrow> bool" where
  "within_tables d \<equiv> fits d 0 0 0"

definition value_bounded :: "value_parser \<Rightarrow> bool" where
  "value_bounded parse \<longleftrightarrow> (\<forall>d i d'. within_tables d \<longrightarrow> parse d = Some (i, d') \<longrightarrow> within_tables d')"

lemma append_bounded:
  "within_tables d \<Longrightarrow> append_node ty d = Some (i, d') \<Longrightarrow> within_tables d'"
  "within_tables d \<Longrightarrow> append_member p k i d = Some d' \<Longrightarrow> within_tables d'"
  "within_tables d \<Longrightarrow> append_element p i d = Some d' \<Longrightarrow> within_tables d'"
  by (auto simp: fits_def append_node_def append_member_def append_element_def split: if_splits)

lemma set_node_bounded [simp]: "within_tables (set_node i f d) = within_tables d"
  by (simp add: fits_def set_node_def)

lemma parse_leaf_bounded:
  "within_tables d \<Longrightarrow> parse_string d = Some (k, d') \<Longrightarrow> within_tables d'"
  "within_tables d \<Longrightarrow> parse_number d = Some (v, d') \<Longrightarrow> within_tables d'"
  by (auto simp: parse_string_exact parse_number_exact Let_def)

lemma array_loop_bounded:
  "value_bounded parse \<Longrightarrow> within_tables d \<Longrightarrow> array_loop parse p fuel d = Some d' \<Longrightarrow> within_tables d'"
proof (induction fuel arbitrary: d)
  case (Suc fuel)
  from Suc.prems(3) obtain i d1 d2 where d1: "parse d = Some (i, d1)" "append_element p i d1 = Some d2"
    and rest: "d' = advance 1 (skip_space d2) \<or> array_loop parse p fuel (skip_space (advance 1 (skip_space d2))) = Some d'"
    by (auto simp: bind_eq_Some_conv Let_def split: if_splits)
  have "within_tables d1" using Suc.prems(1,2) d1(1) unfolding value_bounded_def by blast
  from append_bounded(3) [OF this d1(2)]
  have "within_tables (skip_space (advance 1 (skip_space d2)))" "within_tables (advance 1 (skip_space d2))" by simp_all
  with rest Suc.IH [OF Suc.prems(1)] show ?case by blast
qed simp

lemma object_loop_bounded:
  "value_bounded parse \<Longrightarrow> within_tables d \<Longrightarrow> object_loop parse p fuel d = Some d' \<Longrightarrow> within_tables d'"
proof (induction fuel arbitrary: d)
  case (Suc fuel)
  from Suc.prems(3) obtain k d0 i d1 d2 where d1: "parse_string d = Some (k, d0)"
      "parse (skip_space (advance 1 (skip_space d0))) = Some (i, d1)" "append_member p k i d1 = Some d2"
    and rest: "d' = advance 1 (skip_space d2) \<or> object_loop parse p fuel (skip_space (advance 1 (skip_space d2))) = Some d'"
    by (auto simp: bind_eq_Some_conv Let_def split: if_splits)
  have "within_tables (skip_space (advance 1 (skip_space d0)))" using parse_leaf_bounded(1) [OF Suc.prems(2) d1(1)] by simp
  then have "within_tables d1" using Suc.prems(1) d1(2) unfolding value_bounded_def by blast
  from append_bounded(2) [OF this d1(3)]
  have "within_tables (skip_space (advance 1 (skip_space d2)))" "within_tables (advance 1 (skip_space d2))" by simp_all
  with rest Suc.IH [OF Suc.prems(1)] show ?case by blast
qed simp

lemma parse_object_bounded:
  assumes "value_bounded parse" "within_tables d" "parse_object parse p d = Some d'"
  shows "within_tables d'"
proof (cases "jd_peek (skip_space (advance 1 d)) = Some (CHR ''}'')")
  case True
  then have "d' = advance 1 (skip_space (advance 1 d))" using assms(3) by (simp add: parse_object_def)
  then show ?thesis using assms(2) by simp
next
  case False
  have "within_tables (skip_space (advance 1 d))" using assms(2) by simp
  moreover have "object_loop parse p (length (jd_storage (skip_space (advance 1 d)))) (skip_space (advance 1 d)) = Some d'"
    using False assms(3) unfolding parse_object_def Let_def by presburger
  ultimately show ?thesis by (rule object_loop_bounded [OF assms(1)])
qed

lemma parse_array_bounded:
  assumes "value_bounded parse" "within_tables d" "parse_array parse p d = Some d'"
  shows "within_tables d'"
proof (cases "jd_peek (skip_space (advance 1 d)) = Some (CHR '']'')")
  case True
  then have "d' = advance 1 (skip_space (advance 1 d))" using assms(3) by (simp add: parse_array_def)
  then show ?thesis using assms(2) by simp
next
  case False
  have "within_tables (skip_space (advance 1 d))" using assms(2) by simp
  moreover have "array_loop parse p (length (jd_storage (skip_space (advance 1 d)))) (skip_space (advance 1 d)) = Some d'"
    using False assms(3) unfolding parse_array_def Let_def by presburger
  ultimately show ?thesis by (rule array_loop_bounded [OF assms(1)])
qed

lemma value_branch_bounded:
  assumes parse: "value_bounded parse" and d: "within_tables d" and run: "value_branch parse d = Some (i, d1)"
  shows "within_tables d1"
proof -
  note node = append_bounded(1) [OF d]
  consider "jd_peek d = Some (CHR 0x22)" | "jd_peek d = Some (CHR ''{'')" | "jd_peek d = Some (CHR ''['')"
    | "jd_peek d \<notin> {Some (CHR 0x22), Some (CHR ''{''), Some (CHR ''['')}" by blast
  then show ?thesis
  proof cases
    case 1
    then show ?thesis using run
      by (auto simp: value_branch_def bind_eq_Some_conv dest!: node dest: parse_leaf_bounded(1) [rotated])
  next
    case 2
    then obtain j da where "append_node JT_object d = Some (j, da)" "parse_object parse j da = Some d1"
      using run by (auto simp: value_branch_def bind_eq_Some_conv)
    then show ?thesis using parse_object_bounded [OF parse] node by blast
  next
    case 3
    then obtain j da where "append_node JT_array d = Some (j, da)" "parse_array parse j da = Some d1"
      using run by (auto simp: value_branch_def bind_eq_Some_conv)
    then show ?thesis using parse_array_bounded [OF parse] node by blast
  next
    case 4
    then show ?thesis using run
      by (auto simp: value_branch_def bind_eq_Some_conv set_node_advance split: if_splits
          dest!: node dest: parse_leaf_bounded(2) [rotated])
  qed
qed

lemma parse_value_bounded: "value_bounded (parse_value levels)"
proof (induction levels)
  case (Suc levels)
  have "within_tables d1" if "within_tables d" "value_branch (parse_value levels) (skip_space d) = Some (i, d1)" for d i d1
    using value_branch_bounded [OF Suc.IH _ that(2)] that(1) by simp
  then show ?case unfolding value_bounded_def parse_value_branch Let_def
    by (auto simp: bind_eq_Some_conv split: if_splits)
qed (simp add: value_bounded_def)

text \<open>The texts that are read whole.\<close>

definition document_text :: "json \<Rightarrow> string \<Rightarrow> string \<Rightarrow> bool" where
  "document_text v t txt \<longleftrightarrow> json_text 65 v t \<and> (\<exists>w w'. ws w \<and> ws w' \<and> txt = w @ t @ w')"

abbreviation json_fits :: "json \<Rightarrow> bool" where
  "json_fits v \<equiv> nodes_of v \<le> maximum_json_nodes \<and> members_of v \<le> maximum_json_members \<and> elements_of v \<le> maximum_json_elements"

definition opened :: "string \<Rightarrow> JsonDocument" where
  "opened txt = \<lparr>jd_storage = txt, jd_nodes = [], jd_members = [], jd_elements = [], jd_cursor = 0, jd_root = 0\<rparr>"

lemma opened_simps [simp]: "jd_rest (opened txt) = txt" "closed (opened txt)" "jd_nodes (opened txt) = []"
  "jd_members (opened txt) = []" "jd_elements (opened txt) = []" "jd_storage (opened txt) = txt"
  by (simp_all add: opened_def jd_rest_def closed_def)

lemma document_sound:
  assumes "document_of txt = Some d"
  obtains v t where "document_text v t txt" "json_fits v" "document_root d = Some 0" "denotes d 0 v"
    "jn_raw (jd_nodes d ! 0) = t"
proof -
  from assms obtain i d1 where d1: "parse_value 65 (opened txt) = Some (i, d1)"
      "jd_cursor (skip_space d1) = length (jd_storage (skip_space d1))" "d = (skip_space d1)\<lparr>jd_root := i\<rparr>"
    by (auto simp: document_of_def opened_def bind_eq_Some_conv Let_def split: if_splits)
  have "closed (opened txt)" by simp
  with parse_value_sound [of 65] d1(1) have "\<exists>w t v. ws w \<and> json_text 65 v t \<and> reads (opened txt) (w @ t) d1 \<and> i = 0 \<and>
     takes (opened txt) d1 (nodes_of v) (members_of v) (elements_of v) \<and>
     jrep d1 0 (length (jd_nodes d1)) i v \<and> jn_raw (jd_nodes d1 ! i) = t"
    unfolding value_sound_def by fastforce
  then obtain w t v where v: "ws w" "json_text 65 v t" "reads (opened txt) (w @ t) d1" "i = 0"
     "takes (opened txt) d1 (nodes_of v) (members_of v) (elements_of v)"
     "jrep d1 0 (length (jd_nodes d1)) i v" "jn_raw (jd_nodes d1 ! i) = t" by blast
  have "jd_rest (skip_space d1) = []" using d1(2) by (simp only: jd_rest_def) simp
  then have "ws (jd_rest d1)" by (auto simp: list_all_iff dropWhile_eq_Nil_conv)
  moreover have "txt = (w @ t) @ jd_rest d1" using v(3) by (auto simp: reads_def)
  ultimately have doc: "document_text v t txt" using v(1,2) by (auto simp: document_text_def)
  have "within_tables (opened txt)" by (simp add: fits_def)
  then have "within_tables d1" using parse_value_bounded [of 65] d1(1) unfolding value_bounded_def by blast
  then have fit: "json_fits v" using v(5) by (simp add: takes_def fits_def)
  have rep: "jrep d 0 (length (jd_nodes d)) 0 v"
    using v(4,6) by (intro jrep_agree [OF v(6) [unfolded v(4)]]) (simp_all add: d1(3) member_list_def element_list_def)
  show thesis
  proof (rule that [OF doc fit])
    show "document_root d = Some 0" using jrep_below [OF rep] v(4) d1(3) by (simp add: document_root_def jd_node_def)
    show "denotes d 0 v" by (rule json_denotes [OF v(2) rep])
    show "jn_raw (jd_nodes d ! 0) = t" using v(4,7) d1(3) by simp
  qed
qed

lemma document_complete:
  assumes "document_text v t txt" "json_fits v"
  shows "\<exists>d. document_of txt = Some d"
proof -
  obtain w w' where w: "ws w" "ws w'" "txt = w @ t @ w'" "json_text 65 v t" using assms(1) by (auto simp: document_text_def)
  have "ends w'" using w(2) by (cases w') (auto simp: ends_def is_space_def is_digit_def)
  moreover have "fits (opened txt) (nodes_of v) (members_of v) (elements_of v)" using assms(2) by (simp add: fits_def)
  ultimately obtain i d where d: "parse_value 65 (opened txt) = Some (i, d)" "jd_rest d = w'"
    using parse_value_complete [of 65] w opened_simps(1,2) [of "txt"] unfolding value_complete_def by metis
  have "\<exists>s. reads (opened txt) s d" using parse_value_sound [of 65] d(1) opened_simps(2) [of "txt"]
    unfolding value_sound_def by blast
  then have "jd_cursor d \<le> length (jd_storage d)"
    using opened_simps(1,6) [of "txt"] by (auto simp: reads_def opened_def)
  have tw: "takeWhile is_space w' = w'" using w(2) by (simp add: takeWhile_eq_all_conv list_all_iff)
  have len: "jd_cursor d + length w' = length (jd_storage d)" using d(2) \<open>jd_cursor d \<le> length (jd_storage d)\<close> by (auto simp: jd_rest_def)
  have end_d: "jd_cursor (skip_space d) = length (jd_storage (skip_space d))"
    using len by (simp add: skip_space_def d(2) tw)
  have "t \<noteq> []" using heads_json [of 65] w(4) unfolding heads_def by blast
  then show ?thesis using d(1) w(3) end_d by (auto simp: document_of_def opened_def Let_def)
qed


section \<open>Properties\<close>

text \<open>
  C29: a text becomes a document exactly when, but for space around it, it is a text of the reference
  grammar with at most 65 levels, and its value takes at most 8192 nodes, 1024 members and 8192 elements.
  The loops of the parser thus always have enough fuel.
\<close>
theorem document_accepts_exactly:
  "(\<exists>d. document_of txt = Some d) \<longleftrightarrow> (\<exists>v t. document_text v t txt \<and> json_fits v)"
  using document_sound [of "txt"] document_complete [of _ _ "txt"] by metis

text \<open>
  C30: the document of a text shows, through its lookups, a value of that text, for every node below the
  root: types, numbers and strings, the count and order of the elements, and the member of each key and
  of no other. The raw text of the root is the text without the space around it.
\<close>
theorem document_shows_value:
  assumes "document_of txt = Some d"
  shows "\<exists>v t. document_text v t txt \<and> document_root d = Some 0 \<and> denotes d 0 v \<and> jn_raw (jd_nodes d ! 0) = t"
  using document_sound [OF assms] by metis

theorem document_shows_value_witness:
  "\<exists>d. document_of ''[1, {}]'' = Some d \<and>
     (\<exists>v t. document_text v t ''[1, {}]'' \<and> document_root d = Some 0 \<and> denotes d 0 v \<and> jn_raw (jd_nodes d ! 0) = t)"
proof -
  note levels = json_text.simps(2) [of "pred_numeral k" for k, folded numeral_eq_Suc]
  have "elements_text (json_text 64) [J_number 1, J_object []] ([] @ ''1'' @ [] @ CHR '','' # '' '' @ ''{}'' @ [])"
    by (intro elements_more elements_last)
      (simp_all add: levels number_text_def is_digit_def is_space_def decimal_value_simps)
  then have "document_text (J_array [J_number 1, J_object []]) ''[1, {}]'' ''[1, {}]''"
    by (intro document_text_def [THEN iffD2] conjI exI [of _ "[]"]; simp add: levels)
  from document_complete [OF this] obtain d where d: "document_of ''[1, {}]'' = Some d"
    by (auto simp: maximum_json_nodes_def maximum_json_members_def maximum_json_elements_def)
  with document_shows_value [OF d] show ?thesis by blast
qed

end
