(* ===== verification/Bench_Files.thy ===== *)
theory Bench_Files
  imports Bench_Json
begin

text \<open>
  Reading files in \<open>bench/evaluator.cpp\<close>: \<open>read_file\<close> with its bound and \<open>JsonDocument::load\<close> on top of it. The
  system calls are parameters. The lemmas show that a file below the bound is read whole, however the
  system divides it and however often it interrupts, and that a longer file is refused.
\<close>

section \<open>Definitions\<close>

definition maximum_document_bytes :: nat where "maximum_document_bytes = 262144"

definition EINTR :: int where "EINTR = 4"

text \<open>
  The answer of \<open>read\<close>: the bytes it stored, none of them at the end of the file, or an error number. A
  descriptor that \<open>open\<close> cannot provide is negative.
\<close>

datatype read_answer = Read_Bytes string | Read_Error int

record 'w file_calls =
  fc_open :: "string \<Rightarrow> 'w \<Rightarrow> int \<times> 'w"
  fc_read :: "int \<Rightarrow> nat \<Rightarrow> 'w \<Rightarrow> read_answer \<times> 'w"
  fc_close :: "int \<Rightarrow> 'w \<Rightarrow> 'w"

text \<open>The loop: whether it was complete, the bytes read, and the system. It runs on while it is interrupted.\<close>

partial_function (option) read_loop ::
    "'w file_calls \<Rightarrow> nat \<Rightarrow> int \<Rightarrow> string \<Rightarrow> 'w \<Rightarrow> (bool \<times> string \<times> 'w) option" where
  "read_loop calls capacity descriptor output w =
     (if length output < capacity
      then case fc_read calls descriptor (capacity - length output) w of (answer, w) \<Rightarrow>
        (case answer of
           Read_Bytes bytes \<Rightarrow>
             if bytes \<noteq> [] then read_loop calls capacity descriptor (output @ bytes) w
             else Some (True, output, w)
         | Read_Error errno \<Rightarrow>
             if errno \<noteq> EINTR then Some (False, output, w)
             else read_loop calls capacity descriptor output w)
      else Some (True, output, w))"

definition read_file ::
    "'w file_calls \<Rightarrow> nat \<Rightarrow> string \<Rightarrow> 'w \<Rightarrow> (bool \<times> string \<times> 'w) option" where
  "read_file calls capacity path w =
     (case fc_open calls path w of (descriptor, w) \<Rightarrow>
        if descriptor < 0 then Some (False, [], w)
        else case read_loop calls capacity descriptor [] w of
          None \<Rightarrow> None
        | Some (complete, output, w) \<Rightarrow>
            (let (complete, w) =
                   (if length output = capacity
                    then case fc_read calls descriptor 1 w of (answer, w) \<Rightarrow>
                           (if answer \<noteq> Read_Bytes [] then False else complete, w)
                    else (complete, w))
             in Some (complete, output, fc_close calls descriptor w)))"

text \<open>Loading a document: the document, if the file is read and accepted, and the system.\<close>

definition document_load :: "'w file_calls \<Rightarrow> string \<Rightarrow> 'w \<Rightarrow> (JsonDocument option \<times> 'w) option" where
  "document_load calls path w =
     (case read_file calls maximum_document_bytes path w of
        None \<Rightarrow> None
      | Some (complete, output, w) \<Rightarrow> Some (if \<not> complete then None else document_of output, w))"

section \<open>Reading a file\<close>

text \<open>
  What the code relies on: an open file has bytes left to read; a read stores some of them, at most as many as
  asked for and none only at the end, or is interrupted, which happens finitely often.
\<close>

definition reads_file :: "'w file_calls \<Rightarrow> int \<Rightarrow> ('w \<Rightarrow> string) \<Rightarrow> ('w \<Rightarrow> nat) \<Rightarrow> bool" where
  "reads_file calls descriptor remaining interrupts \<longleftrightarrow> (\<forall>n w. 0 < n \<longrightarrow>
     (case fc_read calls descriptor n w of (answer, w') \<Rightarrow>
        (case answer of
           Read_Bytes bytes \<Rightarrow> length bytes \<le> n \<and> remaining w = bytes @ remaining w' \<and>
             (bytes = [] \<longrightarrow> remaining w = []) \<and> interrupts w' \<le> interrupts w
         | Read_Error errno \<Rightarrow> errno = EINTR \<and> remaining w' = remaining w \<and> interrupts w' < interrupts w)))"

lemma reads_file_cases:
  assumes "reads_file calls descriptor remaining interrupts" "0 < n"
  obtains (bytes) bytes w' where "fc_read calls descriptor n w = (Read_Bytes bytes, w')" "length bytes \<le> n"
      "remaining w = bytes @ remaining w'" "bytes = [] \<Longrightarrow> remaining w = []" "interrupts w' \<le> interrupts w"
  | (interrupt) w' where "fc_read calls descriptor n w = (Read_Error EINTR, w')" "remaining w' = remaining w"
      "interrupts w' < interrupts w"
proof (cases "fc_read calls descriptor n w")
  case (Pair answer w')
  have "case answer of
      Read_Bytes bytes \<Rightarrow> length bytes \<le> n \<and> remaining w = bytes @ remaining w' \<and>
        (bytes = [] \<longrightarrow> remaining w = []) \<and> interrupts w' \<le> interrupts w
    | Read_Error errno \<Rightarrow> errno = EINTR \<and> remaining w' = remaining w \<and> interrupts w' < interrupts w"
    using assms(1) [unfolded reads_file_def, THEN spec, of n, THEN spec, of w] assms(2) by (simp add: Pair)
  then show thesis using bytes interrupt by (cases answer) (auto simp: Pair)
qed

lemma read_loop_reads:
  assumes fs: "reads_file calls descriptor remaining interrupts"
  shows "length out \<le> capacity \<Longrightarrow> \<exists>w'. read_loop calls capacity descriptor out w =
      Some (True, out @ take (capacity - length out) (remaining w), w') \<and>
      remaining w' = drop (capacity - length out) (remaining w)"
proof (induction "length (remaining w) + interrupts w" arbitrary: out w rule: less_induct)
  case less
  note step = read_loop.simps [of calls capacity descriptor out w]
  show ?case
  proof (cases "length out < capacity")
    case False
    then show ?thesis using less.prems by (simp add: step)
  next
    case True
    then have "0 < capacity - length out" by simp
    from fs this show ?thesis
    proof (cases rule: reads_file_cases [where w = w])
      case (bytes bytes w')
      show ?thesis
      proof (cases "bytes = []")
        case empty: True
        then show ?thesis using True bytes by (simp add: step)
      next
        case False
        have "0 < length bytes" using False by simp
        then have "length (remaining w') + interrupts w' < length (remaining w) + interrupts w"
          unfolding bytes(3) length_append using bytes(5) by linarith
        moreover have "length (out @ bytes) \<le> capacity" using bytes(2) True by simp
        ultimately show ?thesis using less.hyps [of w' "out @ bytes"] False True bytes by (simp add: step)
      qed
    next
      case (interrupt w')
      have "length (remaining w') + interrupts w' < length (remaining w) + interrupts w" using interrupt by simp
      from less.hyps [OF this less.prems] show ?thesis using True interrupt by (simp add: step)
    qed
  qed
qed

text \<open>A file of fewer bytes than the bound is read whole and one of more bytes is refused.\<close>

theorem read_file_bounded:
  assumes "fc_open calls path w = (descriptor, w1)" "0 \<le> descriptor" "0 < capacity"
    and fs: "reads_file calls descriptor remaining interrupts"
  shows "\<exists>complete w'. read_file calls capacity path w = Some (complete, take capacity (remaining w1), w') \<and>
    (length (remaining w1) < capacity \<longrightarrow> complete) \<and> (capacity < length (remaining w1) \<longrightarrow> \<not> complete)"
proof -
  obtain w2 where w2: "read_loop calls capacity descriptor [] w1 = Some (True, take capacity (remaining w1), w2)"
    "remaining w2 = drop capacity (remaining w1)" using read_loop_reads [OF fs, of "[]" capacity w1] by auto
  show ?thesis
  proof (cases "length (remaining w1) < capacity")
    case True
    then show ?thesis using w2 assms(1,2) by (auto simp: read_file_def)
  next
    case False
    then have full: "length (take capacity (remaining w1)) = capacity" by simp
    obtain answer w3 where r: "fc_read calls descriptor 1 w2 = (answer, w3)" by (metis prod.exhaust)
    have "answer \<noteq> Read_Bytes []" if "capacity < length (remaining w1)"
      using that r w2(2) by (cases rule: reads_file_cases [OF fs, of 1 w2]) auto
    then show ?thesis using w2(1) assms(1,2) False r unfolding read_file_def by (simp add: full)
  qed
qed

corollary document_load_bounded:
  assumes "fc_open calls path w = (descriptor, w1)" "0 \<le> descriptor"
    and "reads_file calls descriptor remaining interrupts"
  shows "\<exists>result w'. document_load calls path w = Some (result, w') \<and>
    (length (remaining w1) < maximum_document_bytes \<longrightarrow> result = document_of (remaining w1)) \<and>
    (maximum_document_bytes < length (remaining w1) \<longrightarrow> result = None)"
proof -
  have "0 < maximum_document_bytes" by (simp add: maximum_document_bytes_def)
  from read_file_bounded [OF assms(1,2) this assms(3)] show ?thesis by (auto simp: document_load_def)
qed

end
