(* ===== verification/Bench_Statistics.thy ===== *)
theory Bench_Statistics
  imports Bench_Json
begin

text \<open>
  The arithmetic of \<open>bench/evaluator.cpp\<close>: percentages in parts per million, the pseudo random
  numbers and the resampled means and maxima, the relative regression by long division, and the
  bootstrap interval. Unsigned integers are words and the signed results are integers in the range
  of 64 bits; an array of samples is the list of all its places, and a count is a natural number.
  The lemmas show that the division is exact, that the parser of percentages reads exactly its
  grammar, and that the interval lies between the extreme regressions of the samples.
\<close>

unbundle bit_operations_syntax

section \<open>Definitions\<close>

definition maximum_samples :: nat where "maximum_samples = 1000"
definition bootstrap_resamples :: nat where "bootstrap_resamples = 10000"
definition percent_ppm :: u64 where "percent_ppm = 10000"
definition fixed_seed :: u64 where "fixed_seed = 0x6c616768755f3832"

datatype MetricId = M_latency | M_throughput | M_cpu_time | M_peak_rss | M_allocation | M_laghu_syscall
  | M_count | M_invalid

record MetricSeries =
  ms_values :: "u64 list"
  ms_count :: nat
  ms_available :: bool
  ms_reason :: string

text \<open>The value of a digit.\<close>

abbreviation digit_value :: "char \<Rightarrow> u64" where
  "digit_value c \<equiv> of_nat (of_char c - 48)"

fun percent_whole :: "string \<Rightarrow> u64 \<Rightarrow> (u64 \<times> string) option" where
  "percent_whole [] whole = Some (whole, [])"
| "percent_whole (c # cs) whole =
     (if is_digit c then
        (if whole > (umax - 9) div 10 then None
         else percent_whole cs (whole * 10 + digit_value c))
      else Some (whole, c # cs))"

fun percent_fraction :: "string \<Rightarrow> u64 \<Rightarrow> nat \<Rightarrow> u64 \<times> nat \<times> string" where
  "percent_fraction [] fraction fraction_digits = (fraction, fraction_digits, [])"
| "percent_fraction (c # cs) fraction fraction_digits =
     (if is_digit c \<and> fraction_digits < 4
      then percent_fraction cs (fraction * 10 + digit_value c) (fraction_digits + 1)
      else (fraction, fraction_digits, c # cs))"

function pad_fraction :: "u64 \<Rightarrow> nat \<Rightarrow> u64" where
  "pad_fraction fraction fraction_digits =
     (if fraction_digits < 4 then pad_fraction (fraction * 10) (fraction_digits + 1) else fraction)"
  by pat_completeness auto
termination
  by (relation "measure (\<lambda>(_, n). 4 - n)") auto

declare pad_fraction.simps [simp del]

text \<open>The digits behind the point, as one function of the text that follows the whole number.\<close>

definition percent_tail :: "string \<Rightarrow> (u64 \<times> nat) option" where
  "percent_tail rest =
     (case rest of
        [] \<Rightarrow> Some (0, 0)
      | c # cs \<Rightarrow>
          if c \<noteq> CHR ''.'' then None
          else let (fraction, fraction_digits, rest) = percent_fraction cs 0 0 in
            if fraction_digits = 0 \<or> rest \<noteq> [] then None else Some (fraction, fraction_digits))"

definition parse_percent_ppm :: "string \<Rightarrow> u64 option" where
  "parse_percent_ppm input =
     (if input = [] then None
      else do {
        (whole, rest) \<leftarrow> percent_whole input 0;
        if rest = input then None
        else do {
          (fraction, fraction_digits) \<leftarrow> percent_tail rest;
          let fraction = pad_fraction fraction fraction_digits in
          if whole > (umax - fraction) div percent_ppm then None
          else Some (whole * percent_ppm + fraction) } })"

text \<open>The random number and the next state.\<close>

definition next_random :: "u64 \<Rightarrow> u64 \<times> u64" where
  "next_random state =
     (let state = state XOR drop_bit 12 state;
          state = state XOR push_bit 25 state;
          state = state XOR drop_bit 27 state
      in (state * 2685821657736338717, state))"

primrec mean_loop :: "u64 list \<Rightarrow> nat \<Rightarrow> nat \<Rightarrow> u64 \<Rightarrow> u64 \<Rightarrow> (u64 \<times> u64) option" where
  "mean_loop samples count 0 state tot = Some (tot, state)"
| "mean_loop samples count (Suc n) state tot =
     (let (random, state) = next_random state;
          v = samples ! (unat random mod count)
      in if v > umax - tot then None else mean_loop samples count n state (tot + v))"

definition sample_mean :: "u64 list \<Rightarrow> nat \<Rightarrow> u64 \<Rightarrow> (u64 \<times> u64) option" where
  "sample_mean samples count state =
     (if count = 0 \<or> count > length samples then None
      else map_option (\<lambda>(tot, state). (tot div of_nat count, state)) (mean_loop samples count count state 0))"

primrec max_loop :: "u64 list \<Rightarrow> nat \<Rightarrow> nat \<Rightarrow> u64 \<Rightarrow> u64 \<Rightarrow> u64 \<times> u64" where
  "max_loop samples count 0 state largest = (largest, state)"
| "max_loop samples count (Suc n) state largest =
     (let (random, state) = next_random state;
          v = samples ! (unat random mod count)
      in max_loop samples count n state (if v > largest then v else largest))"

definition sample_max :: "u64 list \<Rightarrow> nat \<Rightarrow> u64 \<Rightarrow> (u64 \<times> u64) option" where
  "sample_max samples count state =
     (if count = 0 \<or> count > length samples then None else Some (max_loop samples count count state 0))"

definition unbounded_regression_ppm :: int where "unbounded_regression_ppm = 2 ^ 63 - 1"
definition unbounded_improvement_ppm :: int where "unbounded_improvement_ppm = - (2 ^ 63)"

text \<open>
  The long division of \<open>regression_ppm\<close>, the fraction of a million bit by bit: one step doubles the remainder and
  adds the fraction for a bit of the million, and carries what exceeds the baseline.
\<close>

definition regression_step :: "u64 \<Rightarrow> u64 \<Rightarrow> u64 \<Rightarrow> u64 \<Rightarrow> u64 \<times> u64" where
  "regression_step baseline fraction_source b remainder =
     (let (remainder, carry) =
            (if remainder \<ge> baseline - remainder then (remainder - (baseline - remainder), 1)
             else (remainder + remainder, 0))
      in if b AND 1000000 \<noteq> 0 then
           (if remainder \<ge> baseline - fraction_source
            then (remainder - (baseline - fraction_source), carry + 1)
            else (remainder + fraction_source, carry))
         else (remainder, carry))"

function regression_loop :: "u64 \<Rightarrow> u64 \<Rightarrow> u64 \<Rightarrow> u64 \<Rightarrow> u64 \<Rightarrow> u64 option" where
  "regression_loop baseline fraction_source b remainder fractional =
     (if b = 0 then Some fractional
      else
        let (remainder, carry) = regression_step baseline fraction_source b remainder
        in if fractional > (umax - carry) div 2 then None
           else regression_loop baseline fraction_source (drop_bit 1 b) remainder (fractional * 2 + carry))"
  by pat_completeness auto
termination
  by (relation "measure (\<lambda>(_, _, b, _, _). unat b)") (auto simp: drop_bit_eq_div unat_div unat_gt_0)

declare regression_loop.simps [simp del]

text \<open>\<open>None\<close> is the arithmetic overflow.\<close>

definition regression_ppm :: "u64 \<Rightarrow> u64 \<Rightarrow> bool \<Rightarrow> int option" where
  "regression_ppm baseline candidate higher_is_better =
     (if baseline = 0 then
        (if candidate = 0 then Some 0
         else Some (if higher_is_better then unbounded_improvement_ppm else unbounded_regression_ppm))
      else
        let candidate_is_regression = (if higher_is_better then candidate < baseline else candidate > baseline);
            difference = (if candidate \<ge> baseline then candidate - baseline else baseline - candidate);
            whole = difference div baseline;
            fraction_source = difference mod baseline
        in do {
          fractional \<leftarrow> regression_loop baseline fraction_source (push_bit 19 1) 0 0;
          if whole > (of_int unbounded_regression_ppm - fractional) div 1000000 then None
          else
            let magnitude = whole * 1000000 + fractional in
            Some (if candidate_is_regression then sint magnitude else - sint magnitude) })"

record Interval =
  iv_lower :: int
  iv_upper :: int

datatype BootstrapResult = BR_success Interval | BR_invalid_samples | BR_zero_baseline_undefined | BR_arithmetic_overflow

definition uses_maximum :: "MetricId \<Rightarrow> bool" where
  "uses_maximum metric \<longleftrightarrow> metric = M_peak_rss"

definition has_nonzero_sample :: "MetricSeries \<Rightarrow> bool" where
  "has_nonzero_sample series \<longleftrightarrow> list_ex (\<lambda>v. v \<noteq> 0) (take (ms_count series) (ms_values series))"

definition resample :: "MetricId \<Rightarrow> MetricSeries \<Rightarrow> u64 \<Rightarrow> (u64 \<times> u64) option" where
  "resample metric series =
     (if uses_maximum metric then sample_max (ms_values series) (ms_count series)
      else sample_mean (ms_values series) (ms_count series))"

text \<open>The loop over the resamples; the error ends it.\<close>

primrec bootstrap_loop ::
  "MetricSeries \<Rightarrow> MetricSeries \<Rightarrow> MetricId \<Rightarrow> bool \<Rightarrow> nat \<Rightarrow> u64 \<Rightarrow> int list \<Rightarrow> BootstrapResult + int list" where
  "bootstrap_loop baseline candidate metric higher_is_better 0 state samples = Inr (rev samples)"
| "bootstrap_loop baseline candidate metric higher_is_better (Suc n) state samples =
     (case resample metric baseline state of
        None \<Rightarrow> Inl BR_invalid_samples
      | Some (baseline_mean, state) \<Rightarrow>
          (case resample metric candidate state of
             None \<Rightarrow> Inl BR_invalid_samples
           | Some (candidate_mean, state) \<Rightarrow>
               (case regression_ppm baseline_mean candidate_mean higher_is_better of
                  None \<Rightarrow> Inl BR_arithmetic_overflow
                | Some r \<Rightarrow>
                    bootstrap_loop baseline candidate metric higher_is_better n state (r # samples))))"

definition bootstrap_interval :: "MetricSeries \<Rightarrow> MetricSeries \<Rightarrow> MetricId \<Rightarrow> bool \<Rightarrow> BootstrapResult" where
  "bootstrap_interval baseline candidate metric higher_is_better =
     (if \<not> ms_available baseline \<or> \<not> ms_available candidate then BR_invalid_samples
      else if \<not> has_nonzero_sample baseline \<and> has_nonzero_sample candidate then BR_zero_baseline_undefined
      else case bootstrap_loop baseline candidate metric higher_is_better bootstrap_resamples fixed_seed [] of
        Inl e \<Rightarrow> e
      | Inr samples \<Rightarrow>
          let samples = sort samples;
              lower_index = (bootstrap_resamples * 25 + 999) div 1000 - 1;
              upper_index = (bootstrap_resamples * 975 + 999) div 1000 - 1
          in BR_success \<lparr>iv_lower = samples ! lower_index, iv_upper = samples ! upper_index\<rparr>)"


section \<open>Regressions\<close>

lemma wrap_add:
  fixes r f b :: "'a::len word"
  assumes "r < b" "f < b"
  shows "b - f \<le> r \<Longrightarrow> unat (r - (b - f)) + unat b = unat r + unat f \<and> r - (b - f) < b"
    and "\<not> b - f \<le> r \<Longrightarrow> unat (r + f) = unat r + unat f \<and> r + f < b"
proof -
  have f: "unat (b - f) = unat b - unat f" "unat f < unat b" "unat r < unat b"
    using assms by (auto simp: unat_sub word_less_nat_alt word_le_nat_alt)
  show "unat (r - (b - f)) + unat b = unat r + unat f \<and> r - (b - f) < b" if "b - f \<le> r"
    using that f by (auto simp: unat_sub word_le_nat_alt word_less_nat_alt)
  assume "\<not> b - f \<le> r"
  then have sum: "unat r + unat f < unat b" using f by (simp add: word_le_nat_alt)
  then have "unat (r + f) = unat r + unat f" using unat_bound [of b] by (intro unat_add_no_wrap) (rule less_trans)
  with sum show "unat (r + f) = unat r + unat f \<and> r + f < b" by (simp add: word_less_nat_alt)
qed

lemma regression_step_exact:
  assumes "r < b" "f < b" "regression_step b f m r = (r', c)"
  shows "unat c * unat b + unat r' = 2 * unat r + of_bool (m AND 1000000 \<noteq> 0) * unat f" "r' < b" "unat c \<le> 2"
proof -
  obtain r1 c1 where one: "(if r \<ge> b - r then (r - (b - r), 1) else (r + r, 0 :: u64)) = (r1, c1)" by (metis prod.exhaust)
  have c1: "unat c1 * unat b + unat r1 = 2 * unat r" "r1 < b" "unat c1 \<le> 1"
    using one wrap_add [OF assms(1,1)] by (auto split: if_splits)
  have run: "(if m AND 1000000 \<noteq> 0 then
       (if r1 \<ge> b - f then (r1 - (b - f), c1 + 1) else (r1 + f, c1)) else (r1, c1)) = (r', c)"
    using assms(3) unfolding regression_step_def one Let_def by simp
  have "unat (c1 + 1) = unat c1 + 1" using c1(3) by (subst unat_add_no_wrap) simp_all
  then show "unat c * unat b + unat r' = 2 * unat r + of_bool (m AND 1000000 \<noteq> 0) * unat f" "r' < b" "unat c \<le> 2"
    using run c1 wrap_add [OF c1(2) assms(2)] by (auto split: if_splits)
qed


lemma million_bit: "n < 64 \<Longrightarrow> (push_bit n 1 AND (1000000 :: u64) \<noteq> 0) = odd ((1000000 :: nat) div 2 ^ n)"
proof -
  assume n: "n < 64"
  have "(push_bit n 1 AND (1000000 :: u64) \<noteq> 0) = bit (1000000 :: u64) n"
    by (simp add: bit_iff_and_push_bit_not_eq_0 and.commute)
  also have "\<dots> = bit (unat (1000000 :: u64)) n" using n by (subst bit_unsigned_iff) simp
  also have "\<dots> = odd ((1000000 :: nat) div 2 ^ n)" by (simp add: bit_iff_odd)
  finally show ?thesis .
qed

lemma next_mask: "n < 63 \<Longrightarrow> drop_bit 1 (push_bit (Suc n) (1 :: u64)) = push_bit n 1"
  by (rule bit_eqI) (auto simp: bit_simps)

lemma halves: "(x :: nat) = 2 * (x div 2) + of_bool (odd x)"
  by (cases "even x") auto

lemma carry_over: "c * b + r' = 2 * r + d * f \<Longrightarrow> q * b + r = p * f \<Longrightarrow> (2 * q + c) * b + r' = (2 * p + d) * f"
  for b c d f p q r r' :: nat
  by (simp add: algebra_simps)

lemma regression_loop_exact:
  assumes "r < b" "f < b" "n \<le> 20" "unat q * unat b + unat r = 1000000 div 2 ^ n * unat f"
  shows "\<exists>q'. regression_loop b f (drop_bit 1 (push_bit n 1)) r q = Some q' \<and> unat q' = 1000000 * unat f div unat b"
  using assms(1,3,4)
proof (induction n arbitrary: r q)
  case 0
  have "1000000 * unat f = unat r + unat q * unat b" "unat r < unat b" using "0.prems" by (simp_all add: word_less_nat_alt)
  then have "1000000 * unat f div unat b = unat q" by simp
  then show ?case by (simp add: regression_loop.simps)
next
  case (Suc n)
  obtain r' c where step: "regression_step b f (push_bit n 1) r = (r', c)" by (metis prod.exhaust)
  note c = regression_step_exact [OF Suc.prems(1) assms(2) step]
  let ?p = "1000000 div 2 ^ Suc n :: nat"
  have "unat q * unat b \<le> ?p * unat f" using Suc.prems(3) by simp
  also have "\<dots> \<le> ?p * unat b" using assms(2) by (simp add: word_less_nat_alt)
  finally have "unat q \<le> ?p" using assms(2) by (auto simp: word_less_nat_alt)
  also have "?p \<le> 1000000" by (rule div_le_dividend)
  finally have q: "unat q \<le> 1000000" .
  have fit: "\<not> q > (umax - c) div 2" using q c(3) by (simp add: word_less_nat_alt unat_div unat_umax_minus)
  have q2: "unat (q * 2) = 2 * unat q" using q by (simp add: unat_word_ariths)
  have q': "unat (q * 2 + c) = 2 * unat q + unat c"
    using q c(3) by (subst unat_add_no_wrap) (simp_all add: q2)
  have "1000000 div 2 ^ n = 2 * ?p + of_bool (odd (1000000 div 2 ^ n :: nat))"
    using halves [of "1000000 div 2 ^ n"] by (simp add: div_mult2_eq [symmetric] mult.commute)
  moreover have "unat c * unat b + unat r' = 2 * unat r + of_bool (odd (1000000 div 2 ^ n :: nat)) * unat f"
    using c(1) Suc.prems(2) million_bit [of n] by simp
  ultimately have "unat (q * 2 + c) * unat b + unat r' = 1000000 div 2 ^ n * unat f"
    using carry_over [OF _ Suc.prems(3)] unfolding q' by metis
  with Suc.IH [OF c(2)] Suc.prems(2)
  have "\<exists>q'. regression_loop b f (drop_bit 1 (push_bit n 1)) r' (q * 2 + c) = Some q' \<and> unat q' = 1000000 * unat f div unat b"
    by simp
  moreover have "push_bit n 1 \<noteq> (0 :: u64)" using Suc.prems(2) by (simp add: push_bit_eq_0_iff)
  moreover from this have "regression_loop b f (push_bit n 1) r q = regression_loop b f (drop_bit 1 (push_bit n 1)) r' (q * 2 + c)"
    unfolding regression_loop.simps [of b f "push_bit n 1"] step using fit by (simp del: push_bit_of_1)
  moreover have "drop_bit 1 (push_bit (Suc n) 1) = (push_bit n 1 :: u64)" using Suc.prems(2) by (intro next_mask) simp
  ultimately show ?case by metis
qed

text \<open>The relative growth in parts per million, rounded towards zero.\<close>

definition growth_ppm :: "nat \<Rightarrow> nat \<Rightarrow> int" where
  "growth_ppm b c = (if b \<le> c then int ((c - b) * 1000000 div b) else - int ((b - c) * 1000000 div b))"

lemma sint_small:
  fixes w :: u64
  assumes "unat w < 2 ^ 63"
  shows "sint w = int (unat w)"
proof -
  have eq: "int (unat w) = uint w" by simp
  have "int (unat w) < int (2 ^ 63)" using assms by (rule of_nat_less_iff [THEN iffD2])
  then have "uint w < 2 ^ 63" unfolding eq [symmetric] by (simp only: of_nat_power of_nat_numeral)
  moreover have "- (2 ^ 63) \<le> uint w" unfolding eq [symmetric] by (rule order.trans [OF _ of_nat_0_le_iff]) simp
  ultimately have "signed_take_bit 63 (uint w) = uint w" by (intro signed_take_bit_int_eq_self)
  then show ?thesis by (simp add: sint_uint)
qed

lemma magnitude_exact:
  fixes whole fractional :: u64
  assumes "unat fractional < 1000000"
  shows "\<not> whole > (of_int unbounded_regression_ppm - fractional) div 1000000 \<longleftrightarrow>
      unat whole * 1000000 + unat fractional < 2 ^ 63"
    and "unat whole * 1000000 + unat fractional < 2 ^ 63 \<Longrightarrow>
      sint (whole * 1000000 + fractional) = int (unat whole * 1000000 + unat fractional)"
proof -
  have max: "(of_int unbounded_regression_ppm :: u64) = 0x7fffffffffffffff" by (simp add: unbounded_regression_ppm_def)
  have "unat (of_int unbounded_regression_ppm - fractional) = 2 ^ 63 - 1 - unat fractional"
    using assms unfolding max by (subst unat_sub) (simp_all add: word_le_nat_alt)
  then show "\<not> whole > (of_int unbounded_regression_ppm - fractional) div 1000000 \<longleftrightarrow>
      unat whole * 1000000 + unat fractional < 2 ^ 63"
    using assms by (simp add: word_less_nat_alt unat_div not_less less_eq_div_iff_mult_less_eq) arith
  assume fit: "unat whole * 1000000 + unat fractional < 2 ^ 63"
  then have "unat (whole * 1000000) = unat whole * 1000000" by (simp add: unat_word_ariths)
  then have "unat (whole * 1000000 + fractional) = unat whole * 1000000 + unat fractional"
    using fit by (subst unat_add_no_wrap) simp_all
  with fit show "sint (whole * 1000000 + fractional) = int (unat whole * 1000000 + unat fractional)"
    by (subst sint_small) simp_all
qed

lemma million_split: "0 < (b :: nat) \<Longrightarrow> d * 1000000 div b = d div b * 1000000 + 1000000 * (d mod b) div b"
proof -
  assume b: "0 < b"
  have "d * 1000000 = (d div b * b + d mod b) * 1000000" by simp
  also have "\<dots> = 1000000 * (d mod b) + d div b * 1000000 * b" by (simp only: add_mult_distrib ac_simps)
  finally have "d * 1000000 div b = (1000000 * (d mod b) + d div b * 1000000 * b) div b" by simp
  also have "\<dots> = d div b * 1000000 + 1000000 * (d mod b) div b" using b by (intro div_mult_self1) simp
  finally show ?thesis .
qed


lemma regression_ppm_value:
  assumes "baseline \<noteq> 0"
  shows "regression_ppm baseline candidate higher_is_better =
     (let g = growth_ppm (unat baseline) (unat candidate) in
      if \<bar>g\<bar> < 2 ^ 63 then Some (if higher_is_better then - g else g) else None)"
proof -
  define d where "d = (if candidate \<ge> baseline then candidate - baseline else baseline - candidate)"
  have b: "0 < unat baseline" using assms by (simp add: unat_gt_0)
  have f: "d mod baseline < baseline" using assms by (simp add: word_mod_less_divisor word_neq_0_conv [symmetric])
  obtain q where q: "regression_loop baseline (d mod baseline) (push_bit 19 1) 0 0 = Some q"
      "unat q = 1000000 * (unat d mod unat baseline) div unat baseline"
    using regression_loop_exact [OF _ f, of 0 20 0] next_mask [of 19] assms
    by (auto simp: word_gt_0 unat_mod simp del: push_bit_of_1)
  let ?m = "unat d * 1000000 div unat baseline"
  have "1000000 * (unat d mod unat baseline) < 1000000 * unat baseline" using b by simp
  then have small: "unat q < 1000000" unfolding q(2) by (simp add: less_mult_imp_div_less)
  have m: "unat (d div baseline) * 1000000 + unat q = ?m" unfolding million_split [OF b] q(2) by (simp add: unat_div)
  have ud: "unat d = (if unat baseline \<le> unat candidate then unat candidate - unat baseline else unat baseline - unat candidate)"
    by (auto simp: d_def unat_sub word_le_nat_alt)
  then have g: "growth_ppm (unat baseline) (unat candidate) = (if unat baseline \<le> unat candidate then int ?m else - int ?m)"
    by (simp add: growth_ppm_def)
  have zero: "?m = 0" if "unat candidate = unat baseline" using that by (simp add: ud)
  have "regression_ppm baseline candidate higher_is_better =
     (if ?m < 2 ^ 63 then Some (if (if higher_is_better then candidate < baseline else candidate > baseline) then int ?m else - int ?m)
      else None)"
    using assms magnitude_exact [OF small, of "d div baseline"] unfolding m
    by (auto simp: regression_ppm_def d_def [symmetric] q(1) Let_def simp del: push_bit_of_1)
  then show ?thesis using zero unfolding g by (auto simp: word_less_nat_alt Let_def)
qed


section \<open>Percentages\<close>

lemma digit_bounds: "is_digit c \<Longrightarrow> 48 \<le> (of_char c :: nat) \<and> of_char c \<le> (57 :: nat)"
  by (simp add: is_digit_def less_eq_char_def)

lemma unat_shift_digit:
  assumes "is_digit c" "unat w * 10 + 9 < 2 ^ 64"
  shows "unat (w * 10 + digit_value c) = unat w * 10 + (of_char c - 48)"
proof -
  have c: "of_char c - 48 \<le> (9 :: nat)" using digit_bounds [OF assms(1)] by linarith
  have "unat (w * 10) = unat w * 10" using assms(2) by (simp add: unat_word_ariths)
  moreover have "unat (digit_value c) = of_char c - 48" using c by (intro unat_of_nat_small) simp
  ultimately show ?thesis using assms(2) c by (subst unat_add_no_wrap) simp_all
qed

lemma whole_room: "\<not> w > (umax - 9) div 10 \<longleftrightarrow> unat w \<le> 1844674407370955160" for w :: u64
  by (simp add: word_less_nat_alt unat_div unat_umax_minus not_less)

lemma percent_whole_sound:
  "percent_whole s w = Some (w', rest) \<Longrightarrow>
   rest = dropWhile is_digit s \<and> unat w' = decimal_value of_char (takeWhile is_digit s) (unat w)"
proof (induction s arbitrary: w)
  case (Cons c cs)
  show ?case
  proof (cases "is_digit c")
    case True
    then have "unat w \<le> 1844674407370955160" "percent_whole cs (w * 10 + digit_value c) = Some (w', rest)"
      using Cons.prems whole_room [of w] by (simp_all split: if_splits)
    with Cons.IH [of "w * 10 + digit_value c"] True unat_shift_digit [OF True, of w] show ?thesis by simp
  qed (use Cons.prems in auto)
qed simp

lemma percent_whole_complete:
  "decimal_value of_char (takeWhile is_digit s) (unat w) \<le> 1844674407370955160 \<Longrightarrow> \<exists>r. percent_whole s w = Some r"
proof (induction s arbitrary: w)
  case (Cons c cs)
  show ?case
  proof (cases "is_digit c")
    case True
    have "unat w \<le> decimal_value of_char (takeWhile is_digit (c # cs)) (unat w)" by (rule decimal_value_ge)
    with Cons.prems have w: "unat w \<le> 1844674407370955160" by linarith
    then have "unat (w * 10 + digit_value c) = unat w * 10 + (of_char c - 48)" by (intro unat_shift_digit [OF True]) simp
    with Cons.IH [of "w * 10 + digit_value c"] Cons.prems True w whole_room [of w] show ?thesis by simp
  qed simp
qed simp

lemma decimal_value_bound: "list_all is_digit ds \<Longrightarrow> decimal_value of_char ds n < (n + 1) * 10 ^ length ds"
proof (induction ds arbitrary: n)
  case (Cons c cs)
  have "is_digit c" using Cons.prems by simp
  from digit_bounds [OF this] have c: "of_char c - 48 \<le> (9 :: nat)" by linarith
  have "decimal_value of_char cs (n * 10 + (of_char c - 48)) < (n * 10 + (of_char c - 48) + 1) * 10 ^ length cs" using Cons by simp
  also have "\<dots> \<le> (n * 10 + 10) * 10 ^ length cs" using c by (intro mult_right_mono) simp_all
  finally show ?case by (simp add: algebra_simps)
qed simp

lemma percent_fraction_exact:
  assumes "unat f < 10 ^ n" "n \<le> 4"
  shows "\<exists>f'. percent_fraction s f n =
     (let ds = take (4 - n) (takeWhile is_digit s) in (f', n + length ds, drop (length ds) s)) \<and>
     unat f' = decimal_value of_char (take (4 - n) (takeWhile is_digit s)) (unat f) \<and>
     unat f' < 10 ^ (n + length (take (4 - n) (takeWhile is_digit s)))"
  using assms
proof (induction s arbitrary: f n)
  case (Cons c cs)
  show ?case
  proof (cases "is_digit c \<and> n < 4")
    case True
    have "(10 :: nat) ^ n \<le> 10 ^ 3" using True by (intro power_increasing) simp_all
    then have f: "unat f < 1000" using Cons.prems by simp
    have next_f: "unat (f * 10 + digit_value c) = unat f * 10 + (of_char c - 48)"
      using f True by (intro unat_shift_digit) simp_all
    have "of_char c - 48 \<le> (9 :: nat)" using digit_bounds [of c] True by linarith
    then have "unat (f * 10 + digit_value c) < 10 ^ Suc n" using Cons.prems(1) unfolding next_f by simp
    from Cons.IH [OF this] True obtain k where "4 - n = Suc k" "4 - Suc n = k" by (metis Suc_diff_Suc)
    with Cons.IH [OF \<open>unat (f * 10 + digit_value c) < 10 ^ Suc n\<close>] True next_f show ?thesis by (simp add: Let_def)
  qed (use Cons.prems in \<open>auto simp: Let_def\<close>)
qed simp

lemma pad_fraction_exact:
  "n \<le> 4 \<Longrightarrow> unat f < 10 ^ n \<Longrightarrow> unat (pad_fraction f n) = unat f * 10 ^ (4 - n) \<and> unat (pad_fraction f n) < 10000"
proof (induction f n rule: pad_fraction.induct)
  case (1 f n)
  show ?case
  proof (cases "n < 4")
    case True
    have "(10 :: nat) ^ n \<le> 10 ^ 3" using True by (intro power_increasing) simp_all
    then have "unat (f * 10) = unat f * 10" using "1.prems" by (simp add: unat_word_ariths)
    moreover obtain k where "4 - n = Suc k" "4 - Suc n = k" using True by (metis Suc_diff_Suc)
    ultimately show ?thesis using "1.IH" [OF True] "1.prems" True by (simp add: pad_fraction.simps [of f n])
  next
    case False
    then have "n = 4" using "1.prems" by simp
    then show ?thesis using "1.prems" by (simp add: pad_fraction.simps)
  qed
qed


text \<open>The reference: a decimal number with at most four digits behind a point, in parts per million of a hundredth.\<close>

definition percent_text :: "nat \<Rightarrow> string \<Rightarrow> bool" where
  "percent_text v s \<longleftrightarrow> (\<exists>ds fs. ds \<noteq> [] \<and> list_all is_digit ds \<and> list_all is_digit fs \<and>
     (s = ds \<and> fs = [] \<or> s = ds @ CHR ''.'' # fs \<and> fs \<noteq> [] \<and> length fs \<le> 4) \<and>
     v = decimal_value of_char ds 0 * 10000 + decimal_value of_char fs 0 * 10 ^ (4 - length fs))"

lemma percent_total:
  fixes w f :: u64
  assumes "unat f < 10000"
  shows "\<not> w > (umax - f) div percent_ppm \<longleftrightarrow> unat w * 10000 + unat f < 2 ^ 64"
    and "unat w * 10000 + unat f < 2 ^ 64 \<Longrightarrow> unat (w * percent_ppm + f) = unat w * 10000 + unat f"
proof -
  show "\<not> w > (umax - f) div percent_ppm \<longleftrightarrow> unat w * 10000 + unat f < 2 ^ 64"
    using assms by (simp add: percent_ppm_def word_less_nat_alt unat_div unat_umax_minus not_less less_eq_div_iff_mult_less_eq) arith
  assume fit: "unat w * 10000 + unat f < 2 ^ 64"
  then have "unat (w * 10000) = unat w * 10000" by (simp add: unat_word_ariths)
  then show "unat (w * percent_ppm + f) = unat w * 10000 + unat f"
    using fit unfolding percent_ppm_def by (subst unat_add_no_wrap) simp_all
qed

lemma percent_tail_exact:
  "percent_tail rest = Some (f, n) \<longleftrightarrow>
   (\<exists>fs. (rest = [] \<and> fs = [] \<or> rest = CHR ''.'' # fs \<and> fs \<noteq> [] \<and> length fs \<le> 4) \<and> list_all is_digit fs \<and>
     n = length fs \<and> unat f = decimal_value of_char fs 0 \<and> unat f < 10 ^ n)"
proof (cases rest)
  case (Cons c cs)
  obtain f' where f': "percent_fraction cs 0 0 =
     (let ds = take 4 (takeWhile is_digit cs) in (f', length ds, drop (length ds) cs))"
     "unat f' = decimal_value of_char (take 4 (takeWhile is_digit cs)) 0"
     "unat f' < 10 ^ length (take 4 (takeWhile is_digit cs))"
    using percent_fraction_exact [of 0 0 cs] by auto
  let ?ds = "take 4 (takeWhile is_digit cs)"
  have all: "drop (length ?ds) cs = [] \<longleftrightarrow> list_all is_digit cs \<and> length cs \<le> 4"
  proof
    assume "drop (length ?ds) cs = []"
    then have len: "length cs \<le> length (takeWhile is_digit cs)" "length cs \<le> 4" by simp_all
    then have "takeWhile is_digit cs = cs" by (metis takeWhile_eq_take take_all)
    with len(2) show "list_all is_digit cs \<and> length cs \<le> 4" by (simp add: takeWhile_eq_all_conv list_all_iff)
  next
    assume "list_all is_digit cs \<and> length cs \<le> 4"
    then show "drop (length ?ds) cs = []" by (simp add: takeWhile_eq_all_conv [THEN iffD2] list_all_iff)
  qed
  have ds: "?ds = cs" if "list_all is_digit cs" "length cs \<le> 4"
    using that by (simp add: takeWhile_eq_all_conv [THEN iffD2] list_all_iff)
  have "percent_tail rest = (if c \<noteq> CHR ''.'' then None else if ?ds = [] \<or> drop (length ?ds) cs \<noteq> [] then None else Some (f', length ?ds))"
    unfolding percent_tail_def Cons by (cases "takeWhile is_digit cs") (simp_all add: f'(1) Let_def)
  also have "\<dots> = (if c = CHR ''.'' \<and> cs \<noteq> [] \<and> list_all is_digit cs \<and> length cs \<le> 4 then Some (f', length cs) else None)"
    unfolding all using ds by auto
  finally have run: "percent_tail rest = (if c = CHR ''.'' \<and> cs \<noteq> [] \<and> list_all is_digit cs \<and> length cs \<le> 4
    then Some (f', length cs) else None)" .
  have "unat f' = decimal_value of_char cs 0 \<and> unat f' < 10 ^ length cs" if "list_all is_digit cs" "length cs \<le> 4"
    using f'(2,3) unfolding ds [OF that] by simp
  then show ?thesis using run Cons by (auto simp: word_unat_eq_iff)
qed (auto simp: percent_tail_def unat_eq_zero)


lemma parse_percent_ppm_Some:
  "parse_percent_ppm s = Some v \<longleftrightarrow> (\<exists>w rest f n. s \<noteq> [] \<and> percent_whole s 0 = Some (w, rest) \<and> rest \<noteq> s \<and>
     percent_tail rest = Some (f, n) \<and> \<not> w > (umax - pad_fraction f n) div percent_ppm \<and>
     v = w * percent_ppm + pad_fraction f n)"
  by (auto simp: parse_percent_ppm_def bind_eq_Some_conv Let_def split: if_splits)

lemma percent_tail_pad:
  assumes "percent_tail rest = Some (f, n)"
  shows "\<exists>fs. (rest = [] \<and> fs = [] \<or> rest = CHR ''.'' # fs \<and> fs \<noteq> [] \<and> length fs \<le> 4) \<and> list_all is_digit fs \<and>
     unat (pad_fraction f n) = decimal_value of_char fs 0 * 10 ^ (4 - length fs) \<and> unat (pad_fraction f n) < 10000"
  using assms pad_fraction_exact [of n f] unfolding percent_tail_exact by auto

lemma parse_percent_ppm_exact: "parse_percent_ppm s = Some v \<longleftrightarrow> percent_text (unat v) s"
proof
  assume "parse_percent_ppm s = Some v"
  then obtain w rest f n where h: "percent_whole s 0 = Some (w, rest)" "rest \<noteq> s" "percent_tail rest = Some (f, n)"
    "\<not> w > (umax - pad_fraction f n) div percent_ppm" "v = w * percent_ppm + pad_fraction f n"
    unfolding parse_percent_ppm_Some by blast
  obtain fs where fs: "rest = [] \<and> fs = [] \<or> rest = CHR ''.'' # fs \<and> fs \<noteq> [] \<and> length fs \<le> 4" "list_all is_digit fs"
     "unat (pad_fraction f n) = decimal_value of_char fs 0 * 10 ^ (4 - length fs)" "unat (pad_fraction f n) < 10000"
    using percent_tail_pad [OF h(3)] by blast
  let ?ds = "takeWhile is_digit s"
  have w: "rest = dropWhile is_digit s" "unat w = decimal_value of_char ?ds 0" using percent_whole_sound [OF h(1)] by simp_all
  have s: "s = ?ds @ rest" by (simp add: w(1))
  have ds: "list_all is_digit ?ds" "?ds \<noteq> []" using s h(2) by (auto simp: list_all_iff dest: set_takeWhileD)
  have v: "unat v = unat w * 10000 + unat (pad_fraction f n)"
    using percent_total [OF fs(4)] h(4,5) by simp
  show "percent_text (unat v) s" unfolding percent_text_def
    by (rule exI [of _ ?ds], rule exI [of _ fs]) (use ds fs(1-3) s v w(2) in auto)
next
  assume "percent_text (unat v) s"
  then obtain ds fs where h: "ds \<noteq> []" "list_all is_digit ds" "list_all is_digit fs"
     "s = ds \<and> fs = [] \<or> s = ds @ CHR ''.'' # fs \<and> fs \<noteq> [] \<and> length fs \<le> 4"
     "unat v = decimal_value of_char ds 0 * 10000 + decimal_value of_char fs 0 * 10 ^ (4 - length fs)"
    unfolding percent_text_def by blast
  define rest where "rest = drop (length ds) s"
  have dot: "\<not> is_digit (CHR ''.'')" by (simp add: is_digit_def)
  have tw: "takeWhile is_digit s = ds" "dropWhile is_digit s = rest" "rest \<noteq> s" "s \<noteq> []"
    using h(1-4) dot by (auto simp: rest_def list_all_iff)
  have "unat v < 2 ^ 64" using unat_bound [of v] by simp
  then have "decimal_value of_char ds 0 \<le> 1844674407370955160" using h(5) by simp
  then obtain w where w: "percent_whole s 0 = Some (w, rest)" "unat w = decimal_value of_char ds 0"
    using percent_whole_complete [of s 0] percent_whole_sound [of s 0] tw(1,2) by (metis prod.exhaust unsigned_0)
  have rest: "rest = [] \<and> fs = [] \<or> rest = CHR ''.'' # fs \<and> fs \<noteq> [] \<and> length fs \<le> 4" using h(4) by (auto simp: rest_def)
  define f :: u64 where "f = of_nat (decimal_value of_char fs 0)"
  have "length fs \<le> 4" using rest by auto
  then have "(10 :: nat) ^ length fs \<le> 10 ^ 4" by (intro power_increasing) simp_all
  then have f: "unat f = decimal_value of_char fs 0" "unat f < 10 ^ length fs"
    using decimal_value_bound [OF h(3), of 0] by (simp_all add: f_def unat_of_nat_small)
  then have tail: "percent_tail rest = Some (f, length fs)" unfolding percent_tail_exact using rest h(3) by blast
  have pad: "unat (pad_fraction f (length fs)) = decimal_value of_char fs 0 * 10 ^ (4 - length fs)"
    "unat (pad_fraction f (length fs)) < 10000" using pad_fraction_exact [OF \<open>length fs \<le> 4\<close> f(2)] f(1) by simp_all
  have fit: "unat w * 10000 + unat (pad_fraction f (length fs)) < 2 ^ 64"
    using \<open>unat v < 2 ^ 64\<close> h(5) by (simp add: w(2) pad(1))
  have "v = w * percent_ppm + pad_fraction f (length fs)"
    unfolding word_unat_eq_iff percent_total(2) [OF pad(2) fit] using h(5) by (simp add: w(2) pad(1))
  then show "parse_percent_ppm s = Some v"
    unfolding parse_percent_ppm_Some using tw(3,4) w(1) tail percent_total(1) [OF pad(2), of w] fit
    by (intro exI [of _ w] exI [of _ rest] exI [of _ f] exI [of _ "length fs"] conjI) simp_all
qed


section \<open>Resampling\<close>

lemma div_cross_mono: "0 < b \<Longrightarrow> 0 < b' \<Longrightarrow> x * b' \<le> y * b \<Longrightarrow> x div b \<le> y div b'" for b b' x y :: nat
proof -
  assume h: "0 < b" "0 < b'" "x * b' \<le> y * b"
  have "x div b * b' * b \<le> x * b'" using div_times_less_eq_dividend [of x b] mult_le_mono1 [of "x div b * b" x b'] by (simp add: ac_simps)
  also have "\<dots> \<le> y * b" by (rule h)
  finally have "x div b * b' \<le> y" using h(1) by simp
  then show ?thesis using h(2) by (simp add: less_eq_div_iff_mult_less_eq)
qed

lemma growth_ppm_mono:
  assumes "0 < b" "b \<le> b'" "c' \<le> c"
  shows "growth_ppm b' c' \<le> growth_ppm b c"
proof -
  consider "b' \<le> c'" "b \<le> c" | "c' < b'" "b \<le> c" | "c' < b'" "c < b" using assms by linarith
  then show ?thesis
  proof cases
    case 1
    have "(c' - b') * 1000000 * b \<le> (c - b) * 1000000 * b'"
      using assms by (intro mult_le_mono) simp_all
    then show ?thesis using 1 assms div_cross_mono [of b' b "(c' - b') * 1000000" "(c - b) * 1000000"]
      by (simp add: growth_ppm_def zdiv_int [symmetric] del: of_nat_mult)
  next
    case 2
    have "- int ((b' - c') * 1000000 div b') \<le> 0" "0 \<le> int ((c - b) * 1000000 div b)" by simp_all
    with 2 show ?thesis unfolding growth_ppm_def by simp
  next
    case 3
    have "c' * b \<le> c * b'" using assms by (intro mult_le_mono) simp_all
    then have "(b - c) * b' \<le> (b' - c') * b" unfolding diff_mult_distrib mult.commute [of b' b] by (rule diff_le_mono2)
    then have "(b - c) * 1000000 * b' \<le> (b' - c') * 1000000 * b" by simp
    then show ?thesis using 3 assms div_cross_mono [of b b' "(b - c) * 1000000" "(b' - c') * 1000000"]
      by (simp add: growth_ppm_def)
  qed
qed

text \<open>The result of the division as a function, with the values for a baseline of zero.\<close>

definition saturated_growth :: "int \<Rightarrow> nat \<Rightarrow> nat \<Rightarrow> int" where
  "saturated_growth m b c = (if b = 0 then if c = 0 then 0 else m else min m (growth_ppm b c))"

definition regression_value :: "bool \<Rightarrow> nat \<Rightarrow> nat \<Rightarrow> int" where
  "regression_value higher_is_better b c =
     (if higher_is_better then - saturated_growth (2 ^ 63) b c else saturated_growth (2 ^ 63 - 1) b c)"

lemma regression_ppm_Some:
  "regression_ppm b c h = Some r \<Longrightarrow> r = regression_value h (unat b) (unat c)"
proof (cases "b = 0")
  case True
  then show "regression_ppm b c h = Some r \<Longrightarrow> r = regression_value h (unat b) (unat c)"
    by (auto simp: regression_ppm_def regression_value_def saturated_growth_def unbounded_regression_ppm_def
        unbounded_improvement_ppm_def unat_eq_zero split: if_splits)
next
  case False
  then show "regression_ppm b c h = Some r \<Longrightarrow> r = regression_value h (unat b) (unat c)"
    by (auto simp: regression_ppm_value regression_value_def saturated_growth_def unat_eq_zero Let_def split: if_splits)
qed

lemma saturated_growth_mono:
  assumes "1000000 \<le> m" "b \<le> b'" "c' \<le> c"
  shows "saturated_growth m b' c' \<le> saturated_growth m b c"
proof (cases "b = 0")
  case True
  have "growth_ppm b' 0 \<le> 0" by (simp add: growth_ppm_def)
  with True assms show ?thesis by (auto simp: saturated_growth_def)
next
  case False
  then show ?thesis using growth_ppm_mono [of b b' c' c] assms by (auto simp: saturated_growth_def)
qed


text \<open>All samples in use lie between two bounds.\<close>

definition samples_within :: "nat \<Rightarrow> nat \<Rightarrow> u64 list \<Rightarrow> nat \<Rightarrow> bool" where
  "samples_within lo hi samples count \<longleftrightarrow> length samples = maximum_samples \<and>
     (\<forall>i < count. i < length samples \<longrightarrow> lo \<le> unat (samples ! i) \<and> unat (samples ! i) \<le> hi)"

lemma drawn_within:
  "samples_within lo hi samples count \<Longrightarrow> 0 < count \<Longrightarrow> count \<le> length samples \<Longrightarrow>
   lo \<le> unat (samples ! (unat random mod count)) \<and> unat (samples ! (unat random mod count)) \<le> hi"
  using mod_less_divisor [of count "unat random"] by (auto simp: samples_within_def)

lemma mean_loop_within:
  assumes "samples_within lo hi samples count" "0 < count" "count \<le> length samples"
    "mean_loop samples count n state tot = Some (t, state')"
  shows "unat tot + n * lo \<le> unat t \<and> unat t \<le> unat tot + n * hi"
  using assms(4)
proof (induction n arbitrary: state tot)
  case (Suc n)
  obtain random state1 where r: "next_random state = (random, state1)" by (metis prod.exhaust)
  let ?v = "samples ! (unat random mod count)"
  from Suc.prems r have v: "\<not> ?v > umax - tot" "mean_loop samples count n state1 (tot + ?v) = Some (t, state')"
    by (auto simp: Let_def split: if_splits)
  have "unat (tot + ?v) = unat tot + unat ?v"
    using v(1) by (intro unat_add_no_wrap) (simp add: not_less le_umax_minus)
  with Suc.IH [OF v(2)] drawn_within [OF assms(1-3), of random] show ?case by simp
qed simp

lemma max_loop_within:
  assumes "samples_within lo hi samples count" "0 < count" "count \<le> length samples"
    "unat largest \<le> hi" "0 < n \<or> lo \<le> unat largest" "max_loop samples count n state largest = (t, state')"
  shows "lo \<le> unat t \<and> unat t \<le> hi"
  using assms(4-6)
proof (induction n arbitrary: state largest)
  case (Suc n)
  obtain random state1 where r: "next_random state = (random, state1)" by (metis prod.exhaust)
  let ?v = "samples ! (unat random mod count)"
  let ?l = "if ?v > largest then ?v else largest"
  have "unat ?l \<le> hi" "lo \<le> unat ?l" using drawn_within [OF assms(1-3), of random] Suc.prems(1)
    by (auto simp: word_less_nat_alt)
  moreover have "max_loop samples count n state1 ?l = (t, state')" using Suc.prems(3) r by (simp add: Let_def)
  ultimately show ?case using Suc.IH by blast
qed simp

abbreviation series_within :: "nat \<Rightarrow> nat \<Rightarrow> MetricSeries \<Rightarrow> bool" where
  "series_within lo hi series \<equiv> samples_within lo hi (ms_values series) (ms_count series)"

lemma resample_within:
  assumes within: "series_within lo hi series" and run: "resample metric series state = Some (v, state')"
  shows "lo \<le> unat v \<and> unat v \<le> hi"
proof -
  let ?n = "ms_count series" and ?xs = "ms_values series"
  have n: "0 < ?n" "?n \<le> length ?xs"
    using run by (auto simp: resample_def sample_max_def sample_mean_def split: if_splits)
  show ?thesis
  proof (cases "uses_maximum metric")
    case True
    then have "max_loop ?xs ?n ?n state 0 = (v, state')" using run n by (simp add: resample_def sample_max_def)
    from max_loop_within [OF within n _ _ this] n show ?thesis by simp
  next
    case False
    then obtain t where t: "mean_loop ?xs ?n ?n state 0 = Some (t, state')" "v = t div of_nat ?n"
      using run n by (auto simp: resample_def sample_mean_def)
    have "unat (of_nat ?n :: u64) = ?n" using n within
      by (intro unat_of_nat_small) (simp add: samples_within_def maximum_samples_def)
    then have "unat v = unat t div ?n" by (simp add: t(2) unat_div)
    moreover have "?n * lo \<le> unat t" "unat t \<le> ?n * hi" using mean_loop_within [OF within n t(1)] by simp_all
    ultimately show ?thesis using n(1)
      by (metis div_le_mono div_mult_self1_is_m)
  qed
qed

lemma regression_within:
  assumes "bl \<le> unat b" "unat b \<le> bh" "cl \<le> unat c" "unat c \<le> ch" "regression_ppm b c h = Some r"
  shows "(if h then regression_value h bl ch else regression_value h bh cl) \<le> r"
    "r \<le> (if h then regression_value h bh cl else regression_value h bl ch)"
  using assms(1-4) saturated_growth_mono [of _ "unat b" bh cl "unat c"] saturated_growth_mono [of _ bl "unat b" "unat c" ch]
  unfolding regression_ppm_Some [OF assms(5)] by (auto simp: regression_value_def)

lemma bootstrap_loop_within:
  assumes "series_within bl bh baseline" "series_within cl ch candidate"
    "bootstrap_loop baseline candidate metric h n state samples = Inr xs"
  shows "length xs = length samples + n \<and> (\<forall>x \<in> set xs. x \<in> set samples \<or>
     (if h then regression_value h bl ch else regression_value h bh cl) \<le> x \<and>
     x \<le> (if h then regression_value h bh cl else regression_value h bl ch))"
  using assms(3)
proof (induction n arbitrary: state samples)
  case (Suc n)
  then obtain b s1 c s2 r where run: "resample metric baseline state = Some (b, s1)"
    "resample metric candidate s1 = Some (c, s2)" "regression_ppm b c h = Some r"
    "bootstrap_loop baseline candidate metric h n s2 (r # samples) = Inr xs"
    by (auto split: option.splits)
  note b = resample_within [OF assms(1) run(1)] and c = resample_within [OF assms(2) run(2)]
  note r = regression_within [OF conjunct1 [OF b] conjunct2 [OF b] conjunct1 [OF c] conjunct2 [OF c] run(3)]
  from Suc.IH [OF run(4)] r show ?case by auto
qed auto

lemma bootstrap_loop_Inl:
  "bootstrap_loop baseline candidate metric h n state samples = Inl e \<Longrightarrow> e \<in> {BR_invalid_samples, BR_arithmetic_overflow}"
  by (induction n arbitrary: state samples) (auto split: option.splits)

lemma bootstrap_bounds:
  assumes "series_within bl bh baseline" "series_within cl ch candidate"
    and run: "bootstrap_interval baseline candidate metric h = BR_success iv"
  shows "(if h then regression_value h bl ch else regression_value h bh cl) \<le> iv_lower iv"
    "iv_lower iv \<le> iv_upper iv" "iv_upper iv \<le> (if h then regression_value h bh cl else regression_value h bl ch)"
proof -
  from run obtain xs where loop: "bootstrap_loop baseline candidate metric h bootstrap_resamples fixed_seed [] = Inr xs"
    and iv: "iv_lower iv = sort xs ! 249" "iv_upper iv = sort xs ! 9749"
    by (auto simp: bootstrap_interval_def Let_def bootstrap_resamples_def split: if_splits sum.splits dest: bootstrap_loop_Inl)
  note w = bootstrap_loop_within [OF assms(1,2) loop]
  then have len: "length (sort xs) = 10000" by (simp add: bootstrap_resamples_def)
  then have "sort xs ! 249 \<in> set xs" "sort xs ! 9749 \<in> set xs" using nth_mem [of _ "sort xs"] by simp_all
  then show "(if h then regression_value h bl ch else regression_value h bh cl) \<le> iv_lower iv"
    "iv_upper iv \<le> (if h then regression_value h bh cl else regression_value h bl ch)"
    using w unfolding iv by auto
  show "iv_lower iv \<le> iv_upper iv" unfolding iv using len by (intro sorted_nth_mono) simp_all
qed


text \<open>A sum that cannot overflow is computed; equal samples have their value as mean and maximum.\<close>

lemma mean_loop_total:
  assumes "samples_within lo hi samples count" "0 < count" "count \<le> length samples"
  shows "unat tot + n * hi < 2 ^ 64 \<Longrightarrow> \<exists>r. mean_loop samples count n state tot = Some r"
proof (induction n arbitrary: state tot)
  case (Suc n)
  obtain random state1 where r: "next_random state = (random, state1)" by (metis prod.exhaust)
  let ?v = "samples ! (unat random mod count)"
  have v: "unat ?v \<le> hi" using drawn_within [OF assms, of random] by simp
  then have fit: "unat tot + unat ?v < 2 ^ 64" using Suc.prems by simp
  then have "unat (tot + ?v) = unat tot + unat ?v" by (intro unat_add_no_wrap) simp
  with v Suc.prems have "unat (tot + ?v) + n * hi < 2 ^ 64" by simp
  with Suc.IH fit r show ?case by (simp add: Let_def not_less le_umax_minus)
qed simp

lemma resample_total:
  assumes "series_within lo hi series" "0 < ms_count series" "ms_count series \<le> maximum_samples" "ms_count series * hi < 2 ^ 64"
  shows "\<exists>v state'. resample metric series state = Some (v, state')"
proof -
  have n: "ms_count series \<le> length (ms_values series)" using assms by (simp add: samples_within_def)
  from mean_loop_total [OF assms(1,2) n, of 0 "ms_count series" state] assms(4) n assms(2) show ?thesis
    by (auto simp: resample_def sample_max_def sample_mean_def)
qed

lemma bootstrap_constant:
  assumes b: "series_within bv bv baseline" "0 < ms_count baseline" "ms_count baseline \<le> maximum_samples"
      "ms_count baseline * bv < 2 ^ 64" "ms_available baseline" "has_nonzero_sample baseline"
    and c: "series_within cv cv candidate" "0 < ms_count candidate" "ms_count candidate \<le> maximum_samples"
      "ms_count candidate * cv < 2 ^ 64" "ms_available candidate"
    and r: "regression_ppm (of_nat bv) (of_nat cv) h = Some r"
  shows "\<exists>iv. bootstrap_interval baseline candidate metric h = BR_success iv"
proof -
  have val: "v = of_nat bv" if "resample metric baseline state = Some (v, state')" for v state state'
    using resample_within [OF b(1) that] by (intro eq_of_nat_unat) simp
  have val': "v = of_nat cv" if "resample metric candidate state = Some (v, state')" for v state state'
    using resample_within [OF c(1) that] by (intro eq_of_nat_unat) simp
  have "\<exists>xs. bootstrap_loop baseline candidate metric h n state samples = Inr xs" for n state samples
  proof (induction n arbitrary: state samples)
    case (Suc n)
    obtain v s1 where 1: "resample metric baseline state = Some (v, s1)" using resample_total [OF b(1-4)] by blast
    obtain v' s2 where 2: "resample metric candidate s1 = Some (v', s2)" using resample_total [OF c(1-4)] by blast
    show ?case using Suc.IH val [OF 1] val' [OF 2] r by (simp add: 1 2)
  qed simp
  then obtain xs where "bootstrap_loop baseline candidate metric h bootstrap_resamples fixed_seed [] = Inr xs" by blast
  then show ?thesis using b(5,6) c(5) by (simp add: bootstrap_interval_def Let_def)
qed

section \<open>Properties\<close>

text \<open>
  The regression is the growth relative to the baseline in parts per million, computed
  without rounding error: the quotient rounded towards zero, with the sign of the metric's
  direction. It is an overflow exactly when that number does not fit the signed result, and a
  baseline of zero has the two sentinels.
\<close>
theorem regression_ppm_exact:
  "regression_ppm baseline candidate higher_is_better =
     (if baseline = 0 then
        Some (if candidate = 0 then 0 else if higher_is_better then - (2 ^ 63) else 2 ^ 63 - 1)
      else
        let g = growth_ppm (unat baseline) (unat candidate) in
        if \<bar>g\<bar> < 2 ^ 63 then Some (if higher_is_better then - g else g) else None)"
  by (cases "baseline = 0")
    (simp_all add: regression_ppm_value, simp add: regression_ppm_def unbounded_regression_ppm_def unbounded_improvement_ppm_def)

text \<open>
  A percentage is read exactly when it is a decimal number with up to four digits behind the
  point whose value in parts per million fits 64 bits, and the result is that value.
\<close>
theorem percent_reads_exactly: "parse_percent_ppm s = Some v \<longleftrightarrow> percent_text (unat v) s"
  by (rule parse_percent_ppm_exact)

text \<open>
  The interval of the bootstrap is ordered and lies between the regressions of the extreme
  samples, for every number of samples in use, for means and for maxima: whatever is drawn, it
  never leaves what the samples themselves show.
\<close>
theorem bootstrap_within_extremes:
  assumes "series_within bl bh baseline" "series_within cl ch candidate"
    "bootstrap_interval baseline candidate metric higher_is_better = BR_success iv"
  shows "iv_lower iv \<le> iv_upper iv \<and>
    (if higher_is_better
     then regression_value True bl ch \<le> iv_lower iv \<and> iv_upper iv \<le> regression_value True bh cl
     else regression_value False bh cl \<le> iv_lower iv \<and> iv_upper iv \<le> regression_value False bl ch)"
  using bootstrap_bounds [OF assms] by (simp split: if_splits)

theorem bootstrap_within_extremes_witness:
  "\<exists>iv. bootstrap_interval
      \<lparr>ms_values = replicate 10 100 @ replicate 990 0, ms_count = 10, ms_available = True, ms_reason = []\<rparr>
      \<lparr>ms_values = replicate 10 150 @ replicate 990 0, ms_count = 10, ms_available = True, ms_reason = []\<rparr>
      M_latency False = BR_success iv \<and> iv_lower iv = 500000 \<and> iv_upper iv = 500000"
proof -
  let ?s = "\<lambda>v. \<lparr>ms_values = replicate 10 v @ replicate 990 0, ms_count = 10, ms_available = True, ms_reason = []\<rparr>"
  have w: "series_within (unat v) (unat v) (?s v)" for v
    by (simp add: samples_within_def maximum_samples_def nth_append)
  have g: "growth_ppm 100 150 = 500000" by (simp add: growth_ppm_def)
  have "regression_ppm (of_nat 100) (of_nat 150) False = Some 500000" by (simp add: regression_ppm_value g)
  then have "\<exists>iv. bootstrap_interval (?s 100) (?s 150) M_latency False = BR_success iv"
    by (intro bootstrap_constant [where bv = 100 and cv = 150])
      (use w [of 100] w [of 150] in \<open>simp_all add: maximum_samples_def has_nonzero_sample_def list_ex_iff\<close>)
  then obtain iv where iv: "bootstrap_interval (?s 100) (?s 150) M_latency False = BR_success iv" ..
  from bootstrap_within_extremes [OF w w iv] have "iv_lower iv = 500000 \<and> iv_upper iv = 500000"
    by (simp add: regression_value_def saturated_growth_def g)
  with iv show ?thesis by blast
qed

end
