(* ===== verification/Cli.thy ===== *)
theory Cli
  imports Laghu_Prelude "HOL-Library.Sublist"
begin

text \<open>
  \<open>src/cli/main.cpp\<close>: the command line program. The \<open>write\<close> system call and the two texts of
  the generated build manifest are parameters; the state \<open>'w\<close> is what the system call acts on.
\<close>

section \<open>Definitions\<close>

type_synonym 'w write_call = "int \<Rightarrow> string \<Rightarrow> 'w \<Rightarrow> int \<times> 'w"

text \<open>
  The loop ends because every accepted count is positive, so the remaining text shrinks. A
  count above the size would be outside the contract of \<open>write\<close>.
\<close>

function write_all :: "'w write_call \<Rightarrow> int \<Rightarrow> string \<Rightarrow> 'w \<Rightarrow> bool \<times> 'w" where
  "write_all write descriptor remaining w =
     (if remaining = [] then (True, w)
      else case write descriptor remaining w of
        (written, w') \<Rightarrow>
          if written \<le> 0 then (False, w')
          else write_all write descriptor (drop (nat written) remaining) w')"
  by pat_completeness auto
termination
  by (relation "measure (\<lambda>(_, _, remaining, _). length remaining)") auto

declare write_all.simps [simp del]

definition usage :: "'w write_call \<Rightarrow> 'w \<Rightarrow> int \<times> 'w" where
  "usage write w =
     (case write_all write 2 ''usage: laghu version [--verbose|--json]\<newline>'' w of (_, w') \<Rightarrow> (2, w'))"

definition exit_status :: "bool \<times> 'w \<Rightarrow> int \<times> 'w" where
  "exit_status = (\<lambda>(ok, w). (if ok then 0 else 1, w))"

definition cli_main ::
    "'w write_call \<Rightarrow> string \<Rightarrow> string \<Rightarrow> string list \<Rightarrow> 'w \<Rightarrow> int \<times> 'w" where
  "cli_main write manifest_json manifest_verbose arguments w =
     (if length arguments < 2 then usage write w
      else if arguments ! 1 \<noteq> ''version'' then usage write w
      else if length arguments = 2 then exit_status (write_all write 1 ''laghu 0.0.1\<newline>'' w)
      else if length arguments = 3 \<and> arguments ! 2 = ''--verbose''
        then exit_status (write_all write 1 manifest_verbose w)
      else if length arguments = 3 \<and> arguments ! 2 = ''--json''
        then exit_status
               (case write_all write 1 manifest_json w of
                  (True, w') \<Rightarrow> write_all write 1 ''\<newline>'' w'
                | (False, w') \<Rightarrow> (False, w'))
      else usage write w)"

section \<open>What reaches a descriptor\<close>

text \<open>
  What the program relies on of \<open>write\<close>: a positive result is the number of leading bytes that
  were added to what the descriptor has received, any other result leaves it as it was, and
  other descriptors are not affected.
\<close>

definition write_ok :: "('w \<Rightarrow> int \<Rightarrow> string) \<Rightarrow> 'w write_call \<Rightarrow> bool" where
  "write_ok received write \<longleftrightarrow>
     (\<forall>fd text w n w'. write fd text w = (n, w') \<longrightarrow>
        n \<le> int (length text) \<and>
        (\<forall>d. received w' d = received w d @ (if d = fd \<and> 0 < n then take (nat n) text else [])))"

text \<open>A call of \<open>write\<close> that is given something takes at least one byte.\<close>

definition write_progress :: "'w write_call \<Rightarrow> bool" where
  "write_progress write \<longleftrightarrow> (\<forall>fd text w. text \<noteq> [] \<longrightarrow> 0 < fst (write fd text w))"

lemma write_all_received:
  "write_ok received write \<Longrightarrow> write_all write fd str w = (ok, w') \<Longrightarrow>
   \<exists>sent. prefix sent str \<and> (ok \<longrightarrow> sent = str) \<and>
     (\<forall>d. received w' d = received w d @ (if d = fd then sent else []))"
proof (induction "write" fd str w rule: write_all.induct)
  case (1 call fd str w)
  show ?case
  proof (cases "str = []")
    case True
    then show ?thesis using "1.prems" by (simp add: write_all.simps)
  next
    case False
    obtain n w1 where n: "call fd str w = (n, w1)" by fastforce
    then have step: "received w1 d = received w d @ (if d = fd \<and> 0 < n then take (nat n) str else [])" for d
      using "1.prems"(1) by (simp add: write_ok_def)
    show ?thesis
    proof (cases "n \<le> 0")
      case True
      then show ?thesis using "1.prems" False n step by (auto simp: write_all.simps [of call fd str w])
    next
      case more: False
      then have "write_all call fd (drop (nat n) str) w1 = (ok, w')"
        using "1.prems"(2) False n by (simp add: write_all.simps [of call fd str w])
      from "1.IH" [OF False n [symmetric] more "1.prems"(1) this] obtain sent where sent:
        "prefix sent (drop (nat n) str)" "ok \<longrightarrow> sent = drop (nat n) str"
        "\<forall>d. received w' d = received w1 d @ (if d = fd then sent else [])" by blast
      have "prefix (take (nat n) str @ sent) str"
        using sent(1) by (metis append_take_drop_id same_prefix_prefix)
      with sent step more show ?thesis by (intro exI [of _ "take (nat n) str @ sent"]) auto
    qed
  qed
qed

lemma write_all_succeeds:
  "write_progress write \<Longrightarrow> fst (write_all write fd str w)"
proof (induction "write" fd str w rule: write_all.induct)
  case (1 call fd str w)
  show ?case
  proof (cases "str = []")
    case False
    obtain n w1 where n: "call fd str w = (n, w1)" by fastforce
    then have "\<not> n \<le> 0" using "1.prems" False by (metis fst_conv not_less write_progress_def)
    with "1.IH" [OF False n [symmetric] this "1.prems"] False n show ?thesis
      by (simp add: write_all.simps [of call fd str w])
  qed (simp add: write_all.simps)
qed

text \<open>
  \<open>write_all\<close> always returns, after any sequence of short writes, and what the descriptor
  has received is a prefix of the text, all of it exactly when success is reported; nothing is sent
  twice or to another descriptor.
\<close>

theorem write_all_sends_prefix:
  assumes "write_ok received write"
  shows "\<exists>ok w' sent. write_all write fd str w = (ok, w') \<and> prefix sent str \<and>
     (ok \<longrightarrow> sent = str) \<and>
     (\<forall>d. received w' d = received w d @ (if d = fd then sent else []))"
  using write_all_received [OF assms] by (metis surj_pair)

text \<open>A terminal that takes at most three bytes at a time and records what it gets.\<close>

definition terminal :: "(int \<times> string) list write_call" where
  "terminal fd str w = (let k = min 3 (length str) in (int k, w @ [(fd, take k str)]))"

definition terminal_received :: "(int \<times> string) list \<Rightarrow> int \<Rightarrow> string" where
  "terminal_received w d = concat (map snd (filter (\<lambda>p. fst p = d) w))"

lemma terminal_ok: "write_ok terminal_received terminal"
  by (auto simp: write_ok_def terminal_def terminal_received_def Let_def)

lemma terminal_progress: "write_progress terminal"
  by (auto simp: write_progress_def terminal_def Let_def)

theorem write_all_sends_prefix_witness:
  "\<exists>ok w' sent. write_all terminal 1 ''laghu 0.0.1'' [] = (ok, w') \<and> prefix sent ''laghu 0.0.1'' \<and>
     (ok \<longrightarrow> sent = ''laghu 0.0.1'') \<and>
     (\<forall>d. terminal_received w' d = (if d = 1 then sent else []))"
  using write_all_sends_prefix [OF terminal_ok, of 1 "''laghu 0.0.1''" "[]"]
  by (simp add: terminal_received_def)

text \<open>The specification of the program: status, standard output and standard error.\<close>

definition usage_text :: string where
  "usage_text = ''usage: laghu version [--verbose|--json]\<newline>''"

definition cli_answer :: "string \<Rightarrow> string \<Rightarrow> string list \<Rightarrow> int \<times> string \<times> string" where
  "cli_answer json verbose arguments =
     (case arguments of
        [_, command] \<Rightarrow>
          if command = ''version'' then (0, ''laghu 0.0.1\<newline>'', []) else (2, [], usage_text)
      | [_, command, option] \<Rightarrow>
          if command = ''version'' \<and> option = ''--verbose'' then (0, verbose, [])
          else if command = ''version'' \<and> option = ''--json'' then (0, json @ ''\<newline>'', [])
          else (2, [], usage_text)
      | _ \<Rightarrow> (2, [], usage_text))"

text \<open>
  C37: On descriptors that accept something of every write, the program answers every command
  line: \<open>laghu version\<close> prints the version, \<open>--verbose\<close> and \<open>--json\<close> the manifests on standard
  output with status 0, and anything else prints the usage line on standard error with status 2.
\<close>

theorem cli_answers:
  assumes ok: "write_ok received write" and progress: "write_progress write"
    and start: "\<forall>d. received w d = []"
  shows "\<exists>w'. cli_main write json verbose arguments w = (fst (cli_answer json verbose arguments), w') \<and>
     (received w' 1, received w' 2) = snd (cli_answer json verbose arguments)"
proof -
  have sent: "\<exists>w'. write_all write fd str w0 = (True, w') \<and>
      (\<forall>d. received w' d = received w0 d @ (if d = fd then str else []))" for fd str w0
    using write_all_received [OF ok, of fd str w0] write_all_succeeds [OF progress, of fd str w0]
    by (cases "write_all write fd str w0") auto
  obtain w1 where "write_all write 2 usage_text w = (True, w1)"
      "received w1 1 = []" "received w1 2 = usage_text"
    using sent [of 2 usage_text w] start by auto
  moreover obtain w2 where "write_all write 1 ''laghu 0.0.1\<newline>'' w = (True, w2)"
      "received w2 1 = ''laghu 0.0.1\<newline>''" "received w2 2 = []"
    using sent [of 1 "''laghu 0.0.1\<newline>''" w] start by auto
  moreover obtain w3 where "write_all write 1 verbose w = (True, w3)"
      "received w3 1 = verbose" "received w3 2 = []"
    using sent [of 1 verbose w] start by auto
  moreover obtain w4 where w4: "write_all write 1 json w = (True, w4)"
      "received w4 1 = json" "received w4 2 = []"
    using sent [of 1 json w] start by auto
  moreover obtain w5 where "write_all write 1 ''\<newline>'' w4 = (True, w5)"
      "received w5 1 = json @ ''\<newline>''" "received w5 2 = []"
    using sent [of 1 "''\<newline>''" w4] w4 by auto
  ultimately show ?thesis
    unfolding cli_main_def cli_answer_def usage_def exit_status_def usage_text_def [symmetric]
    by (simp split: list.splits)
qed

theorem cli_answers_witness:
  "\<exists>w'. cli_main terminal ''{}'' ''v'' [''laghu'', ''version'', ''--json''] [] = (0, w') \<and>
     terminal_received w' 1 = ''{}\<newline>'' \<and> terminal_received w' 2 = []"
proof -
  have "\<forall>d. terminal_received [] d = []" by (simp add: terminal_received_def)
  from cli_answers [OF terminal_ok terminal_progress this, of "''{}''" "''v''"
      "[''laghu'', ''version'', ''--json'']"]
  show ?thesis by (simp add: cli_answer_def)
qed

end
