(* ===== verification/Spec2Isabelle.thy ===== *)
theory Spec2Isabelle
  imports State_Transitions Binary_Envelope Slab_Pool Bounded_Buffer Cancellation_Tokens Mapped_Regions Bounded_Arena Dependency_Errors
    Dependency_Lifecycle Secret_Passwords Bench_Files Bench_Statistics Cli
begin

text \<open>
  Verification of laghu, a C++ server core: the library under \<open>src/core\<close>, \<open>src/os\<close> and
  \<open>src/cli\<close>, two groups of the adapters under \<open>src/adapters\<close>, and the documents and statistics of the
  benchmark evaluator under \<open>bench\<close>.

  \<^bold>\<open>The program.\<close> Every fallible function returns \<open>Result<T>\<close> (\<open>std::expected\<close>) with an \<open>Error\<close>
  of bounded size. Values, views and identifiers are built by factories that validate. Memory is
  charged to a tree of budgets; the pool, the buffer and the arena draw their storage from sources
  of the caller and reserve on those budgets. Descriptors and mappings are owned by move-only
  handles. Records leave the process in a checksummed envelope. Deadlines and cancellation tokens
  bound the work of a request. The adapters put native libraries behind these contracts: their
  errors become \<open>Error\<close> values, and a registry takes them through fork and cleanup. The benchmark
  evaluator is a program of its own that reads JSON artifacts.

  \<^bold>\<open>Conventions.\<close> A fixed-width unsigned integer is a word of that width, so its arithmetic wraps as in
  C++; \<open>int64_t\<close> values are words read by \<open>sint\<close>, or integers where the lemmas show that no
  intermediate value leaves the type. \<open>'a Result\<close> is \<open>Error + 'a\<close>. Classes are records, and an
  operation takes the record and returns it updated with its result. Where the code calls
  \<open>std::terminate\<close>, follows a dangling pointer or does not return, the operation is \<open>None\<close>. Memory
  is a function from addresses to bytes. Objects that are shared through pointers (budgets,
  cancellation states) live in an explicit heap. Code outside the repository (system calls,
  allocators, log sinks, native libraries) is an argument of the definitions that use it and acts
  on a state of type \<open>'w\<close> or \<open>'c\<close> that the model threads through; what the code relies on of it is
  a named hypothesis of the lemmas that need it, with an instance in the witness.

  \<^bold>\<open>Theories.\<close> Each models the file it names, in the order of the code.

  \<^item> \<open>Laghu_Prelude\<close>: types, fact collections, lemmas on words, lists and decimal numbers.
  \<^item> \<open>Error_Contract\<close> (\<open>core/contract.hpp\<close>), \<open>Checked_Arithmetic\<close>, \<open>Views\<close>, \<open>Identifiers\<close>,
    \<open>Shared_Offsets\<close>, \<open>State_Transitions\<close>: the value types. Overflow checks decide exactly whether
    the mathematical result fits; slices of views stay inside their view (locale \<open>slicing\<close>); the
    fixed-width codecs are bijections (locale \<open>fixed_codec\<close>); a traced machine's trace is the path it took.
  \<^item> \<open>Memory_Model\<close>, \<open>Crc32c\<close>, \<open>Binary_Envelope\<close> (\<open>core/binary_envelope.hpp\<close>): the copy loops, the
    checksum as a linear shift register, and the envelope. Decoding inverts encoding, accepts exactly
    the canonical bytes, and rejects every change within four consecutive bytes.
  \<^item> \<open>Guarded_Systems\<close>: locales for programs that drive one component: invariants over runs
    (\<open>guarded_steps\<close>, \<open>guarded_system\<close>) and simulation of a specification (\<open>refined_system\<close>).
  \<^item> \<open>Memory_Budget\<close>, \<open>Budget_Accounting\<close> (\<open>core/memory_budget.hpp\<close>): what a budget has charged is the
    sum of the live reservations below it; a failed operation changes nothing.
  \<^item> \<open>Slab_Pool\<close>, \<open>Io_Slices\<close> (with \<open>src/os\<close>), \<open>Bounded_Buffer\<close>, \<open>Bounded_Arena\<close>: the storage classes.
    The pool refines independent values, slices and buffer refine a queue of bytes (locale
    \<open>byte_queue\<close>), live arena views are disjoint, and the budgets are charged the capacities.
  \<^item> \<open>Clocks\<close>, \<open>Cancellation_Tokens\<close> (\<open>core/clocks\<close>, \<open>core/deadlines_cancellation.hpp\<close>): conversion of the
    system clock and deadlines. The operations of a source are programs of atomic accesses; a step
    relation interleaves those of any number of threads, and all of them agree on one outcome.
  \<^item> \<open>Handles\<close>, \<open>Mapped_Regions\<close>: owned descriptors and mappings. Each adoption of a descriptor is closed,
    given away or merged by a reset exactly once, destructors included (locales \<open>handle_class\<close> and
    \<open>handle_program\<close>); each mapping is removed once; a flush covers whole pages inside the mapping.
  \<^item> \<open>Dependency_Errors\<close>, \<open>Dependency_Lifecycle\<close>, \<open>Password_Auth\<close>, \<open>Secret_Passwords\<close> (\<open>adapters\<close>): error
    normalisation and logging, hooks undone exactly once in reverse order, password verification with the
    exact grammar of encoded hashes, and the lifetime of the secret copies: the definitions return what
    they wipe, and every copy is in a live secret or was wiped.
  \<^item> \<open>Cli\<close> (\<open>cli/main.cpp\<close>): the command line program and its output loop.
  \<^item> \<open>Bench_Json\<close>, \<open>Bench_Files\<close>, \<open>Bench_Statistics\<close> (\<open>bench/evaluator.cpp\<close>): the JSON parser of the benchmark
    evaluator, which accepts exactly a reference grammar within its table sizes and whose lookups show the
    value of the text; reading a file within the bound; percentages, the relative regression as an exact
    long division, and the bootstrap interval, which stays between the extremes of the samples.

  \<^bold>\<open>Bounds and fuel.\<close> Loops that consume an argument are structural or have a termination proof. The
  walks up the parent pointers of the budgets and the doubling of a capacity may run forever on
  some inputs and are \<open>partial_function (option)\<close>; that they return is proved for the heaps and
  sizes that occur. Reading a file runs on while it is interrupted and is such a function too; it returns when the
  interruptions are finite. The loops over JSON members and elements have the length of the
  document as fuel; each round reads at least one character, and the exactness of the parser shows
  that the fuel never runs out. The nesting is bounded by the 65 levels of the code.

  \<^bold>\<open>Not modelled.\<close> The remaining adapters (\<open>codecs\<close> and its three back ends, \<open>crypto_provider\<close>, \<open>dns\<close>,
  \<open>entropy\<close>, \<open>geoip\<close>, \<open>http2\<close>, \<open>http3\<close>, \<open>idna\<close>, \<open>otlp\<close>, \<open>quic\<close>, \<open>regex\<close>, \<open>structured_data\<close>,
  \<open>arena_memory.hpp\<close>, \<open>native_memory.hpp\<close>) interleave their checks of
  limits and states with calls of native libraries (nghttp2, ngtcp2, c-ares, OpenSSL, PCRE2, yyjson
  and others), whose sources are not part of the repository and whose callbacks and handles
  their behaviour depends on. \<open>core/crypto.hpp\<close>, \<open>core/digest\<close> and \<open>core/fingerprints\<close> are thin layers over the
  crypto provider. The rest of \<open>bench\<close> (the evaluator's checks of artifacts and rules and its report, the
  runner and the workloads) measures, compares texts and prints. \<open>fuzz\<close> and \<open>core/smoke.cpp\<close> only call the code above. The
  directories \<open>cache\<close>, \<open>config\<close>, \<open>control\<close>, \<open>observability\<close>, \<open>protocol\<close>, \<open>proxy\<close> and \<open>tls\<close> are empty.
  Memory orders of the atomics are not modelled: every access is sequentially consistent.
\<close>

end
